(* ===== verification/TS_Prelude.thy ===== *)
theory TS_Prelude
  imports Main "HOL-Library.Word"
begin

text \<open>
  Shared vocabulary of the development: the machine types of the Rust sources, the
  \<open>Result\<close> type with the \<open>?\<close> operator, wrapping 64-bit signed arithmetic, the
  standard library's \<open>slice::binary_search_by\<close> and \<open>partition_point\<close>, and the list
  lemmas on strictly ordered keys that the component theories share.
\<close>

section \<open>Machine types\<close>

type_synonym u8 = "8 word"
type_synonym u64 = "64 word"

text \<open>An \<open>i64\<close> is an \<open>int\<close> in the range below; every operation that can leave the
  range is followed by \<open>i64\<close>, the two's complement wrap of a release build.\<close>

definition i64_max :: int where
  "i64_max = 9223372036854775807"

definition i32_max :: int where
  "i32_max = 2147483647"

definition i64_min :: int where
  "i64_min = - 9223372036854775808"

definition is_i64 :: "int \<Rightarrow> bool" where
  "is_i64 x \<longleftrightarrow> i64_min \<le> x \<and> x \<le> i64_max"

definition i64 :: "int \<Rightarrow> int" where
  "i64 x = signed_take_bit 63 x"

text \<open>The casts \<open>x as u64\<close> and \<open>w as i64\<close>.\<close>

definition as_u64 :: "int \<Rightarrow> u64" where
  "as_u64 x = word_of_int x"

definition as_i64 :: "u64 \<Rightarrow> int" where
  "as_i64 w = sint w"

lemma i64_range: "is_i64 (i64 x)"
  using signed_take_bit_int_greater_eq_minus_exp [of 63 x] signed_take_bit_int_less_exp [of 63 x]
  by (simp add: is_i64_def i64_def i64_min_def i64_max_def)

lemma i64_id [simp]: "is_i64 x \<Longrightarrow> i64 x = x"
  unfolding i64_def is_i64_def i64_min_def i64_max_def
  by (simp add: signed_take_bit_int_eq_self_iff)

lemma as_i64_as_u64: "as_i64 (as_u64 x) = i64 x"
  by (simp add: as_i64_def as_u64_def i64_def sint_sbintrunc')

lemma as_u64_as_i64 [simp]: "as_u64 (as_i64 w) = w"
  by (simp add: as_i64_def as_u64_def)

lemma as_i64_range [simp]: "is_i64 (as_i64 w)"
  using i64_range [of "as_i64 w"] by (metis as_i64_as_u64 as_u64_as_i64)

lemma unat_as_u64: "0 \<le> x \<Longrightarrow> x \<le> i64_max \<Longrightarrow> unat (as_u64 x) = nat x"
  by (simp add: as_u64_def i64_max_def unsigned_of_int take_bit_int_eq_self)

lemma i64_mod_cong: "i64 (i64 x + y) = i64 (x + y)" "i64 (x + i64 y) = i64 (x + y)"
  "i64 (i64 x - y) = i64 (x - y)" "i64 (x - i64 y) = i64 (x - y)"
  by (simp_all add: as_i64_as_u64 [symmetric] as_u64_def as_i64_def)

subsection \<open>Words as bit strings\<close>

lemma take_bit_eq_self_iff_unat: "take_bit n w = w \<longleftrightarrow> unat w < 2 ^ n" for w :: "'a::len word"
  by (simp add: word_unat_eq_iff unsigned_take_bit_eq take_bit_nat_eq_self_iff)

lemma bit_unat_less: "unat w < 2 ^ n \<Longrightarrow> bit w k \<Longrightarrow> k < n" for w :: "'a::len word"
  by (metis bit_take_bit_iff take_bit_eq_self_iff_unat)

lemma take_bit_64_u64 [simp]: "take_bit 64 w = w" for w :: u64
  using take_bit_length_eq [of w] by simp

lemma unat_u64_less [simp]: "unat w < 18446744073709551616" for w :: u64
proof -
  have "unat w < 2 ^ LENGTH(64)" by (rule unsigned_less)
  then show ?thesis by simp
qed

lemma unat_word_of_nat_64: "n < 2 ^ 64 \<Longrightarrow> unat (word_of_nat n :: u64) = n"
  by (simp add: of_nat_inverse)

section \<open>Results and the question-mark operator\<close>

text \<open>\<open>Result<T, E>\<close> is \<open>'e + 't\<close>: \<open>Inl\<close> is \<open>Err\<close>, \<open>Inr\<close> is \<open>Ok\<close>.
  \<open>bindR m f\<close> is \<open>{ let x = m?; f(x) }\<close>.\<close>

fun bindR :: "'e + 'a \<Rightarrow> ('a \<Rightarrow> 'e + 'b) \<Rightarrow> 'e + 'b" where
  "bindR (Inl e) f = Inl e"
| "bindR (Inr x) f = f x"

fun map_err :: "('e \<Rightarrow> 'g) \<Rightarrow> 'e + 'a \<Rightarrow> 'g + 'a" where
  "map_err h (Inl e) = Inl (h e)"
| "map_err h (Inr x) = Inr x"

fun map_ok :: "('a \<Rightarrow> 'b) \<Rightarrow> 'e + 'a \<Rightarrow> 'e + 'b" where
  "map_ok h (Inl e) = Inl e"
| "map_ok h (Inr x) = Inr (h x)"

lemma bindR_eq_Inr_iff: "bindR m f = Inr y \<longleftrightarrow> (\<exists>x. m = Inr x \<and> f x = Inr y)"
  by (cases m) auto

lemma bindR_eq_Inl_iff: "bindR m f = Inl e \<longleftrightarrow> m = Inl e \<or> (\<exists>x. m = Inr x \<and> f x = Inl e)"
  by (cases m) auto

lemma map_err_eq_Inr_iff [simp]: "map_err h m = Inr y \<longleftrightarrow> m = Inr y"
  by (cases m) auto

lemma map_ok_eq_Inr_iff: "map_ok h m = Inr y \<longleftrightarrow> (\<exists>x. m = Inr x \<and> y = h x)"
  by (cases m) auto

lemma map_ok_eq_Inl_iff: "map_ok h m = Inl e \<longleftrightarrow> m = Inl e"
  by (cases m) simp_all

lemma bindR_cong [fundef_cong]:
  "m = m' \<Longrightarrow> (\<And>x. m' = Inr x \<Longrightarrow> f x = f' x) \<Longrightarrow> bindR m f = bindR m' f'"
  by (cases m') auto

lemmas result_iffs = bindR_eq_Inr_iff bindR_eq_Inl_iff map_ok_eq_Inr_iff

text \<open>A \<open>for\<close> loop whose body may fail: the first error ends it.\<close>

fun foldR :: "('a \<Rightarrow> 's \<Rightarrow> 'e + 's) \<Rightarrow> 'a list \<Rightarrow> 's \<Rightarrow> 'e + 's" where
  "foldR f [] s = Inr s"
| "foldR f (x # xs) s = bindR (f x s) (foldR f xs)"

lemma foldR_append: "foldR f (xs @ ys) s = bindR (foldR f xs s) (foldR f ys)"
proof (induction xs arbitrary: s)
  case (Cons x xs)
  then show ?case by (cases "f x s") simp_all
qed simp

section \<open>Comparison and binary search\<close>

datatype ordering = Less | Equal | Greater

definition cmp_int :: "int \<Rightarrow> int \<Rightarrow> ordering" where
  "cmp_int a b = (if a < b then Less else if a = b then Equal else Greater)"

text \<open>The loop of \<open>slice::binary_search_by\<close>: \<open>base\<close> and \<open>size\<close> as in the library.\<close>

function bs_loop :: "('a \<Rightarrow> ordering) \<Rightarrow> 'a list \<Rightarrow> nat \<Rightarrow> nat \<Rightarrow> nat" where
  "bs_loop f xs base sz =
     (if 1 < sz
      then let half = sz div 2; mid = base + half
           in bs_loop f xs (if f (xs ! mid) = Greater then base else mid) (sz - half)
      else base)"
  by pat_completeness auto
termination
  by (relation "measure (\<lambda>(f, xs, base, sz). sz)") auto

declare bs_loop.simps [simp del]

definition binary_search_by :: "('a \<Rightarrow> ordering) \<Rightarrow> 'a list \<Rightarrow> nat + nat" where
  "binary_search_by f xs =
     (if xs = [] then Inl 0
      else let base = bs_loop f xs 0 (length xs)
           in case f (xs ! base) of
                Equal \<Rightarrow> Inr base
              | Less \<Rightarrow> Inl (base + 1)
              | Greater \<Rightarrow> Inl base)"

definition partition_point :: "('a \<Rightarrow> bool) \<Rightarrow> 'a list \<Rightarrow> nat" where
  "partition_point p xs =
     (case binary_search_by (\<lambda>x. if p x then Less else Greater) xs of Inl i \<Rightarrow> i | Inr i \<Rightarrow> i)"

primrec rank :: "ordering \<Rightarrow> nat" where
  "rank Less = 0"
| "rank Equal = 1"
| "rank Greater = 2"

text \<open>What the library asks of the comparator: \<open>Less\<close>, then \<open>Equal\<close>, then
  \<open>Greater\<close> along the slice.\<close>

definition cmp_sorted :: "('a \<Rightarrow> ordering) \<Rightarrow> 'a list \<Rightarrow> bool" where
  "cmp_sorted f xs \<longleftrightarrow> sorted_wrt (\<lambda>x y. rank (f x) \<le> rank (f y)) xs"

lemma cmp_sortedD:
  "cmp_sorted f xs \<Longrightarrow> i \<le> j \<Longrightarrow> j < length xs \<Longrightarrow> rank (f (xs ! i)) \<le> rank (f (xs ! j))"
  unfolding cmp_sorted_def
  by (cases "i = j") (auto simp: sorted_wrt_iff_nth_less)

lemma rank_eq_simps [simp]:
  "rank x = 0 \<longleftrightarrow> x = Less" "rank x = 2 \<longleftrightarrow> x = Greater" "rank x \<le> 2" "2 \<le> rank x \<longleftrightarrow> x = Greater"
  by (cases x; simp)+

lemma bs_loop_inv:
  assumes "0 < sz" "base + sz \<le> length xs" "cmp_sorted f xs"
    and "base = 0 \<or> f (xs ! base) \<noteq> Greater"
    and "\<forall>j. base + sz \<le> j \<and> j < length xs \<longrightarrow> f (xs ! j) = Greater"
  defines "r \<equiv> bs_loop f xs base sz"
  shows "r < length xs \<and> (r = 0 \<or> f (xs ! r) \<noteq> Greater)
    \<and> (\<forall>j. r < j \<and> j < length xs \<longrightarrow> f (xs ! j) = Greater)"
  using assms(1-5) unfolding r_def
proof (induction f xs base sz rule: bs_loop.induct)
  case (1 f xs base sz)
  show ?case
  proof (cases "1 < sz")
    case False
    then have "bs_loop f xs base sz = base" by (simp add: bs_loop.simps [of f xs base sz])
    moreover have "sz = 1" using False 1(2) by simp
    ultimately show ?thesis using 1(3,5,6) by simp
  next
    case True
    let ?half = "sz div 2"
    let ?mid = "base + ?half"
    let ?base = "if f (xs ! ?mid) = Greater then base else ?mid"
    have mid: "?mid < length xs" using True 1(3) by linarith
    have gt: "f (xs ! j) = Greater" if "?base + (sz - ?half) \<le> j" "j < length xs" for j
    proof (cases "f (xs ! ?mid) = Greater")
      case Gt: True
      then have "?mid \<le> j" using that by simp
      from cmp_sortedD [OF 1(4) this that(2)] Gt show ?thesis by simp
    next
      case False
      then have "base + sz \<le> j" using that by simp
      then show ?thesis using 1(6) that(2) by blast
    qed
    have "bs_loop f xs ?base (sz - ?half) < length xs
      \<and> (bs_loop f xs ?base (sz - ?half) = 0 \<or> f (xs ! bs_loop f xs ?base (sz - ?half)) \<noteq> Greater)
      \<and> (\<forall>j. bs_loop f xs ?base (sz - ?half) < j \<and> j < length xs \<longrightarrow> f (xs ! j) = Greater)"
    proof (rule 1(1) [OF True refl refl])
      show "0 < sz - ?half" using True by simp
      have "?base + (sz - ?half) \<le> base + sz" by (cases "f (xs ! ?mid) = Greater") simp_all
      then show "?base + (sz - ?half) \<le> length xs" using 1(3) by (rule order_trans)
      show "cmp_sorted f xs" by (rule 1(4))
      show "?base = 0 \<or> f (xs ! ?base) \<noteq> Greater" using 1(5) by simp
      show "\<forall>j. ?base + (sz - ?half) \<le> j \<and> j < length xs \<longrightarrow> f (xs ! j) = Greater"
        by (intro allI impI) (erule conjE, rule gt)
    qed
    moreover have "bs_loop f xs base sz = bs_loop f xs ?base (sz - ?half)"
      using True by (subst bs_loop.simps) (simp only: if_True Let_def)
    ultimately show ?thesis by (rule ssubst [rotated])
  qed
qed

lemma bs_loop_spec:
  assumes "cmp_sorted f xs" "xs \<noteq> []"
  defines "r \<equiv> bs_loop f xs 0 (length xs)"
  shows "r < length xs" "r = 0 \<or> f (xs ! r) \<noteq> Greater"
    "\<And>j. r < j \<Longrightarrow> j < length xs \<Longrightarrow> f (xs ! j) = Greater"
proof -
  have "r < length xs \<and> (r = 0 \<or> f (xs ! r) \<noteq> Greater)
    \<and> (\<forall>j. r < j \<and> j < length xs \<longrightarrow> f (xs ! j) = Greater)"
    unfolding r_def using assms(1,2) by (intro bs_loop_inv) auto
  then show "r < length xs" "r = 0 \<or> f (xs ! r) \<noteq> Greater"
    "\<And>j. r < j \<Longrightarrow> j < length xs \<Longrightarrow> f (xs ! j) = Greater" by blast+
qed

lemma binary_search_by_Inr:
  assumes "cmp_sorted f xs" "binary_search_by f xs = Inr i"
  shows "i < length xs \<and> f (xs ! i) = Equal"
proof -
  from assms(2) have ne: "xs \<noteq> []" by (auto simp: binary_search_by_def)
  then have "bs_loop f xs 0 (length xs) < length xs"
    by (rule bs_loop_spec(1) [OF assms(1)])
  then show ?thesis using assms(2) ne
    by (auto simp: binary_search_by_def Let_def split: ordering.splits)
qed

lemma binary_search_by_Inl:
  assumes "cmp_sorted f xs" "binary_search_by f xs = Inl i"
  shows "i \<le> length xs \<and> (\<forall>j<i. f (xs ! j) = Less) \<and> (\<forall>j. i \<le> j \<and> j < length xs \<longrightarrow> f (xs ! j) = Greater)"
proof (cases "xs = []")
  case True
  then show ?thesis using assms(2) by (simp add: binary_search_by_def)
next
  case False
  let ?r = "bs_loop f xs 0 (length xs)"
  note inv = bs_loop_spec [OF assms(1) False]
  have less: "f (xs ! ?r) = Less \<Longrightarrow> j \<le> ?r \<Longrightarrow> f (xs ! j) = Less" for j
    using cmp_sortedD [OF assms(1), of j ?r] inv(1) by simp
  show ?thesis
  proof (cases "f (xs ! ?r)")
    case Less
    then have "i = ?r + 1" using assms(2) False by (simp add: binary_search_by_def)
    then show ?thesis using inv less [OF Less] by auto
  next
    case Equal
    then show ?thesis using assms(2) False by (simp add: binary_search_by_def)
  next
    case Greater
    then have "i = ?r" "?r = 0" using assms(2) False inv(2) by (simp_all add: binary_search_by_def)
    then show ?thesis using inv Greater by (metis le_eq_less_or_eq le_zero_eq not_less_zero zero_le)
  qed
qed

section \<open>Lists with strictly increasing integer keys\<close>

text \<open>\<open>ksorted k xs\<close>: the keys \<open>k\<close> of \<open>xs\<close> strictly increase. \<open>lower_bound k t xs\<close> is
  the index of the first element whose key is at least \<open>t\<close>.\<close>

definition ksorted :: "('a \<Rightarrow> int) \<Rightarrow> 'a list \<Rightarrow> bool" where
  "ksorted k xs \<longleftrightarrow> sorted_wrt (\<lambda>x y. k x < k y) xs"

definition lower_bound :: "('a \<Rightarrow> int) \<Rightarrow> int \<Rightarrow> 'a list \<Rightarrow> nat" where
  "lower_bound k t xs = length (takeWhile (\<lambda>x. k x < t) xs)"

lemma ksorted_Nil [simp]: "ksorted k []"
  by (simp add: ksorted_def)

lemma ksorted_Cons [simp]: "ksorted k (x # xs) \<longleftrightarrow> (\<forall>y\<in>set xs. k x < k y) \<and> ksorted k xs"
  by (simp add: ksorted_def)

lemma ksorted_append:
  "ksorted k (xs @ ys) \<longleftrightarrow> ksorted k xs \<and> ksorted k ys \<and> (\<forall>x\<in>set xs. \<forall>y\<in>set ys. k x < k y)"
  by (auto simp: ksorted_def sorted_wrt_append)

lemma ksorted_filter: "ksorted k xs \<Longrightarrow> ksorted k (filter p xs)"
  by (simp add: ksorted_def sorted_wrt_filter)

lemma ksorted_take: "ksorted k xs \<Longrightarrow> ksorted k (take n xs)"
  by (simp add: ksorted_def sorted_wrt_take)

lemma ksorted_drop: "ksorted k xs \<Longrightarrow> ksorted k (drop n xs)"
  by (simp add: ksorted_def sorted_wrt_drop)

lemma ksorted_nth_less: "ksorted k xs \<Longrightarrow> i < j \<Longrightarrow> j < length xs \<Longrightarrow> k (xs ! i) < k (xs ! j)"
  by (simp add: ksorted_def sorted_wrt_iff_nth_less)

lemma ksorted_nth_mono: "ksorted k xs \<Longrightarrow> i \<le> j \<Longrightarrow> j < length xs \<Longrightarrow> k (xs ! i) \<le> k (xs ! j)"
  using ksorted_nth_less [of k xs i j] by (cases "i = j") auto

lemma ksorted_distinct: "ksorted k xs \<Longrightarrow> distinct (map k xs)"
  by (induction xs) auto

lemma ksorted_inj: "ksorted k xs \<Longrightarrow> x \<in> set xs \<Longrightarrow> y \<in> set xs \<Longrightarrow> k x = k y \<Longrightarrow> x = y"
  by (meson distinct_map inj_onD ksorted_distinct)

lemma ksorted_hd: "ksorted k xs \<Longrightarrow> x \<in> set xs \<Longrightarrow> k (hd xs) \<le> k x"
  by (cases xs) auto

lemma ksorted_last: "ksorted k xs \<Longrightarrow> x \<in> set xs \<Longrightarrow> k x \<le> k (last xs)"
  by (induction xs) (auto simp: less_imp_le split: if_splits)

text \<open>A strictly ordered list is determined by its set.\<close>

lemma ksorted_unique:
  "ksorted k xs \<Longrightarrow> ksorted k ys \<Longrightarrow> set xs = set ys \<Longrightarrow> xs = ys"
proof (induction xs arbitrary: ys)
  case (Cons x xs)
  then obtain y ys' where ys: "ys = y # ys'" by (cases ys) auto
  have "x \<in> set (y # ys')" "y \<in> set (x # xs)" using Cons.prems(3) ys by auto
  then have "x = y" using Cons.prems(1,2) ys by fastforce
  moreover have "x \<notin> set xs" "y \<notin> set ys'" using Cons.prems ys by auto
  ultimately have "set xs = set ys'" using Cons.prems(3) ys by auto
  then show ?case using Cons ys \<open>x = y\<close> by simp
qed simp

lemma takeWhile_less_eq_filter: "ksorted k xs \<Longrightarrow> takeWhile (\<lambda>x. k x < t) xs = filter (\<lambda>x. k x < t) xs"
proof (induction xs)
  case (Cons x xs)
  then have "\<not> k x < t \<Longrightarrow> filter (\<lambda>x. k x < t) xs = []" by (auto simp: filter_empty_conv)
  then show ?case using Cons by simp
qed simp

lemma dropWhile_less_eq_filter: "ksorted k xs \<Longrightarrow> dropWhile (\<lambda>x. k x < t) xs = filter (\<lambda>x. t \<le> k x) xs"
proof (induction xs)
  case (Cons x xs)
  then have "\<not> k x < t \<Longrightarrow> filter (\<lambda>x. t \<le> k x) xs = xs" by (auto simp: filter_id_conv)
  then show ?case using Cons by simp
qed simp

lemma take_lower_bound: "take (lower_bound k t xs) xs = takeWhile (\<lambda>x. k x < t) xs"
  unfolding lower_bound_def by (simp add: takeWhile_eq_take [symmetric])

lemma drop_lower_bound: "drop (lower_bound k t xs) xs = dropWhile (\<lambda>x. k x < t) xs"
  unfolding lower_bound_def by (simp add: dropWhile_eq_drop [symmetric])

lemma lower_bound_le [simp]: "lower_bound k t xs \<le> length xs"
  by (simp add: lower_bound_def length_takeWhile_le)

lemma lower_bound_less: "j < lower_bound k t xs \<Longrightarrow> k (xs ! j) < t"
  unfolding lower_bound_def
  by (metis (mono_tags, lifting) nth_mem set_takeWhileD takeWhile_nth)

lemma lower_bound_ge: "ksorted k xs \<Longrightarrow> lower_bound k t xs \<le> j \<Longrightarrow> j < length xs \<Longrightarrow> t \<le> k (xs ! j)"
proof -
  assume a: "ksorted k xs" "lower_bound k t xs \<le> j" "j < length xs"
  then have "\<not> k (xs ! lower_bound k t xs) < t"
    unfolding lower_bound_def by (intro nth_length_takeWhile) simp
  then show ?thesis using ksorted_nth_mono [OF a] by simp
qed

lemma lower_bound_unique:
  assumes "ksorted k xs" "i \<le> length xs" "\<And>j. j < i \<Longrightarrow> k (xs ! j) < t"
    and "\<And>j. i \<le> j \<Longrightarrow> j < length xs \<Longrightarrow> t \<le> k (xs ! j)"
  shows "i = lower_bound k t xs"
proof (rule ccontr)
  assume "i \<noteq> lower_bound k t xs"
  then consider "i < lower_bound k t xs" | "lower_bound k t xs < i" by linarith
  then show False
  proof cases
    case 1
    then have "i < length xs" by (rule order_less_le_trans) simp
    then show False using assms(4) [of i] lower_bound_less [OF 1] by simp
  next
    case 2
    then have "lower_bound k t xs < length xs" using assms(2) by simp
    then show False using lower_bound_ge [OF assms(1), of t "lower_bound k t xs"] assms(3) [OF 2] by simp
  qed
qed

text \<open>The binary search of the library on such a list.\<close>

lemma cmp_sorted_key: "ksorted k xs \<Longrightarrow> cmp_sorted (\<lambda>x. cmp_int (k x) t) xs"
  unfolding cmp_sorted_def ksorted_def
  by (erule sorted_wrt_mono_rel [rotated]) (auto simp: cmp_int_def)

lemma cmp_int_eq_simps [simp]:
  "cmp_int a b = Less \<longleftrightarrow> a < b" "cmp_int a b = Equal \<longleftrightarrow> a = b" "cmp_int a b = Greater \<longleftrightarrow> b < a"
  by (auto simp: cmp_int_def)

lemma binary_search_key:
  assumes "ksorted k xs"
  shows "binary_search_by (\<lambda>x. cmp_int (k x) t) xs =
    (if t \<in> k ` set xs then Inr (lower_bound k t xs) else Inl (lower_bound k t xs))"
proof (cases "binary_search_by (\<lambda>x. cmp_int (k x) t) xs")
  case (Inl i)
  note sp = binary_search_by_Inl [OF cmp_sorted_key [OF assms] Inl]
  have "t \<notin> k ` set xs"
  proof
    assume "t \<in> k ` set xs"
    then obtain j where "j < length xs" "k (xs ! j) = t" by (auto simp: in_set_conv_nth)
    then show False using sp by (meson cmp_int_eq_simps(1,3) not_less order_less_irrefl)
  qed
  moreover have "i = lower_bound k t xs"
    by (rule lower_bound_unique [OF assms]) (use sp in auto)
  ultimately show ?thesis using Inl by simp
next
  case (Inr i)
  note sp = binary_search_by_Inr [OF cmp_sorted_key [OF assms] Inr]
  then have "t \<in> k ` set xs" by auto
  moreover have "i = lower_bound k t xs"
  proof (rule lower_bound_unique [OF assms])
    show "i \<le> length xs" using sp by simp
    show "k (xs ! j) < t" if "j < i" for j using ksorted_nth_less [OF assms that] sp by simp
    show "t \<le> k (xs ! j)" if "i \<le> j" "j < length xs" for j
      using ksorted_nth_mono [OF assms that] sp by simp
  qed
  ultimately show ?thesis using Inr by simp
qed

lemma nth_lower_bound:
  assumes "ksorted k xs" "t \<in> k ` set xs"
  shows "lower_bound k t xs < length xs \<and> k (xs ! lower_bound k t xs) = t"
  using binary_search_by_Inr [OF cmp_sorted_key [OF assms(1)], of t "lower_bound k t xs"]
    binary_search_key [OF assms(1), of t] assms(2) by simp

lemma filter_le_less_split:
  "ksorted k xs \<Longrightarrow> xs = filter (\<lambda>x. k x < t) xs @ filter (\<lambda>x. t \<le> k x) xs"
  using takeWhile_dropWhile_id [of "\<lambda>x. k x < t" xs]
  by (simp only: takeWhile_less_eq_filter dropWhile_less_eq_filter)

lemma slice_lower_bounds:
  assumes "ksorted k xs" "a \<le> b"
  shows "drop (lower_bound k a xs) (take (lower_bound k b xs) xs) = filter (\<lambda>x. a \<le> k x \<and> k x < b) xs"
proof -
  have "lower_bound k a (takeWhile (\<lambda>x. k x < b) xs) = lower_bound k a xs"
    unfolding lower_bound_def using assms(2)
    by (induction xs) auto
  then have "drop (lower_bound k a xs) (take (lower_bound k b xs) xs)
    = dropWhile (\<lambda>x. k x < a) (takeWhile (\<lambda>x. k x < b) xs)"
    by (metis drop_lower_bound take_lower_bound)
  also have "\<dots> = filter (\<lambda>x. a \<le> k x) (filter (\<lambda>x. k x < b) xs)"
    using assms(1) by (simp add: takeWhile_less_eq_filter dropWhile_less_eq_filter ksorted_filter)
  finally show ?thesis by (simp add: conj_commute [of "a \<le> _"])
qed

text \<open>The abstract map of a sample list: look-up by key.\<close>

definition klookup :: "('a \<Rightarrow> int) \<Rightarrow> 'a list \<Rightarrow> int \<Rightarrow> 'a option" where
  "klookup k xs t = find (\<lambda>x. k x = t) xs"

lemma klookup_Some_iff: "ksorted k xs \<Longrightarrow> klookup k xs t = Some x \<longleftrightarrow> x \<in> set xs \<and> k x = t"
  unfolding klookup_def by (induction xs) auto

lemma klookup_None_iff: "klookup k xs t = None \<longleftrightarrow> t \<notin> k ` set xs"
  unfolding klookup_def by (induction xs) auto

end
