(* ===== verification/F64.thy ===== *)
theory F64
  imports TS_Prelude
begin

text \<open>
  The \<open>f64\<close> of the sources: an IEEE 754 binary64 value, kept as its bit pattern
  (\<open>to_bits\<close> and \<open>from_bits\<close> are the identity). HOL equality is equality of bit patterns;
  the language's \<open>==\<close>, \<open><\<close> and \<open><=\<close> are \<open>f64_eq\<close>, \<open>f64_lt\<close> and \<open>f64_le\<close>.
  Arithmetic rounds to nearest, ties to even, by exact integer computation. Where the language
  leaves the payload of a result NaN open, the model returns the canonical quiet NaN.
\<close>

unbundle bit_operations_syntax

type_synonym f64 = "64 word"

section \<open>Classification\<close>

definition f64_sign :: "f64 \<Rightarrow> bool" where
  "f64_sign x = bit x 63"

definition f64_exponent :: "f64 \<Rightarrow> nat" where
  "f64_exponent x = unat (drop_bit 52 x AND 0x7FF)"

definition f64_mantissa :: "f64 \<Rightarrow> nat" where
  "f64_mantissa x = unat (x AND 0xFFFFFFFFFFFFF)"

definition f64_magnitude :: "f64 \<Rightarrow> nat" where
  "f64_magnitude x = unat (x AND 0x7FFFFFFFFFFFFFFF)"

definition is_nan :: "f64 \<Rightarrow> bool" where
  "is_nan x \<longleftrightarrow> 0x7FF0000000000000 < f64_magnitude x"

definition is_infinite :: "f64 \<Rightarrow> bool" where
  "is_infinite x \<longleftrightarrow> f64_magnitude x = 0x7FF0000000000000"

definition is_finite :: "f64 \<Rightarrow> bool" where
  "is_finite x \<longleftrightarrow> f64_magnitude x < 0x7FF0000000000000"

definition f64_nan :: f64 where
  "f64_nan = 0x7FF8000000000000"

definition f64_infinity :: f64 where
  "f64_infinity = 0x7FF0000000000000"

definition f64_neg_infinity :: f64 where
  "f64_neg_infinity = 0xFFF0000000000000"

definition f64_MAX :: f64 where
  "f64_MAX = 0x7FEFFFFFFFFFFFFF"

definition f64_MIN :: f64 where
  "f64_MIN = 0xFFEFFFFFFFFFFFFF"

definition f64_abs :: "f64 \<Rightarrow> f64" where
  "f64_abs x = x AND 0x7FFFFFFFFFFFFFFF"

definition f64_neg :: "f64 \<Rightarrow> f64" where
  "f64_neg x = x XOR 0x8000000000000000"

section \<open>Comparison\<close>

text \<open>On values that are not NaN the order is that of the signed magnitude; both zeros have
  key 0.\<close>

definition f64_key :: "f64 \<Rightarrow> int" where
  "f64_key x = (if f64_sign x then - int (f64_magnitude x) else int (f64_magnitude x))"

definition f64_eq :: "f64 \<Rightarrow> f64 \<Rightarrow> bool" where
  "f64_eq a b \<longleftrightarrow> \<not> is_nan a \<and> \<not> is_nan b \<and> f64_key a = f64_key b"

definition f64_lt :: "f64 \<Rightarrow> f64 \<Rightarrow> bool" where
  "f64_lt a b \<longleftrightarrow> \<not> is_nan a \<and> \<not> is_nan b \<and> f64_key a < f64_key b"

definition f64_le :: "f64 \<Rightarrow> f64 \<Rightarrow> bool" where
  "f64_le a b \<longleftrightarrow> \<not> is_nan a \<and> \<not> is_nan b \<and> f64_key a \<le> f64_key b"

definition f64_partial_cmp :: "f64 \<Rightarrow> f64 \<Rightarrow> ordering option" where
  "f64_partial_cmp a b = (if is_nan a \<or> is_nan b then None else Some (cmp_int (f64_key a) (f64_key b)))"

text \<open>\<open>f64::min\<close> and \<open>f64::max\<close> return the other operand when one is NaN. Which zero they
  return for operands \<open>0.0\<close> and \<open>-0.0\<close> is left open by the language; the model keeps
  the first.\<close>

definition f64_min :: "f64 \<Rightarrow> f64 \<Rightarrow> f64" where
  "f64_min a b = (if is_nan a then b else if is_nan b then a else if f64_key b < f64_key a then b else a)"

definition f64_max :: "f64 \<Rightarrow> f64 \<Rightarrow> f64" where
  "f64_max a b = (if is_nan a then b else if is_nan b then a else if f64_key a < f64_key b then b else a)"

section \<open>Arithmetic\<close>

text \<open>A finite value is \<open>(-1)^s * m * 2^e\<close>.\<close>

definition f64_sig :: "f64 \<Rightarrow> nat" where
  "f64_sig x = (if f64_exponent x = 0 then f64_mantissa x else f64_mantissa x + 2 ^ 52)"

definition f64_exp2 :: "f64 \<Rightarrow> int" where
  "f64_exp2 x = (if f64_exponent x = 0 then - 1074 else int (f64_exponent x) - 1075)"

fun bit_length :: "nat \<Rightarrow> nat" where
  "bit_length n = (if n = 0 then 0 else Suc (bit_length (n div 2)))"

declare bit_length.simps [simp del]

lemma bit_length_numeral [simp]:
  "bit_length 0 = 0" "bit_length 1 = 1"
  "bit_length (numeral (Num.Bit0 k)) = Suc (bit_length (numeral k))"
  "bit_length (numeral (Num.Bit1 k)) = Suc (bit_length (numeral k))"
proof -
  show "bit_length 0 = 0" by (simp add: bit_length.simps)
  show one: "bit_length 1 = 1" using bit_length.simps [of 1] bit_length.simps [of 0] by simp
  have "numeral (Num.Bit0 k) div 2 = (numeral k :: nat)" "numeral (Num.Bit1 k) div 2 = (numeral k :: nat)"
    by simp_all
  then show "bit_length (numeral (Num.Bit0 k)) = Suc (bit_length (numeral k))"
    "bit_length (numeral (Num.Bit1 k)) = Suc (bit_length (numeral k))"
    by (subst bit_length.simps; simp)+
qed

text \<open>Round \<open>m * 2^e\<close> to nearest, ties to even. The last place has weight \<open>2^q\<close>; a carry out of
  the significand moves into the exponent field of the sum on its own.\<close>

definition f64_round_pack :: "bool \<Rightarrow> nat \<Rightarrow> int \<Rightarrow> f64" where
  "f64_round_pack s m e =
     (let sgn = (if s then 0x8000000000000000 else 0) in
      if m = 0 then sgn
      else
        let q = max (int (bit_length m) + e - 53) (- 1074);
            r = (if q \<le> e then m * 2 ^ nat (e - q)
                 else let sh = nat (q - e); d = m div 2 ^ sh; rm = m mod 2 ^ sh; half = 2 ^ (sh - 1)
                      in if half < rm \<or> (rm = half \<and> odd d) then d + 1 else d);
            bits = nat (q + 1074) * 2 ^ 52 + r
        in if 0x7FF0000000000000 \<le> bits then sgn OR f64_infinity
           else sgn OR word_of_nat bits)"

definition f64_add :: "f64 \<Rightarrow> f64 \<Rightarrow> f64" where
  "f64_add a b =
     (if is_nan a \<or> is_nan b then f64_nan
      else if is_infinite a then (if is_infinite b \<and> f64_sign a \<noteq> f64_sign b then f64_nan else a)
      else if is_infinite b then b
      else
        let e = min (f64_exp2 a) (f64_exp2 b);
            ma = int (f64_sig a) * 2 ^ nat (f64_exp2 a - e) * (if f64_sign a then - 1 else 1);
            mb = int (f64_sig b) * 2 ^ nat (f64_exp2 b - e) * (if f64_sign b then - 1 else 1);
            t = ma + mb
        in if t = 0 then (if f64_sign a \<and> f64_sign b then 0x8000000000000000 else 0)
           else f64_round_pack (t < 0) (nat \<bar>t\<bar>) e)"

definition f64_sub :: "f64 \<Rightarrow> f64 \<Rightarrow> f64" where
  "f64_sub a b = f64_add a (f64_neg b)"

definition f64_mul :: "f64 \<Rightarrow> f64 \<Rightarrow> f64" where
  "f64_mul a b =
     (let s = (f64_sign a \<noteq> f64_sign b); sgn = (if s then 0x8000000000000000 else 0) in
      if is_nan a \<or> is_nan b then f64_nan
      else if is_infinite a \<or> is_infinite b then
        (if f64_magnitude a = 0 \<or> f64_magnitude b = 0 then f64_nan else sgn OR f64_infinity)
      else f64_round_pack s (f64_sig a * f64_sig b) (f64_exp2 a + f64_exp2 b))"

text \<open>Division keeps 120 quotient bits and a sticky bit, more than rounding looks at.\<close>

definition f64_div :: "f64 \<Rightarrow> f64 \<Rightarrow> f64" where
  "f64_div a b =
     (let s = (f64_sign a \<noteq> f64_sign b); sgn = (if s then 0x8000000000000000 else 0) in
      if is_nan a \<or> is_nan b then f64_nan
      else if is_infinite a then (if is_infinite b then f64_nan else sgn OR f64_infinity)
      else if is_infinite b then sgn
      else if f64_magnitude b = 0 then (if f64_magnitude a = 0 then f64_nan else sgn OR f64_infinity)
      else
        let n = f64_sig a * 2 ^ 120; d = f64_sig b;
            m = 2 * (n div d) + (if n mod d = 0 then 0 else 1)
        in f64_round_pack s m (f64_exp2 a - f64_exp2 b - 121))"

section \<open>Conversions and rounding to integers\<close>

text \<open>\<open>n as f64\<close> of an integer.\<close>

definition f64_of_int :: "int \<Rightarrow> f64" where
  "f64_of_int x = f64_round_pack (x < 0) (nat \<bar>x\<bar>) 0"

text \<open>The integer part of the magnitude, and whether a fraction is cut off.\<close>

definition f64_int_part :: "f64 \<Rightarrow> nat" where
  "f64_int_part x =
     (if 0 \<le> f64_exp2 x then f64_sig x * 2 ^ nat (f64_exp2 x) else f64_sig x div 2 ^ nat (- f64_exp2 x))"

definition f64_has_fract :: "f64 \<Rightarrow> bool" where
  "f64_has_fract x \<longleftrightarrow> f64_exp2 x < 0 \<and> f64_sig x mod 2 ^ nat (- f64_exp2 x) \<noteq> 0"

definition f64_floor :: "f64 \<Rightarrow> f64" where
  "f64_floor x =
     (if \<not> is_finite x \<or> \<not> f64_has_fract x then x
      else if f64_sign x then f64_round_pack True (f64_int_part x + 1) 0
      else f64_round_pack False (f64_int_part x) 0)"

definition f64_ceil :: "f64 \<Rightarrow> f64" where
  "f64_ceil x =
     (if \<not> is_finite x \<or> \<not> f64_has_fract x then x
      else if f64_sign x then f64_round_pack True (f64_int_part x) 0
      else f64_round_pack False (f64_int_part x + 1) 0)"

text \<open>\<open>x as i64\<close> and \<open>x as i32\<close>: towards zero, saturating, 0 for NaN.\<close>

definition f64_trunc_clamp :: "int \<Rightarrow> int \<Rightarrow> f64 \<Rightarrow> int" where
  "f64_trunc_clamp lo hi x =
     (if is_nan x then 0
      else if is_infinite x then (if f64_sign x then lo else hi)
      else max lo (min hi (if f64_sign x then - int (f64_int_part x) else int (f64_int_part x))))"

definition f64_as_i64 :: "f64 \<Rightarrow> int" where
  "f64_as_i64 = f64_trunc_clamp i64_min i64_max"

definition f64_as_i32 :: "f64 \<Rightarrow> int" where
  "f64_as_i32 = f64_trunc_clamp (- 2147483648) 2147483647"

section \<open>The sign\<close>

lemma f64_zero_fields [simp]: "f64_magnitude 0 = 0" "\<not> f64_sign 0"
  by (simp_all add: f64_magnitude_def f64_sign_def)

lemma f64_neg_fields [simp]: "f64_magnitude (f64_neg x) = f64_magnitude x" "f64_sign (f64_neg x) = (\<not> f64_sign x)"
  by (simp_all add: f64_magnitude_def f64_sign_def f64_neg_def bit.conj_xor_distrib2 bit_xor_iff)

section \<open>Order facts\<close>

lemma f64_le_refl [simp]: "\<not> is_nan a \<Longrightarrow> f64_le a a"
  by (simp add: f64_le_def)

lemma f64_le_trans: "f64_le a b \<Longrightarrow> f64_le b c \<Longrightarrow> f64_le a c"
  by (auto simp: f64_le_def)

lemma f64_le_lt_cases: "\<not> is_nan a \<Longrightarrow> \<not> is_nan b \<Longrightarrow> f64_le a b \<or> f64_lt b a"
  by (auto simp: f64_le_def f64_lt_def)

lemma f64_lt_irrefl [simp]: "\<not> f64_lt a a"
  by (simp add: f64_lt_def)

lemma f64_min_le:
  "\<not> is_nan a \<Longrightarrow> \<not> is_nan b \<Longrightarrow> f64_le (f64_min a b) a \<and> f64_le (f64_min a b) b \<and> f64_min a b \<in> {a, b}"
  by (auto simp: f64_min_def f64_le_def)

lemma f64_max_ge:
  "\<not> is_nan a \<Longrightarrow> \<not> is_nan b \<Longrightarrow> f64_le a (f64_max a b) \<and> f64_le b (f64_max a b) \<and> f64_max a b \<in> {a, b}"
  by (auto simp: f64_max_def f64_le_def)

text \<open>A bit pattern is its sign and its magnitude, so the language's \<open>==\<close> on a non-zero
  operand decides equality of bit patterns.\<close>

lemma f64_sign_magnitude_inj:
  assumes "f64_sign a = f64_sign b" "f64_magnitude a = f64_magnitude b"
  shows "a = b"
proof (rule bit_word_eqI)
  fix n assume n: "n < LENGTH(64)"
  from assms(2) have m: "a AND 0x7FFFFFFFFFFFFFFF = b AND 0x7FFFFFFFFFFFFFFF"
    by (simp add: f64_magnitude_def word_unat_eq_iff)
  have mask: "(0x7FFFFFFFFFFFFFFF :: 64 word) = mask 63" by (simp add: mask_eq_exp_minus_1)
  show "bit a n = bit b n"
  proof (cases "n = 63")
    case True
    then show ?thesis using assms(1) by (simp add: f64_sign_def)
  next
    case False
    with n have "n < 63" by simp
    then show ?thesis using arg_cong [OF m, of "\<lambda>w. bit w n"] n
      unfolding mask by (simp add: bit_and_iff bit_mask_iff)
  qed
qed

lemma f64_eq_imp_same_bits:
  assumes "f64_eq a b" "f64_key b \<noteq> 0"
  shows "a = b"
proof (rule f64_sign_magnitude_inj)
  have k: "f64_key a = f64_key b" using assms(1) by (simp add: f64_eq_def)
  then show "f64_sign a = f64_sign b" using assms(2)
    by (auto simp: f64_key_def split: if_splits)
  then show "f64_magnitude a = f64_magnitude b" using k
    by (simp add: f64_key_def split: if_splits)
qed

end
