(* ===== verification/Types.thy ===== *)
theory Types
  imports F64
begin

text \<open>
  \<open>src/common/types.rs\<close>, \<open>src/error.rs\<close> and \<open>src/series/types.rs\<close>: samples and their order, the
  errors, the duplicate policies and what they make of two values at one timestamp.
\<close>

section \<open>Samples\<close>

type_synonym timestamp = int

record sample =
  timestamp :: timestamp
  val :: f64

text \<open>\<open>Sample::new\<close>.\<close>

definition sample_new :: "timestamp \<Rightarrow> f64 \<Rightarrow> sample" where
  "sample_new ts v = \<lparr>timestamp = ts, val = v\<rparr>"

text \<open>\<open>PartialEq\<close> and \<open>Ord\<close> of \<open>Sample\<close>: NaN equals NaN and is above every number.\<close>

definition sample_eq :: "sample \<Rightarrow> sample \<Rightarrow> bool" where
  "sample_eq a b \<longleftrightarrow> timestamp a = timestamp b \<and>
     (if is_nan (val a) then is_nan (val b) else f64_eq (val a) (val b))"

definition sample_cmp :: "sample \<Rightarrow> sample \<Rightarrow> ordering" where
  "sample_cmp a b =
     (let c = cmp_int (timestamp a) (timestamp b) in
      if c = Equal then
        if is_nan (val a) then (if is_nan (val b) then Equal else Greater)
        else if is_nan (val b) then Less
        else the (f64_partial_cmp (val a) (val b))
      else c)"

definition sample_less :: "sample \<Rightarrow> sample \<Rightarrow> bool" where
  "sample_less a b \<longleftrightarrow> sample_cmp a b = Less"

definition SAMPLE_SIZE :: nat where
  "SAMPLE_SIZE = 16"

datatype sort_dir = Asc | Desc

abbreviation tsorted :: "sample list \<Rightarrow> bool" where
  "tsorted \<equiv> ksorted timestamp"

section \<open>Errors\<close>

datatype tsdb_error =
    CapacityFull nat
  | InvalidConfiguration string
  | DecodingError string
  | EncodingError string
  | CannotSerialize string
  | CannotDeserialize string
  | CannotCompress string
  | CannotDecompress string
  | DuplicateSample string
  | InvalidMetric string
  | InvalidCompression string
  | RemoveRangeError
  | InvalidNumber string
  | InvalidSeriesSelector string
  | SampleTooOld
  | CannotAddSample sample
  | General string
  | ChunkEncodingError
  | ChunkDecoding
  | ChunkSplitError
  | EndOfStream
  | PermissionsError string

type_synonym 'a tsdb_result = "tsdb_error + 'a"

section \<open>Duplicate policies\<close>

datatype duplicate_policy = Block | KeepFirst | KeepLast | Min | Max | Sum

fun policy_as_str :: "duplicate_policy \<Rightarrow> string" where
  "policy_as_str Block = ''block''"
| "policy_as_str KeepFirst = ''first''"
| "policy_as_str KeepLast = ''last''"
| "policy_as_str Min = ''min''"
| "policy_as_str Max = ''max''"
| "policy_as_str Sum = ''sum''"

fun policy_as_u8 :: "duplicate_policy \<Rightarrow> u8" where
  "policy_as_u8 Block = 0"
| "policy_as_u8 KeepFirst = 1"
| "policy_as_u8 KeepLast = 2"
| "policy_as_u8 Min = 3"
| "policy_as_u8 Max = 4"
| "policy_as_u8 Sum = 5"

definition policy_from_u8 :: "u8 \<Rightarrow> duplicate_policy option" where
  "policy_from_u8 b =
     (if b = 0 then Some Block else if b = 1 then Some KeepFirst else if b = 2 then Some KeepLast
      else if b = 3 then Some Min else if b = 4 then Some Max else if b = 5 then Some Sum else None)"

definition raise_error :: "string \<Rightarrow> f64 tsdb_result" where
  "raise_error err = Inl (DuplicateSample err)"

definition raise_block_error :: "f64 tsdb_result" where
  "raise_block_error = raise_error
     ''TSDB: Error at upsert, update is not supported when DUPLICATE_POLICY is set to BLOCK mode''"

definition duplicate_value :: "duplicate_policy \<Rightarrow> timestamp \<Rightarrow> f64 \<Rightarrow> f64 \<Rightarrow> f64 tsdb_result" where
  "duplicate_value policy ts old new =
     (let old_nan = is_nan old; new_nan = is_nan new in
      if old_nan \<or> new_nan then
        if policy = Block then raise_block_error
        else if old_nan \<noteq> new_nan \<and> policy \<in> {Max, Min, Sum} then
          raise_error ''TSDB: Error at upsert, NaN values are not supported for MAX, MIN, and SUM duplicate policies''
        else if new_nan then Inr old else Inr new
      else case policy of
          Block \<Rightarrow> raise_block_error
        | KeepFirst \<Rightarrow> Inr old
        | KeepLast \<Rightarrow> Inr new
        | Min \<Rightarrow> Inr (f64_min old new)
        | Max \<Rightarrow> Inr (f64_max old new)
        | Sum \<Rightarrow> Inr (f64_add old new))"

record sample_duplicate_policy =
  policy :: "duplicate_policy option"
  max_time_delta :: u64
  max_value_delta :: f64

text \<open>\<open>config_policy\<close> is the module's \<open>DUPLICATE_POLICY\<close> setting, read by \<open>duplicate_policy()\<close>.\<close>

definition resolve_policy ::
  "duplicate_policy \<Rightarrow> sample_duplicate_policy \<Rightarrow> duplicate_policy option \<Rightarrow> duplicate_policy" where
  "resolve_policy config_policy p override =
     (case override of Some q \<Rightarrow> q
      | None \<Rightarrow> (case policy p of Some q \<Rightarrow> q | None \<Rightarrow> config_policy))"

definition is_duplicate ::
  "duplicate_policy \<Rightarrow> sample_duplicate_policy \<Rightarrow> sample \<Rightarrow> sample \<Rightarrow> duplicate_policy option \<Rightarrow> bool" where
  "is_duplicate config_policy p current last_sample override =
     (let time_delta = i64 (timestamp current - timestamp last_sample) in
      if 0 \<le> time_delta \<and> time_delta \<le> as_i64 (max_time_delta p) then
        if resolve_policy config_policy p override \<noteq> KeepLast then False
        else if is_nan (val current) \<or> is_nan (val last_sample) then False
        else f64_le (f64_abs (f64_sub (val last_sample) (val current))) (max_value_delta p)
      else False)"

datatype sample_add_result =
    AddOk sample
  | AddDuplicate
  | AddIgnored timestamp
  | AddTooOld
  | AddError string

fun add_result_is_ok :: "sample_add_result \<Rightarrow> bool" where
  "add_result_is_ok (AddOk s) = True"
| "add_result_is_ok _ = False"

record value_filter =
  vf_min :: f64
  vf_max :: f64

definition vf_is_match :: "value_filter \<Rightarrow> f64 \<Rightarrow> bool" where
  "vf_is_match vf v \<longleftrightarrow> f64_le (vf_min vf) v \<and> f64_le v (vf_max vf)"

definition vf_greater_than :: "f64 \<Rightarrow> value_filter" where
  "vf_greater_than v = \<lparr>vf_min = v, vf_max = f64_MAX\<rparr>"

definition vf_less_than :: "f64 \<Rightarrow> value_filter" where
  "vf_less_than v = \<lparr>vf_min = f64_MIN, vf_max = v\<rparr>"

text \<open>\<open>filter_samples_by_value\<close> and \<open>filter_timestamp_slice\<close> of \<open>chunks/utils.rs\<close>.\<close>

definition filter_samples_by_value :: "sample list \<Rightarrow> value_filter \<Rightarrow> sample list" where
  "filter_samples_by_value samples vf =
     filter (\<lambda>s. f64_le (vf_min vf) (val s) \<and> f64_le (val s) (vf_max vf)) samples"

definition filter_timestamp_slice :: "timestamp list \<Rightarrow> timestamp \<Rightarrow> timestamp \<Rightarrow> timestamp list" where
  "filter_timestamp_slice ts_filter start end_ts =
     remdups_adj (sort (filter (\<lambda>ts. start \<le> ts \<and> ts \<le> end_ts) ts_filter))"

section \<open>Lemmas\<close>

lemma sample_new_simps [simp]: "timestamp (sample_new t v) = t" "val (sample_new t v) = v"
  by (simp_all add: sample_new_def)

lemma policy_u8_round_trip [simp]: "policy_from_u8 (policy_as_u8 p) = Some p"
  by (cases p) (simp_all add: policy_from_u8_def)

lemma duplicate_value_error:
  "duplicate_value p ts old new = Inl e \<Longrightarrow> \<exists>msg. e = DuplicateSample msg"
  by (auto simp: duplicate_value_def raise_block_error_def raise_error_def Let_def
      split: if_splits duplicate_policy.splits)

lemma duplicate_value_cases:
  "duplicate_value Block ts old new = raise_block_error"
  "\<not> is_nan new \<Longrightarrow> duplicate_value KeepLast ts old new = Inr new"
  "\<not> is_nan old \<Longrightarrow> duplicate_value KeepFirst ts old new = Inr old"
  "is_nan new \<Longrightarrow> duplicate_value KeepLast ts old new = Inr old"
  by (auto simp: duplicate_value_def Let_def)

lemma filter_timestamp_slice_set [simp]:
  "set (filter_timestamp_slice tss a b) = {t \<in> set tss. a \<le> t \<and> t \<le> b}"
  by (auto simp: filter_timestamp_slice_def)

lemma remdups_adj_strict: "sorted xs \<Longrightarrow> sorted_wrt (<) (remdups_adj xs)" for xs :: "'a::linorder list"
  by (induction xs rule: remdups_adj.induct) (auto simp: le_less)

lemma filter_timestamp_slice_sorted: "sorted_wrt (<) (filter_timestamp_slice tss a b)"
  by (simp add: filter_timestamp_slice_def remdups_adj_strict)

text \<open>\<open>Ord\<close> for samples is a total order up to \<open>==\<close>, so the \<open>unwrap\<close> in it never panics.\<close>

lemma f64_partial_cmp_total:
  assumes "\<not> is_nan a" "\<not> is_nan b"
  shows "f64_partial_cmp a b = Some (cmp_int (f64_key a) (f64_key b))"
  using assms by (auto simp: f64_partial_cmp_def f64_eq_def f64_lt_def cmp_int_def)

text \<open>A key that orders the values, NaN last.\<close>

definition val_key :: "f64 \<Rightarrow> bool \<times> int" where
  "val_key x = (if is_nan x then (True, 0) else (False, f64_key x))"

lemma sample_cmp_key:
  "sample_cmp a b = Less \<longleftrightarrow> timestamp a < timestamp b \<or> timestamp a = timestamp b \<and>
     (\<not> is_nan (val a) \<and> (is_nan (val b) \<or> f64_key (val a) < f64_key (val b)))"
  "sample_cmp a b = Equal \<longleftrightarrow> timestamp a = timestamp b \<and> val_key (val a) = val_key (val b)"
  by (auto simp: sample_cmp_def Let_def f64_partial_cmp_total cmp_int_def val_key_def)

lemma sample_eq_key: "sample_eq a b \<longleftrightarrow> timestamp a = timestamp b \<and> val_key (val a) = val_key (val b)"
  by (auto simp: sample_eq_def val_key_def f64_eq_def)

lemma sample_less_timestamp: "timestamp a \<noteq> timestamp b \<Longrightarrow> sample_less a b \<longleftrightarrow> timestamp a < timestamp b"
  by (auto simp: sample_less_def sample_cmp_key)

section \<open>Sample lists as maps\<close>

text \<open>The abstract value of an ordered sample list: the value at each timestamp.\<close>

definition smap :: "sample list \<Rightarrow> timestamp \<rightharpoonup> f64" where
  "smap xs = map_of (map (\<lambda>s. (timestamp s, val s)) xs)"

lemma smap_simps [simp]:
  "smap [] = Map.empty"
  "smap (s # xs) = (smap xs)(timestamp s \<mapsto> val s)"
  "smap (xs @ ys) = smap ys ++ smap xs"
  by (simp_all add: smap_def)

lemma dom_smap [simp]: "dom (smap xs) = timestamp ` set xs"
  by (simp add: smap_def dom_map_of_conv_image_fst image_image)

lemma smap_None_iff: "smap xs t = None \<longleftrightarrow> t \<notin> timestamp ` set xs"
  by (metis dom_smap domIff)

lemma sample_collapse: "sample_new (timestamp s) (val s) = s" for s :: sample
  by (simp add: sample_new_def)

lemma sample_eqI: "timestamp a = timestamp b \<Longrightarrow> val a = val b \<Longrightarrow> a = b" for a b :: sample
  by simp

lemma smap_Some_iff:
  assumes "tsorted xs" shows "smap xs t = Some v \<longleftrightarrow> sample_new t v \<in> set xs"
proof
  assume "smap xs t = Some v"
  then have "(t, v) \<in> set (map (\<lambda>s. (timestamp s, val s)) xs)" unfolding smap_def by (rule map_of_SomeD)
  then show "sample_new t v \<in> set xs" by (auto simp: sample_collapse)
next
  assume "sample_new t v \<in> set xs"
  then have "(t, v) \<in> set (map (\<lambda>s. (timestamp s, val s)) xs)" by force
  moreover have "distinct (map fst (map (\<lambda>s. (timestamp s, val s)) xs))"
    using ksorted_distinct [OF assms] by (simp add: comp_def)
  ultimately show "smap xs t = Some v" unfolding smap_def by (rule map_of_is_SomeI [rotated])
qed

lemma smap_ext:
  assumes "tsorted xs" "tsorted ys" "smap xs = smap ys" shows "xs = ys"
proof (rule ksorted_unique [OF assms(1,2)])
  have "s \<in> set xs \<longleftrightarrow> s \<in> set ys" for s
    using smap_Some_iff [OF assms(1), of "timestamp s" "val s"] smap_Some_iff [OF assms(2), of "timestamp s" "val s"]
      assms(3) by (simp add: sample_collapse)
  then show "set xs = set ys" by blast
qed

lemma smap_filter: "smap (filter (\<lambda>s. P (timestamp s)) xs) = smap xs |` {t. P t}"
  by (induction xs) (auto simp: restrict_map_insert fun_eq_iff restrict_map_def)

lemma smap_inj: "tsorted xs \<Longrightarrow> s \<in> set xs \<Longrightarrow> smap xs (timestamp s) = Some (val s)"
  by (simp add: smap_Some_iff sample_collapse)

end
