(* ===== verification/Rounding.thy ===== *)
theory Rounding
  imports Types
begin

text \<open>
  \<open>src/common/rounding.rs\<close>: rounding of sample values to decimal or significant digits. \<open>powi\<close> and
  \<open>log10\<close> are the platform's, whose last digit the language leaves open; they are fields of \<open>host\<close>,
  with what else the series reads from the module configuration and the clock.
\<close>

record host =
  host_log10 :: "f64 \<Rightarrow> f64"
  host_powi :: "f64 \<Rightarrow> int \<Rightarrow> f64"
  host_duplicate_policy :: duplicate_policy
  host_retention_period :: nat
  host_now :: timestamp
  host_strict_compat :: bool

text \<open>\<open>f64::round\<close>: to the nearest integer, halves away from zero.\<close>

definition f64_round :: "f64 \<Rightarrow> f64" where
  "f64_round x =
     (if \<not> is_finite x \<or> \<not> f64_has_fract x then x
      else
        let k = nat (- f64_exp2 x) in
        f64_round_pack (f64_sign x)
          (if 2 ^ (k - 1) \<le> f64_sig x mod 2 ^ k then f64_int_part x + 1 else f64_int_part x) 0)"

definition MAX_SIGNIFICANT_DIGITS :: nat where
  "MAX_SIGNIFICANT_DIGITS = 16"

definition MAX_DECIMAL_DIGITS :: nat where
  "MAX_DECIMAL_DIGITS = 16"

datatype rounding_strategy = SignificantDigits nat | DecimalDigits nat

text \<open>10.0 as an \<open>f64\<close>.\<close>

definition f64_ten :: f64 where
  "f64_ten = 0x4024000000000000"

definition round_to_decimal_digits :: "host \<Rightarrow> f64 \<Rightarrow> nat \<Rightarrow> f64" where
  "round_to_decimal_digits h v digits =
     (if digits = 0 then f64_round v
      else
        let digits1 = min (max digits 1) MAX_DECIMAL_DIGITS; factor = host_powi h f64_ten (int digits1)
        in f64_div (f64_round (f64_mul v factor)) factor)"

definition round_to_sig_figs :: "host \<Rightarrow> f64 \<Rightarrow> nat \<Rightarrow> f64" where
  "round_to_sig_figs h v digits =
     (if digits = 0 \<or> MAX_SIGNIFICANT_DIGITS \<le> digits \<or> is_nan v \<or> is_infinite v \<or> f64_eq v 0 then v
      else
        let magnitude = host_powi h f64_ten (int digits - 1 - f64_as_i32 (f64_floor (host_log10 h (f64_abs v))))
        in f64_div (f64_round (f64_mul v magnitude)) magnitude)"

fun rounding_round :: "host \<Rightarrow> rounding_strategy \<Rightarrow> f64 \<Rightarrow> f64" where
  "rounding_round h (SignificantDigits digits) v = round_to_sig_figs h v digits"
| "rounding_round h (DecimalDigits digits) v = round_to_decimal_digits h v digits"

section \<open>Where rounding changes nothing\<close>

lemma round_nonfinite: "\<not> is_finite v \<Longrightarrow> f64_round v = v"
  by (simp add: f64_round_def)

lemma sig_figs_identity:
  "digits = 0 \<or> 16 \<le> digits \<or> \<not> is_finite v \<or> f64_magnitude v = 0 \<Longrightarrow> round_to_sig_figs h v digits = v"
  by (auto simp: round_to_sig_figs_def MAX_SIGNIFICANT_DIGITS_def is_nan_def is_infinite_def is_finite_def f64_eq_def f64_key_def)

end
