(* ===== verification/Sample_Merge.thy ===== *)
theory Sample_Merge
  imports Types
begin

text \<open>
  \<open>src/iterators/sample_merge_iterator.rs\<close> and \<open>src/series/chunks/merge.rs\<close>: merging two ordered
  sample streams under a duplicate policy, with the outcome of each incoming sample. An
  iterator over samples is the list of the samples it still has to yield.
\<close>

section \<open>Definitions\<close>

text \<open>\<open>next_internal\<close>: the next sample, whether it blocked its duplicate, and the iterators after it.\<close>

fun next_internal ::
  "duplicate_policy \<Rightarrow> sample list \<Rightarrow> sample list \<Rightarrow> ((sample \<times> bool) \<times> sample list \<times> sample list) option" where
  "next_internal p (a # l) (b # r) =
     (if timestamp a = timestamp b then
        (case duplicate_value p (timestamp a) (val a) (val b) of
           Inr v \<Rightarrow> Some ((sample_new (timestamp a) v, False), l, r)
         | Inl _ \<Rightarrow> Some ((a, True), l, r))
      else if sample_less a b then Some ((a, False), l, b # r)
      else Some ((b, False), a # l, r))"
| "next_internal p (a # l) [] = Some ((a, False), l, [])"
| "next_internal p [] (b # r) = Some ((b, False), [], r)"
| "next_internal p [] [] = None"

lemma next_internal_decreases:
  "next_internal p l r = Some (x, l', r') \<Longrightarrow> length l' + length r' < length l + length r"
  by (induction p l r rule: next_internal.induct) (auto split: if_splits sum.splits)

text \<open>The whole run of the iterator.\<close>

function merge_stream :: "duplicate_policy \<Rightarrow> sample list \<Rightarrow> sample list \<Rightarrow> (sample \<times> bool) list" where
  "merge_stream p l r =
     (case next_internal p l r of None \<Rightarrow> [] | Some (x, l', r') \<Rightarrow> x # merge_stream p l' r')"
  by pat_completeness auto
termination
  by (relation "measure (\<lambda>(p, l, r). length l + length r)") (auto simp: next_internal_decreases)

declare merge_stream.simps [simp del]

text \<open>\<open>Iterator::next\<close>, which passes over the blocked ones.\<close>

definition merge_iter :: "duplicate_policy \<Rightarrow> sample list \<Rightarrow> sample list \<Rightarrow> sample list" where
  "merge_iter p l r = map fst (filter (\<lambda>(s, blocked). \<not> blocked) (merge_stream p l r))"

text \<open>\<open>merge_samples\<close> feeds every step to a fallible function on a state.\<close>

definition merge_samples_with ::
  "sample list \<Rightarrow> sample list \<Rightarrow> duplicate_policy option \<Rightarrow> 's \<Rightarrow> ('s \<Rightarrow> sample \<Rightarrow> bool \<Rightarrow> 's tsdb_result)
   \<Rightarrow> 's tsdb_result" where
  "merge_samples_with l r dp state f =
     (let p = (case dp of None \<Rightarrow> KeepLast | Some q \<Rightarrow> q) in
      foldR (\<lambda>(s, blocked) st. f st s blocked) (merge_stream p l r) state)"

text \<open>
  \<open>merge_chunk_samples\<close>: \<open>app\<close> (the closure \<open>append\<close>) writes one sample into the chunk being rebuilt. Each input
  timestamp is answered once, by the first merged sample that has it.
\<close>

fun merge_chunk_loop ::
  "(sample \<Rightarrow> 's \<Rightarrow> 's tsdb_result) \<Rightarrow> (sample \<times> bool) list \<Rightarrow> timestamp set \<Rightarrow> sample_add_result list \<Rightarrow> 's
   \<Rightarrow> (sample_add_result list \<times> 's) tsdb_result" where
  "merge_chunk_loop app [] sample_set results st = Inr (results, st)"
| "merge_chunk_loop app ((s, blocked) # steps) sample_set results st =
     bindR (app s st) (\<lambda>st1.
       if timestamp s \<in> sample_set then
         merge_chunk_loop app steps (sample_set - {timestamp s})
           (results @ [if blocked then AddDuplicate else AddOk s]) st1
       else merge_chunk_loop app steps sample_set results st1)"

definition merge_chunk_samples ::
  "sample list \<Rightarrow> sample list \<Rightarrow> duplicate_policy option \<Rightarrow> (sample \<Rightarrow> 's \<Rightarrow> 's tsdb_result) \<Rightarrow> 's
   \<Rightarrow> (sample_add_result list \<times> 's) tsdb_result" where
  "merge_chunk_samples existing samples dp app st =
     (let p = (case dp of None \<Rightarrow> KeepLast | Some q \<Rightarrow> q) in
      merge_chunk_loop app (merge_stream p existing samples) (timestamp ` set samples) [] st)"

definition CANNOT_ADD_SAMPLE :: string where
  "CANNOT_ADD_SAMPLE = ''TSDB: could not add sample''"

text \<open>
  \<open>append_samples\<close>, generic in \<open>ChunkOps::add_sample\<close>. It returns the chunk also when it fails:
  the samples before the failure stay in it.
\<close>

fun append_samples_loop ::
  "(sample \<Rightarrow> 'c \<Rightarrow> 'c tsdb_result) \<Rightarrow> sample list \<Rightarrow> sample_add_result list \<Rightarrow> 'c
   \<Rightarrow> sample_add_result list tsdb_result \<times> 'c" where
  "append_samples_loop add_sample [] results c = (Inr results, c)"
| "append_samples_loop add_sample (s # ss) results c =
     (case add_sample s c of
        Inr c1 \<Rightarrow> append_samples_loop add_sample ss (results @ [AddOk s]) c1
      | Inl (CapacityFull cap) \<Rightarrow> (Inl (CapacityFull cap), c)
      | Inl e \<Rightarrow> append_samples_loop add_sample ss (results @ [AddError CANNOT_ADD_SAMPLE]) c)"

definition append_samples ::
  "(sample \<Rightarrow> 'c \<Rightarrow> 'c tsdb_result) \<Rightarrow> 'c \<Rightarrow> sample list \<Rightarrow> sample_add_result list tsdb_result \<times> 'c" where
  "append_samples add_sample c samples = append_samples_loop add_sample samples [] c"

section \<open>The merge is the merge of the maps\<close>

definition merge_value :: "duplicate_policy \<Rightarrow> timestamp \<Rightarrow> f64 \<Rightarrow> f64 \<Rightarrow> f64" where
  "merge_value p t a b = (case duplicate_value p t a b of Inr v \<Rightarrow> v | Inl _ \<Rightarrow> a)"

definition merge_maps ::
  "duplicate_policy \<Rightarrow> (timestamp \<rightharpoonup> f64) \<Rightarrow> (timestamp \<rightharpoonup> f64) \<Rightarrow> (timestamp \<rightharpoonup> f64)" where
  "merge_maps p m n t =
     (case (m t, n t) of (Some a, Some b) \<Rightarrow> Some (merge_value p t a b) | (None, y) \<Rightarrow> y | (x, None) \<Rightarrow> x)"

text \<open>The outcome the caller sees for one incoming sample.\<close>

definition merge_outcome :: "duplicate_policy \<Rightarrow> (timestamp \<rightharpoonup> f64) \<Rightarrow> sample \<Rightarrow> sample_add_result" where
  "merge_outcome p m s =
     (case m (timestamp s) of None \<Rightarrow> AddOk s
      | Some a \<Rightarrow> (case duplicate_value p (timestamp s) a (val s) of
          Inr v \<Rightarrow> AddOk (sample_new (timestamp s) v) | Inl _ \<Rightarrow> AddDuplicate))"

lemma merge_stream_simps:
  "merge_stream p [] [] = []"
  "merge_stream p (a # l) [] = (a, False) # merge_stream p l []"
  "merge_stream p [] (b # r) = (b, False) # merge_stream p [] r"
  "timestamp a = timestamp b \<Longrightarrow> merge_stream p (a # l) (b # r) =
     (case duplicate_value p (timestamp a) (val a) (val b) of
        Inr v \<Rightarrow> (sample_new (timestamp a) v, False) | Inl _ \<Rightarrow> (a, True)) # merge_stream p l r"
  "timestamp a < timestamp b \<Longrightarrow> merge_stream p (a # l) (b # r) = (a, False) # merge_stream p l (b # r)"
  "timestamp b < timestamp a \<Longrightarrow> merge_stream p (a # l) (b # r) = (b, False) # merge_stream p (a # l) r"
  by (subst merge_stream.simps, simp add: sample_less_timestamp split: sum.split)+

lemma merge_stream_induct [case_names Nil Left Right Both Less Greater]:
  fixes l r :: "sample list"
  assumes "P [] []" "\<And>a l. P l [] \<Longrightarrow> P (a # l) []" "\<And>b r. P [] r \<Longrightarrow> P [] (b # r)"
    "\<And>a l b r. timestamp a = timestamp b \<Longrightarrow> P l r \<Longrightarrow> P (a # l) (b # r)"
    "\<And>a l b r. timestamp a < timestamp b \<Longrightarrow> P l (b # r) \<Longrightarrow> P (a # l) (b # r)"
    "\<And>a l b r. timestamp b < timestamp a \<Longrightarrow> P (a # l) r \<Longrightarrow> P (a # l) (b # r)"
  shows "P l r"
proof (induction "length l + length r" arbitrary: l r rule: less_induct)
  case less
  show ?case
  proof (cases l; cases r)
    fix a l' b r' assume lr: "l = a # l'" "r = b # r'"
    then show ?thesis using less assms(4) [of a b l' r'] assms(5) [of a b l' r'] assms(6) [of b a l' r']
      by (cases "timestamp a" "timestamp b" rule: linorder_cases) auto
  qed (use less assms(1-3) in auto)
qed

lemma merge_stream_timestamps:
  "timestamp ` fst ` set (merge_stream p l r) = timestamp ` set l \<union> timestamp ` set r"
  by (induction l r rule: merge_stream_induct) (auto simp: merge_stream_simps split: sum.splits)

lemma merge_stream_above:
  assumes "\<forall>s\<in>set l \<union> set r. t < timestamp s" "x \<in> set (merge_stream p l r)"
  shows "t < timestamp (fst x)"
proof -
  have "timestamp (fst x) \<in> timestamp ` set l \<union> timestamp ` set r"
    using assms(2) merge_stream_timestamps [of p l r] by blast
  then show ?thesis using assms(1) by auto
qed

lemma merge_stream_sorted:
  "tsorted l \<Longrightarrow> tsorted r \<Longrightarrow> tsorted (map fst (merge_stream p l r))"
proof (induction l r rule: merge_stream_induct)
  case (Both a l b r)
  then show ?case
    by (auto simp: merge_stream_simps split: sum.split intro!: merge_stream_above [of l r _ _ p])
next
  case (Less a l b r)
  then have "\<forall>s\<in>set l \<union> set (b # r). timestamp a < timestamp s" by fastforce
  then show ?case using Less
    by (auto simp: merge_stream_simps intro!: merge_stream_above [of l "b # r" _ _ p])
next
  case (Greater a l b r)
  then have "\<forall>s\<in>set (a # l) \<union> set r. timestamp b < timestamp s" by fastforce
  then show ?case using Greater
    by (auto simp: merge_stream_simps intro!: merge_stream_above [of "a # l" r _ _ p])
next
  case (Left a l)
  then show ?case
    by (auto simp: merge_stream_simps intro!: merge_stream_above [of l "[]" _ _ p])
next
  case (Right b r)
  then show ?case
    by (auto simp: merge_stream_simps intro!: merge_stream_above [of "[]" r _ _ p])
qed (simp add: merge_stream_simps)

lemma merge_maps_empty [simp]: "merge_maps p m Map.empty = m" "merge_maps p Map.empty m = m"
  by (auto simp: merge_maps_def fun_eq_iff split: option.split)

lemma merge_maps_upd_left:
  "n t = None \<Longrightarrow> merge_maps p (m(t \<mapsto> a)) n = (merge_maps p m n)(t \<mapsto> a)"
  by (auto simp: merge_maps_def fun_eq_iff split: option.split)

lemma merge_maps_upd_right:
  "m t = None \<Longrightarrow> merge_maps p m (n(t \<mapsto> b)) = (merge_maps p m n)(t \<mapsto> b)"
  by (auto simp: merge_maps_def fun_eq_iff split: option.split)

lemma merge_maps_upd_both:
  "merge_maps p (m(t \<mapsto> a)) (n(t \<mapsto> b)) = (merge_maps p m n)(t \<mapsto> merge_value p t a b)"
  by (auto simp: merge_maps_def fun_eq_iff)

lemma smap_above_None: "\<forall>s\<in>set xs. t < timestamp s \<Longrightarrow> smap xs t = None"
  by (auto simp: smap_None_iff)

theorem merge_stream_smap:
  "tsorted l \<Longrightarrow> tsorted r \<Longrightarrow> smap (map fst (merge_stream p l r)) = merge_maps p (smap l) (smap r)"
proof (induction l r rule: merge_stream_induct)
  case (Both a l b r)
  have "smap (map fst (merge_stream p (a # l) (b # r))) =
      (smap (map fst (merge_stream p l r)))(timestamp a \<mapsto> merge_value p (timestamp a) (val a) (val b))"
    unfolding merge_stream_simps(4) [OF Both.hyps(1)] merge_value_def
    by (cases "duplicate_value p (timestamp a) (val a) (val b)") simp_all
  moreover have "merge_maps p (smap (a # l)) (smap (b # r)) =
      (merge_maps p (smap l) (smap r))(timestamp a \<mapsto> merge_value p (timestamp a) (val a) (val b))"
    unfolding smap_simps Both.hyps(1) by (rule merge_maps_upd_both)
  moreover have "smap (map fst (merge_stream p l r)) = merge_maps p (smap l) (smap r)" using Both by simp
  ultimately show ?case by (simp only:)
next
  case (Less a l b r)
  have "smap (b # r) (timestamp a) = None" using Less by (intro smap_above_None) auto
  then have "merge_maps p (smap (a # l)) (smap (b # r)) =
      (merge_maps p (smap l) (smap (b # r)))(timestamp a \<mapsto> val a)"
    unfolding smap_simps(2) [of a] by (rule merge_maps_upd_left)
  then show ?case using Less by (simp add: merge_stream_simps del: fun_upd_apply)
next
  case (Greater a l b r)
  have "smap (a # l) (timestamp b) = None" using Greater by (intro smap_above_None) auto
  then have "merge_maps p (smap (a # l)) (smap (b # r)) =
      (merge_maps p (smap (a # l)) (smap r))(timestamp b \<mapsto> val b)"
    unfolding smap_simps(2) [of b] by (rule merge_maps_upd_right)
  then show ?case using Greater by (simp add: merge_stream_simps del: fun_upd_apply)
qed (simp_all add: merge_stream_simps del: fun_upd_apply)

text \<open>The results: one for each incoming sample, in order.\<close>

lemma merge_outcome_upd:
  "timestamp s \<noteq> t \<Longrightarrow> merge_outcome p (m(t \<mapsto> v)) s = merge_outcome p m s"
  by (simp add: merge_outcome_def)

lemma merge_outcome_upd_map:
  "\<forall>s\<in>set r. t < timestamp s \<Longrightarrow> map (merge_outcome p (m(t \<mapsto> v))) r = map (merge_outcome p m) r"
  by (auto simp: merge_outcome_upd)

lemma map_ok_bindR: "map_ok f (bindR m g) = bindR m (\<lambda>x. map_ok f (g x))"
  by (cases m) simp_all

lemma merge_chunk_loop_step:
  "merge_chunk_loop app ((s, blocked) # steps) T rs st =
     bindR (app s st) (merge_chunk_loop app steps (T - {timestamp s})
       (if timestamp s \<in> T then rs @ [if blocked then AddDuplicate else AddOk s] else rs))"
  by (auto intro!: bindR_cong)

declare merge_chunk_loop.simps(2) [simp del]

lemma merge_chunk_loop_spec:
  assumes "tsorted l" "tsorted r"
  shows "merge_chunk_loop app (merge_stream p l r) (timestamp ` set r) rs st =
     map_ok (\<lambda>st'. (rs @ map (merge_outcome p (smap l)) r, st')) (foldR app (map fst (merge_stream p l r)) st)"
  using assms
proof (induction l r arbitrary: rs st rule: merge_stream_induct)
  case (Both a l b r)
  let ?t = "timestamp b"
  have T: "timestamp ` set (b # r) - {?t} = timestamp ` set r" using Both.prems by auto
  obtain s blocked where s: "merge_stream p (a # l) (b # r) = (s, blocked) # merge_stream p l r"
    "timestamp s = ?t" "(if blocked then AddDuplicate else AddOk s) = merge_outcome p (smap (a # l)) b"
    using Both.hyps
    by (cases "duplicate_value p (timestamp b) (val a) (val b)") (auto simp: merge_stream_simps merge_outcome_def)
  have m: "map (merge_outcome p (smap (a # l))) r = map (merge_outcome p (smap l)) r"
    using Both.hyps Both.prems unfolding smap_simps by (intro merge_outcome_upd_map) auto
  show ?case
    using Both.IH Both.prems unfolding s(1) merge_chunk_loop_step s(2) T
    by (auto simp: map_ok_bindR s(3) m simp del: smap_simps intro!: bindR_cong)
next
  case (Less a l b r)
  have T: "timestamp a \<notin> timestamp ` set (b # r)" using Less.hyps Less.prems by fastforce
  have m: "map (merge_outcome p (smap (a # l))) (b # r) = map (merge_outcome p (smap l)) (b # r)"
    using Less.hyps Less.prems unfolding smap_simps by (intro merge_outcome_upd_map) fastforce
  show ?case
    using Less.IH Less.prems T unfolding merge_stream_simps(5) [OF Less.hyps(1)] merge_chunk_loop_step m
    by (auto simp: map_ok_bindR simp del: smap_simps intro!: bindR_cong)
next
  case (Greater a l b r)
  have T: "timestamp ` set (b # r) - {timestamp b} = timestamp ` set r" using Greater.prems by auto
  have "smap (a # l) (timestamp b) = None" using Greater by (intro smap_above_None) auto
  then have "merge_outcome p (smap (a # l)) b = AddOk b" by (simp add: merge_outcome_def del: smap_simps)
  then show ?case
    using Greater.IH Greater.prems unfolding merge_stream_simps(6) [OF Greater.hyps(1)] merge_chunk_loop_step T
    by (auto simp: map_ok_bindR simp del: smap_simps intro!: bindR_cong)
next
  case (Left a l)
  then show ?case by (auto simp: merge_stream_simps merge_chunk_loop_step map_ok_bindR intro!: bindR_cong)
next
  case (Right b r)
  have T: "timestamp ` set (b # r) - {timestamp b} = timestamp ` set r" using Right.prems by auto
  show ?case
    using Right unfolding merge_stream_simps merge_chunk_loop_step T
    by (auto simp: map_ok_bindR merge_outcome_def intro!: bindR_cong)
qed (simp add: merge_stream_simps)

theorem merge_chunk_samples_spec:
  assumes "tsorted existing" "tsorted samples" "p = (case dp of None \<Rightarrow> KeepLast | Some q \<Rightarrow> q)"
  shows "merge_chunk_samples existing samples dp app st =
     map_ok (\<lambda>st'. (map (merge_outcome p (smap existing)) samples, st'))
       (foldR app (map fst (merge_stream p existing samples)) st)"
  unfolding merge_chunk_samples_def Let_def assms(3) [symmetric]
  using merge_chunk_loop_spec [OF assms(1,2), of app p "[]" st] by simp

end
