(* ===== verification/Chunk_Spec.thy ===== *)
theory Chunk_Spec
  imports Sample_Merge
begin

text \<open>
  \<open>src/series/chunks/chunk.rs\<close>: the encodings, the chunk size limits, and the contract of the
  traits \<open>ChunkOps\<close> and \<open>Chunk\<close> as the locale \<open>chunk_contract\<close>. A chunk stands for an ordered
  sample list; every operation is specified on that list, or on its map from timestamps to
  values. Each encoding and the enum over them interprets the locale.
\<close>

section \<open>Encodings and sizes\<close>

datatype chunk_encoding = EncUncompressed | EncGorilla | EncChimp

fun encoding_name :: "chunk_encoding \<Rightarrow> string" where
  "encoding_name EncUncompressed = ''uncompressed''"
| "encoding_name EncGorilla = ''gorilla''"
| "encoding_name EncChimp = ''chimp''"

text \<open>The discriminants and \<open>TryFrom<u8>\<close>.\<close>

fun encoding_as_u8 :: "chunk_encoding \<Rightarrow> u8" where
  "encoding_as_u8 EncUncompressed = 1"
| "encoding_as_u8 EncGorilla = 2"
| "encoding_as_u8 EncChimp = 3"

definition INVALID_CHUNK_ENCODING :: string where
  "INVALID_CHUNK_ENCODING = ''TSDB: unknown ENCODING parameter''"

definition encoding_from_u8 :: "u8 \<Rightarrow> string + chunk_encoding" where
  "encoding_from_u8 b =
     (if b = 1 then Inr EncUncompressed else if b = 2 then Inr EncGorilla
      else if b = 3 then Inr EncChimp else Inl INVALID_CHUNK_ENCODING)"

definition encoding_is_compressed :: "chunk_encoding \<Rightarrow> bool" where
  "encoding_is_compressed e \<longleftrightarrow> e \<noteq> EncUncompressed"

definition MIN_CHUNK_SIZE :: nat where
  "MIN_CHUNK_SIZE = 48"

definition MAX_CHUNK_SIZE :: nat where
  "MAX_CHUNK_SIZE = 1048576"

definition MIN_SAMPLES_FOR_BPS_ESTIMATE :: nat where
  "MIN_SAMPLES_FOR_BPS_ESTIMATE = 16"

definition chunk_size_error :: tsdb_error where
  "chunk_size_error = InvalidConfiguration ''TSDB: CHUNK_SIZE value must be a multiple of 8 in the range [48 .. 1048576]''"

definition validate_chunk_size :: "nat \<Rightarrow> unit tsdb_result" where
  "validate_chunk_size sz =
     (if \<not> (MIN_CHUNK_SIZE \<le> sz \<and> sz \<le> MAX_CHUNK_SIZE) then Inl chunk_size_error
      else if sz mod 8 \<noteq> 0 then Inl chunk_size_error
      else Inr ())"

lemma encoding_u8_round_trip [simp]: "encoding_from_u8 (encoding_as_u8 e) = Inr e"
  by (cases e) (simp_all add: encoding_from_u8_def)

lemma validate_chunk_size_ok:
  "validate_chunk_size sz = Inr () \<longleftrightarrow> 48 \<le> sz \<and> sz \<le> 1048576 \<and> 8 dvd sz"
  by (auto simp: validate_chunk_size_def MIN_CHUNK_SIZE_def MAX_CHUNK_SIZE_def mod_eq_0_iff_dvd)

section \<open>The contract\<close>

text \<open>Timestamps are non-negative \<open>i64\<close> milliseconds: every command parser rejects the others.\<close>

definition valid_ts :: "timestamp \<Rightarrow> bool" where
  "valid_ts t \<longleftrightarrow> 0 \<le> t \<and> t \<le> i64_max"

definition valid_samples :: "sample list \<Rightarrow> bool" where
  "valid_samples xs \<longleftrightarrow> tsorted xs \<and> (\<forall>s\<in>set xs. valid_ts (timestamp s))"

definition in_range :: "timestamp \<Rightarrow> timestamp \<Rightarrow> sample \<Rightarrow> bool" where
  "in_range a b s \<longleftrightarrow> a \<le> timestamp s \<and> timestamp s \<le> b"

text \<open>The sample list after one upsert, and the error the duplicate policy may give instead.\<close>

fun list_insert :: "duplicate_policy \<Rightarrow> sample \<Rightarrow> sample list \<Rightarrow> sample list tsdb_result" where
  "list_insert p s [] = Inr [s]"
| "list_insert p s (x # xs) =
     (if timestamp s < timestamp x then Inr (s # x # xs)
      else if timestamp s = timestamp x then
        map_ok (\<lambda>v. x\<lparr>val := v\<rparr> # xs) (duplicate_value p (timestamp s) (val x) (val s))
      else map_ok ((#) x) (list_insert p s xs))"

definition list_merge :: "duplicate_policy \<Rightarrow> sample list \<Rightarrow> sample list \<Rightarrow> sample list" where
  "list_merge p xs ys = map fst (merge_stream p xs ys)"

text \<open>Two outcomes agree when the caller cannot tell them apart but for the stored value.\<close>

fun same_outcome :: "sample_add_result \<Rightarrow> sample_add_result \<Rightarrow> bool" where
  "same_outcome (AddOk a) (AddOk b) \<longleftrightarrow> timestamp a = timestamp b"
| "same_outcome r r' \<longleftrightarrow> r = r'"

section \<open>Lemmas on the specification\<close>

lemma valid_ts_is_i64 [simp]: "valid_ts t \<Longrightarrow> is_i64 t"
  by (simp add: valid_ts_def is_i64_def i64_min_def)

lemma valid_samples_simps [simp]:
  "valid_samples []"
  "valid_samples (x # xs) \<longleftrightarrow> valid_ts (timestamp x) \<and> (\<forall>y\<in>set xs. timestamp x < timestamp y) \<and> valid_samples xs"
  by (auto simp: valid_samples_def)

lemma valid_samples_append:
  "valid_samples (xs @ ys) \<longleftrightarrow> valid_samples xs \<and> valid_samples ys \<and> (\<forall>x\<in>set xs. \<forall>y\<in>set ys. timestamp x < timestamp y)"
  by (auto simp: valid_samples_def ksorted_append)

lemma valid_samples_snoc:
  assumes "valid_samples xs" "valid_ts (timestamp s)" "xs \<noteq> [] \<Longrightarrow> timestamp (last xs) < timestamp s"
  shows "valid_samples (xs @ [s])"
proof -
  have "timestamp x < timestamp s" if x: "x \<in> set xs" for x
  proof -
    have "xs \<noteq> []" using x by auto
    moreover have "timestamp x \<le> timestamp (last xs)"
      using ksorted_last [of timestamp xs x] x assms(1) by (simp add: valid_samples_def)
    ultimately show ?thesis using assms(3) by simp
  qed
  then show ?thesis using assms by (simp add: valid_samples_append)
qed

lemma valid_samples_filter: "valid_samples xs \<Longrightarrow> valid_samples (filter P xs)"
  by (auto simp: valid_samples_def ksorted_filter)

lemma valid_samples_tsorted [simp]: "valid_samples xs \<Longrightarrow> tsorted xs"
  by (simp add: valid_samples_def)

lemma sample_upd: "x\<lparr>val := v\<rparr> = sample_new (timestamp x) v" for x :: sample
  by (simp add: sample_new_def)

lemma list_insert_cases:
  assumes "tsorted xs"
  shows "list_insert p s xs =
    (case smap xs (timestamp s) of
       None \<Rightarrow> Inr (filter (\<lambda>x. timestamp x < timestamp s) xs @ s # filter (\<lambda>x. timestamp s < timestamp x) xs)
     | Some old \<Rightarrow> map_ok (\<lambda>v. filter (\<lambda>x. timestamp x < timestamp s) xs @ sample_new (timestamp s) v
           # filter (\<lambda>x. timestamp s < timestamp x) xs)
         (duplicate_value p (timestamp s) old (val s)))"
  using assms
proof (induction xs)
  case (Cons x xs)
  have above: "\<forall>y\<in>set xs. timestamp x < timestamp y" and sorted: "tsorted xs" using Cons.prems by auto
  show ?case
  proof (cases "timestamp s" "timestamp x" rule: linorder_cases)
    case less
    then have "smap (x # xs) (timestamp s) = None" using above by (auto simp: smap_None_iff)
    moreover have "filter (\<lambda>y. timestamp y < timestamp s) (x # xs) = []"
      "filter (\<lambda>y. timestamp s < timestamp y) (x # xs) = x # xs"
      using above less by (auto simp: filter_empty_conv filter_id_conv)
    ultimately show ?thesis using less by (simp del: smap_simps filter.simps)
  next
    case equal
    then have "filter (\<lambda>y. timestamp y < timestamp s) (x # xs) = []"
      "filter (\<lambda>y. timestamp s < timestamp y) (x # xs) = xs"
      using above by (auto simp: filter_empty_conv filter_id_conv)
    then show ?thesis using equal by (simp add: sample_upd del: filter.simps)
  next
    case greater
    then show ?thesis using Cons.IH [OF sorted]
      by (cases "duplicate_value p (timestamp s) (the (smap xs (timestamp s))) (val s)")
        (auto split: option.split)
  qed
qed simp

lemma list_insert_error: "list_insert p s xs = Inl e \<Longrightarrow> \<exists>msg. e = DuplicateSample msg"
proof (induction xs)
  case (Cons x xs)
  then show ?case by (auto simp: map_ok_eq_Inl_iff split: if_splits dest: duplicate_value_error)
qed simp

lemma list_insert_snoc:
  "\<forall>x\<in>set xs. timestamp x < timestamp s \<Longrightarrow> list_insert p s xs = Inr (xs @ [s])"
  by (induction xs) auto

lemma list_insert_valid:
  assumes "valid_samples xs" "valid_ts (timestamp s)" "list_insert p s xs = Inr ys"
  shows "valid_samples ys"
proof -
  have "valid_samples (filter (\<lambda>x. timestamp x < timestamp s) xs @ s' # filter (\<lambda>x. timestamp s < timestamp x) xs)"
    if "timestamp s' = timestamp s" for s'
    using that assms(1,2) by (auto simp: valid_samples_append valid_samples_filter)
  then show ?thesis using assms(3) list_insert_cases [of xs p s] assms(1)
    by (auto simp: map_ok_eq_Inr_iff split: option.splits)
qed

lemma map_add_restrict_split:
  "(m |` {t'. t < t'})(t \<mapsto> v) ++ (m |` {t'. t' < t}) = m(t \<mapsto> v)" for t :: int
  by (auto simp: fun_eq_iff map_add_def restrict_map_def split: option.split)

text \<open>The insert updates the map at one timestamp, and is refused only by the duplicate policy.\<close>

lemma list_insert_smap:
  assumes "tsorted xs"
  shows "list_insert p s xs = Inr ys \<Longrightarrow>
      smap ys = (smap xs)(timestamp s \<mapsto> (case smap xs (timestamp s) of None \<Rightarrow> val s
        | Some old \<Rightarrow> projr (duplicate_value p (timestamp s) old (val s))))"
    and "list_insert p s xs = Inl e \<longleftrightarrow>
      (\<exists>old. smap xs (timestamp s) = Some old \<and> duplicate_value p (timestamp s) old (val s) = Inl e)"
proof -
  have upd: "smap (filter (\<lambda>x. timestamp x < timestamp s) xs @ s' # filter (\<lambda>x. timestamp s < timestamp x) xs)
      = (smap xs)(timestamp s \<mapsto> val s')" if "timestamp s' = timestamp s" for s'
    unfolding smap_simps smap_filter [of "\<lambda>t. t < timestamp s"] smap_filter [of "\<lambda>t. timestamp s < t"] that
    by (rule map_add_restrict_split)
  show "smap ys = (smap xs)(timestamp s \<mapsto> (case smap xs (timestamp s) of None \<Rightarrow> val s
        | Some old \<Rightarrow> projr (duplicate_value p (timestamp s) old (val s))))"
    if "list_insert p s xs = Inr ys"
    using that list_insert_cases [OF assms, of p s] upd [of s] upd [of "sample_new (timestamp s) v" for v]
    by (auto simp: map_ok_eq_Inr_iff simp del: smap_simps fun_upd_apply split: option.splits)
  show "list_insert p s xs = Inl e \<longleftrightarrow>
      (\<exists>old. smap xs (timestamp s) = Some old \<and> duplicate_value p (timestamp s) old (val s) = Inl e)"
    unfolding list_insert_cases [OF assms]
    by (cases "smap xs (timestamp s)"; cases "duplicate_value p (timestamp s) (the (smap xs (timestamp s))) (val s)") auto
qed

lemma list_insert_length:
  "tsorted xs \<Longrightarrow> list_insert p s xs = Inr ys \<Longrightarrow>
   length ys = (if timestamp s \<in> timestamp ` set xs then length xs else length xs + 1)"
proof (induction xs arbitrary: ys)
  case (Cons x xs)
  then have above: "\<forall>y\<in>set xs. timestamp x < timestamp y" by simp
  show ?case
  proof (cases "timestamp s" "timestamp x" rule: linorder_cases)
    case less
    then have "timestamp s \<notin> timestamp ` set (x # xs)" using above by fastforce
    then show ?thesis using Cons.prems less by auto
  next
    case greater
    then show ?thesis using Cons by (auto simp: map_ok_eq_Inr_iff)
  qed (use Cons.prems in \<open>auto simp: map_ok_eq_Inr_iff\<close>)
qed simp

lemma list_merge_valid: "valid_samples xs \<Longrightarrow> valid_samples ys \<Longrightarrow> valid_samples (list_merge p xs ys)"
  unfolding valid_samples_def list_merge_def
  using merge_stream_sorted [of xs ys p] merge_stream_timestamps [of p xs ys]
  by (metis (no_types, lifting) UnE imageE image_eqI list.set_map)

lemma list_merge_smap:
  "valid_samples xs \<Longrightarrow> valid_samples ys \<Longrightarrow> smap (list_merge p xs ys) = merge_maps p (smap xs) (smap ys)"
  by (simp add: list_merge_def merge_stream_smap)

lemma merge_stream_Nil_right: "merge_stream p xs [] = map (\<lambda>s. (s, False)) xs"
  by (induction xs) (simp_all add: merge_stream_simps)

lemma merge_stream_Nil_left: "merge_stream p [] ys = map (\<lambda>s. (s, False)) ys"
  by (induction ys) (simp_all add: merge_stream_simps)

lemma merge_stream_after:
  assumes "\<forall>x\<in>set xs. \<forall>y\<in>set ys. timestamp x < timestamp y"
  shows "merge_stream p xs ys = map (\<lambda>s. (s, False)) (xs @ ys)"
  using assms
proof (induction xs)
  case (Cons x xs)
  then show ?case by (cases ys) (auto simp: merge_stream_simps merge_stream_Nil_right)
qed (simp add: merge_stream_Nil_left)

lemma list_merge_after:
  "\<forall>x\<in>set xs. \<forall>y\<in>set ys. timestamp x < timestamp y \<Longrightarrow> list_merge p xs ys = xs @ ys"
  by (simp add: list_merge_def merge_stream_after comp_def)

lemma merge_outcome_after:
  assumes "\<forall>x\<in>set xs. \<forall>y\<in>set ys. timestamp x < timestamp y"
  shows "map (merge_outcome p (smap xs)) ys = map AddOk ys"
proof (rule map_cong [OF refl])
  fix y assume "y \<in> set ys"
  then have "smap xs (timestamp y) = None" using assms by (force simp: smap_None_iff)
  then show "merge_outcome p (smap xs) y = AddOk y" by (simp add: merge_outcome_def)
qed

lemma same_outcome_refl [simp]: "same_outcome r r"
  by (cases r) simp_all

lemma list_all2_same_outcome_refl [simp]: "list_all2 same_outcome rs rs"
  by (simp add: list_all2_refl)

section \<open>The traits\<close>

locale chunk_contract =
  fixes inv :: "'c \<Rightarrow> bool"
    and abs :: "'c \<Rightarrow> sample list"
    and c_len :: "'c \<Rightarrow> nat"
    and c_first :: "'c \<Rightarrow> timestamp"
    and c_last :: "'c \<Rightarrow> timestamp"
    and c_last_value :: "'c \<Rightarrow> f64"
    and c_is_full :: "'c \<Rightarrow> bool"
    and c_remove_range :: "'c \<Rightarrow> timestamp \<Rightarrow> timestamp \<Rightarrow> (nat \<times> 'c) tsdb_result"
    and c_add_sample :: "sample \<Rightarrow> 'c \<Rightarrow> 'c tsdb_result"
    and c_get_range :: "'c \<Rightarrow> timestamp \<Rightarrow> timestamp \<Rightarrow> sample list tsdb_result"
    and c_upsert_sample :: "'c \<Rightarrow> sample \<Rightarrow> duplicate_policy \<Rightarrow> (nat \<times> 'c) tsdb_result"
    and c_merge_samples :: "'c \<Rightarrow> sample list \<Rightarrow> duplicate_policy option \<Rightarrow> sample_add_result list tsdb_result \<times> 'c"
    and c_clear :: "'c \<Rightarrow> 'c"
    and c_set_data :: "'c \<Rightarrow> sample list \<Rightarrow> 'c tsdb_result"
    and c_split :: "'c \<Rightarrow> ('c \<times> 'c) tsdb_result"
  assumes valid: "inv c \<Longrightarrow> valid_samples (abs c)"
    and len: "inv c \<Longrightarrow> c_len c = length (abs c)"
    and first: "inv c \<Longrightarrow> abs c \<noteq> [] \<Longrightarrow> c_first c = timestamp (hd (abs c))"
    and last: "inv c \<Longrightarrow> abs c \<noteq> [] \<Longrightarrow> c_last c = timestamp (last (abs c))"
    and last_value: "inv c \<Longrightarrow> abs c \<noteq> [] \<Longrightarrow> c_last_value c = val (List.last (abs c))"
    and remove_range: "inv c \<Longrightarrow> \<exists>c'. c_remove_range c a b = Inr (length (filter (in_range a b) (abs c)), c') \<and>
        inv c' \<and> abs c' = filter (\<lambda>s. \<not> in_range a b s) (abs c)"
    and get_range: "inv c \<Longrightarrow> c_get_range c a b = Inr (filter (in_range a b) (abs c))"
    and add_sample: "inv c \<Longrightarrow> \<not> c_is_full c \<Longrightarrow> valid_samples (abs c @ [s]) \<Longrightarrow>
        \<exists>c'. c_add_sample s c = Inr c' \<and> inv c' \<and> abs c' = abs c @ [s]"
    and upsert_ok: "inv c \<Longrightarrow> valid_ts (timestamp s) \<Longrightarrow> abs c \<noteq> [] \<Longrightarrow>
        timestamp s \<le> timestamp (List.last (abs c)) \<or> \<not> c_is_full c \<Longrightarrow>
        list_insert p s (abs c) = Inr xs \<Longrightarrow>
        \<exists>c'. c_upsert_sample c s p = Inr (length xs, c') \<and> inv c' \<and> abs c' = xs"
    and upsert_err: "inv c \<Longrightarrow> valid_ts (timestamp s) \<Longrightarrow> abs c \<noteq> [] \<Longrightarrow>
        timestamp s \<le> timestamp (List.last (abs c)) \<or> \<not> c_is_full c \<Longrightarrow>
        list_insert p s (abs c) = Inl e \<Longrightarrow> c_upsert_sample c s p = Inl e"
    and upsert_sound: "inv c \<Longrightarrow> valid_ts (timestamp s) \<Longrightarrow> abs c \<noteq> [] \<Longrightarrow> c_upsert_sample c s p = Inr (n, c') \<Longrightarrow>
        inv c' \<and> n = length (abs c') \<and> list_insert p s (abs c) = Inr (abs c')"
    and merge: "inv c \<Longrightarrow> valid_samples ys \<Longrightarrow>
        length ys \<noteq> 1 \<or> \<not> c_is_full c \<or> abs c \<noteq> [] \<and> timestamp (hd ys) \<le> timestamp (List.last (abs c)) \<Longrightarrow>
        p = (case dp of None \<Rightarrow> KeepLast | Some q \<Rightarrow> q) \<Longrightarrow>
        \<exists>rs c'. c_merge_samples c ys dp = (Inr rs, c') \<and> inv c' \<and> abs c' = list_merge p (abs c) ys \<and>
          list_all2 same_outcome rs (map (merge_outcome p (smap (abs c))) ys)"
    and clear: "inv c \<Longrightarrow> inv (c_clear c) \<and> abs (c_clear c) = []"
    and set_data: "inv c \<Longrightarrow> valid_samples ys \<Longrightarrow> \<exists>c'. c_set_data c ys = Inr c' \<and> inv c' \<and> abs c' = ys"
    and split: "inv c \<Longrightarrow> \<exists>c' d. c_split c = Inr (c', d) \<and> inv c' \<and> inv d \<and>
        abs c' @ abs d = abs c \<and> (2 \<le> length (abs c) \<longrightarrow> abs c' \<noteq> [] \<and> abs d \<noteq> [])"

end
