(* ===== verification/Encoding.thy ===== *)
theory Encoding
  imports F64
begin

text \<open>
  \<open>src/common/encoding.rs\<close>: LEB128 varints, zig-zag, little-endian words and length-prefixed
  byte slices. A writer takes the buffer and returns the extended one; a reader takes the
  remaining bytes and returns the value with the bytes after it, or a \<open>DecodeError\<close>.
\<close>

section \<open>Definitions\<close>

datatype decode_error = Overflow | InsufficientData (requested: nat) (available: nat) | InvalidUTF8

text \<open>\<open>insufficient_data(available, requested)\<close>.\<close>

definition insufficient_data :: "nat \<Rightarrow> nat \<Rightarrow> decode_error" where
  "insufficient_data avail req = InsufficientData req avail"

function write_uvarint :: "u8 list \<Rightarrow> u64 \<Rightarrow> u8 list" where
  "write_uvarint buf v =
     (if 0x80 \<le> v then write_uvarint (buf @ [ucast v OR 0x80]) (drop_bit 7 v)
      else buf @ [ucast v])"
  by pat_completeness auto
termination
proof (relation "measure (\<lambda>(buf, v). unat v)", goal_cases)
  case (2 buf v)
  then have "128 \<le> unat v" by (simp add: word_le_nat_alt)
  then show ?case by (simp add: drop_bit_eq_div unat_div)
qed simp

declare write_uvarint.simps [simp del]

definition write_u8 :: "u8 list \<Rightarrow> u8 \<Rightarrow> u8 list" where
  "write_u8 buf v = buf @ [v]"

definition zigzag_encode :: "int \<Rightarrow> u64" where
  "zigzag_encode x = push_bit 1 (as_u64 x) XOR signed_drop_bit 63 (as_u64 x)"

definition zigzag_decode :: "u64 \<Rightarrow> int" where
  "zigzag_decode w = as_i64 (drop_bit 1 w XOR - (w AND 1))"

definition write_signed_varint :: "u8 list \<Rightarrow> int \<Rightarrow> u8 list" where
  "write_signed_varint buf x = write_uvarint buf (zigzag_encode x)"

definition write_byte_slice :: "u8 list \<Rightarrow> u8 list \<Rightarrow> u8 list" where
  "write_byte_slice buf sl =
     (let buf' = write_uvarint buf (word_of_nat (length sl)) in
      if sl = [] then buf' else buf' @ sl)"

function read_uvarint_loop :: "u8 list \<Rightarrow> u64 \<Rightarrow> nat \<Rightarrow> nat \<Rightarrow> decode_error + (u64 \<times> nat)" where
  "read_uvarint_loop buf value0 shift offset =
     (if length buf \<le> offset then Inl Overflow
      else
        let byte = buf ! offset;
            offset' = offset + 1;
            value1 = value0 OR push_bit shift (ucast (byte AND 0x7F))
        in if byte AND 0x80 = 0 then Inr (value1, offset')
           else if 63 < shift + 7 then Inl Overflow
           else read_uvarint_loop buf value1 (shift + 7) offset')"
  by pat_completeness auto
termination
  by (relation "measure (\<lambda>(buf, v, s, off). length buf - off)") auto

declare read_uvarint_loop.simps [simp del]

definition try_read_uvarint :: "u8 list \<Rightarrow> decode_error + (u64 \<times> u8 list)" where
  "try_read_uvarint buf =
     bindR (read_uvarint_loop buf 0 0 0) (\<lambda>(v, offset). Inr (v, drop offset buf))"

definition try_read_byte_slice :: "u8 list \<Rightarrow> decode_error + (u8 list \<times> u8 list)" where
  "try_read_byte_slice buf =
     bindR (try_read_uvarint buf) (\<lambda>(v, buf').
       let len = unat v in
       if length buf' < len then Inl (insufficient_data (length buf') len)
       else Inr (take len buf', drop len buf'))"

definition try_read_u8 :: "u8 list \<Rightarrow> decode_error + (u8 \<times> u8 list)" where
  "try_read_u8 buf =
     (case buf of [] \<Rightarrow> Inl (insufficient_data 0 1) | b # rest \<Rightarrow> Inr (b, rest))"

definition try_read_signed_varint :: "u8 list \<Rightarrow> decode_error + (int \<times> u8 list)" where
  "try_read_signed_varint buf = map_ok (\<lambda>(v, rest). (zigzag_decode v, rest)) (try_read_uvarint buf)"

text \<open>\<open>u64::to_le_bytes\<close>, \<open>from_le_bytes\<close> and their big-endian forms.\<close>

fun le_bytes :: "nat \<Rightarrow> u64 \<Rightarrow> u8 list" where
  "le_bytes 0 v = []"
| "le_bytes (Suc n) v = ucast v # le_bytes n (drop_bit 8 v)"

fun from_le_bytes :: "u8 list \<Rightarrow> u64" where
  "from_le_bytes [] = 0"
| "from_le_bytes (b # bs) = ucast b OR push_bit 8 (from_le_bytes bs)"

definition to_le_bytes :: "u64 \<Rightarrow> u8 list" where
  "to_le_bytes v = le_bytes 8 v"

definition to_be_bytes :: "u64 \<Rightarrow> u8 list" where
  "to_be_bytes v = rev (to_le_bytes v)"

definition from_be_bytes :: "u8 list \<Rightarrow> u64" where
  "from_be_bytes bs = from_le_bytes (rev bs)"

definition write_u64_le :: "u8 list \<Rightarrow> u64 \<Rightarrow> u8 list" where
  "write_u64_le buf v = buf @ to_le_bytes v"

definition try_read_u64_le :: "u8 list \<Rightarrow> decode_error + (u64 \<times> u8 list)" where
  "try_read_u64_le buf =
     (if length buf < 8 then Inl (insufficient_data (length buf) 8)
      else Inr (from_le_bytes (take 8 buf), drop 8 buf))"

definition write_f64_le :: "u8 list \<Rightarrow> f64 \<Rightarrow> u8 list" where
  "write_f64_le buf x = write_u64_le buf x"

definition try_read_f64_le :: "u8 list \<Rightarrow> decode_error + (f64 \<times> u8 list)" where
  "try_read_f64_le buf = try_read_u64_le buf"

text \<open>\<open>sign_extend(val, bits)\<close>, whose subtraction wraps and whose shift count is taken modulo 64.\<close>

definition sign_extend :: "u64 \<Rightarrow> nat \<Rightarrow> int" where
  "sign_extend v bits =
     (let m = push_bit (nat ((int bits - 1) mod 64)) 1 in as_i64 ((v XOR m) - m))"

section \<open>Round trips\<close>

subsection \<open>Varints\<close>

text \<open>The bytes of one varint, apart from the buffer they are appended to.\<close>

lemma unat_drop_bit_7_less: "0x80 \<le> v \<Longrightarrow> unat (drop_bit 7 v) < unat v" for v :: u64
  by (simp add: word_le_nat_alt drop_bit_eq_div unat_div)

lemma write_uvarint_append: "write_uvarint buf v = buf @ write_uvarint [] v"
proof (induction "unat v" arbitrary: buf v rule: less_induct)
  case less
  show ?case
  proof (cases "0x80 \<le> v")
    case True
    note IH = less [OF unat_drop_bit_7_less [OF True]]
    have "write_uvarint buf v = (buf @ [ucast v OR 0x80]) @ write_uvarint [] (drop_bit 7 v)"
      using True IH [of "buf @ [ucast v OR 0x80]"] by (simp only: write_uvarint.simps [of buf v] if_True)
    moreover have "write_uvarint [] v = [ucast v OR 0x80] @ write_uvarint [] (drop_bit 7 v)"
      using True IH [of "[ucast v OR 0x80]"] by (simp only: write_uvarint.simps [of "[]" v] if_True append_Nil)
    ultimately show ?thesis by simp
  next
    case False
    then show ?thesis by (simp add: write_uvarint.simps [of buf v] write_uvarint.simps [of "[]" v])
  qed
qed

text \<open>As a rewrite rule, stopped at the empty buffer.\<close>

lemma write_uvarint_normal: "NO_MATCH [] buf \<Longrightarrow> write_uvarint buf v = buf @ write_uvarint [] v"
  by (rule write_uvarint_append)

lemma write_uvarint_Nil_small: "\<not> 0x80 \<le> v \<Longrightarrow> write_uvarint [] v = [ucast v]"
  by (simp add: write_uvarint.simps [of "[]" v])

lemma write_uvarint_Nil_big:
  "0x80 \<le> v \<Longrightarrow> write_uvarint [] v = (ucast v OR 0x80) # write_uvarint [] (drop_bit 7 v)"
  using write_uvarint_append [of "[ucast v OR 0x80]" "drop_bit 7 v"]
  by (simp only: write_uvarint.simps [of "[]" v] if_True append_Nil append_Cons)

lemma write_uvarint_length: "unat v < 2 ^ (7 * Suc k) \<Longrightarrow> length (write_uvarint [] v) \<le> Suc k"
proof (induction k arbitrary: v)
  case 0
  then have "\<not> 0x80 \<le> v" by (simp add: word_le_nat_alt)
  then show ?case by (simp add: write_uvarint_Nil_small)
next
  case (Suc k)
  show ?case
  proof (cases "0x80 \<le> v")
    case True
    have "unat (drop_bit 7 v) < 2 ^ (7 * Suc k)"
      using Suc.prems by (simp add: drop_bit_eq_div unat_div less_mult_imp_div_less power_add)
    then show ?thesis using Suc.IH [of "drop_bit 7 v"] True write_uvarint_Nil_big [OF True] by simp
  qed (simp add: write_uvarint_Nil_small)
qed

lemma write_uvarint_nonempty [simp]: "write_uvarint buf v \<noteq> []"
  using write_uvarint_append [of buf v]
  by (cases "0x80 \<le> v") (simp_all add: write_uvarint_Nil_small write_uvarint_Nil_big)

text \<open>One continuation byte carries the low seven bits.\<close>

lemma bit_0x80: "bit (0x80 :: u8) n \<longleftrightarrow> n = 7"
proof -
  have "(0x80 :: u8) = 2 ^ 7" by simp
  then show ?thesis by (simp only: bit_exp_iff possible_bit_word) auto
qed

lemma bit_0x7F: "bit (0x7F :: u8) n \<longleftrightarrow> n < 7"
proof -
  have "(0x7F :: u8) = mask 7" by (simp add: mask_eq_exp_minus_1)
  then show ?thesis by (simp only: bit_mask_iff possible_bit_word) auto
qed

lemmas byte_bits = bit_0x80 bit_0x7F bit_ucast_iff bit_and_iff bit_or_iff bit_take_bit_iff

lemma continuation_byte:
  fixes v :: u64
  shows "(ucast v OR 0x80 :: u8) AND 0x80 \<noteq> 0"
    and "(ucast ((ucast v OR 0x80 :: u8) AND 0x7F) :: u64) = take_bit 7 v"
proof -
  have "bit ((ucast v OR 0x80 :: u8) AND 0x80) 7" by (simp only: byte_bits) simp
  then show "(ucast v OR 0x80 :: u8) AND 0x80 \<noteq> 0" 
    by (rule contrapos_pn) (erule ssubst, simp)
  show "(ucast ((ucast v OR 0x80 :: u8) AND 0x7F) :: u64) = take_bit 7 v"
    by (rule bit_word_eqI) (simp only: byte_bits, auto)
qed

lemma final_byte:
  fixes v :: u64
  assumes "\<not> 0x80 \<le> v"
  shows "(ucast v :: u8) AND 0x80 = 0" and "(ucast ((ucast v :: u8) AND 0x7F) :: u64) = v"
proof -
  have "unat v < 2 ^ 7" using assms by (simp add: word_le_nat_alt)
  then have b: "bit v n \<Longrightarrow> n < 7" for n by (rule bit_unat_less)
  show "(ucast v :: u8) AND 0x80 = 0"
    by (rule bit_word_eqI) (simp only: byte_bits, auto dest: b)
  show "(ucast ((ucast v :: u8) AND 0x7F) :: u64) = v"
    by (rule bit_word_eqI) (simp only: byte_bits, auto dest: b)
qed

lemma push_bit_low7_high:
  "push_bit shift (take_bit 7 v) OR push_bit (shift + 7) (drop_bit 7 v) = push_bit shift v" for v :: u64
proof (rule bit_word_eqI)
  fix n assume "n < LENGTH(64)"
  show "bit (push_bit shift (take_bit 7 v) OR push_bit (shift + 7) (drop_bit 7 v)) n = bit (push_bit shift v) n"
  proof (cases "shift + 7 \<le> n")
    case True
    then have "7 + (n - (shift + 7)) = n - shift" by simp
    then show ?thesis using True
      by (simp only: bit_or_iff bit_push_bit_iff bit_take_bit_iff bit_drop_bit_eq o_apply) auto
  next
    case False
    then show ?thesis
      by (simp only: bit_or_iff bit_push_bit_iff bit_take_bit_iff bit_drop_bit_eq o_apply) auto
  qed
qed

lemma read_uvarint_loop_last:
  "offset < length buf \<Longrightarrow> buf ! offset AND 0x80 = 0 \<Longrightarrow>
   read_uvarint_loop buf acc shift offset = Inr (acc OR push_bit shift (ucast (buf ! offset AND 0x7F)), offset + 1)"
  by (subst read_uvarint_loop.simps) (simp add: Let_def)

lemma read_uvarint_loop_more:
  "offset < length buf \<Longrightarrow> buf ! offset AND 0x80 \<noteq> 0 \<Longrightarrow> shift + 7 \<le> 63 \<Longrightarrow>
   read_uvarint_loop buf acc shift offset =
     read_uvarint_loop buf (acc OR push_bit shift (ucast (buf ! offset AND 0x7F))) (shift + 7) (offset + 1)"
  by (subst read_uvarint_loop.simps) (simp add: Let_def)

lemma read_uvarint_loop_write:
  "unat v < 2 ^ (64 - shift) \<Longrightarrow> shift \<le> 63 \<Longrightarrow>
   read_uvarint_loop (pre @ write_uvarint [] v @ rest) acc shift (length pre)
     = Inr (acc OR push_bit shift v, length pre + length (write_uvarint [] v))"
proof (induction "unat v" arbitrary: v shift acc pre rule: less_induct)
  case less
  show ?case
  proof (cases "0x80 \<le> v")
    case False
    then have "read_uvarint_loop (pre @ [ucast v] @ rest) acc shift (length pre)
      = Inr (acc OR push_bit shift v, length pre + 1)"
      by (subst read_uvarint_loop_last) (simp_all only: append_Cons append_Nil nth_append_length final_byte [OF False], simp_all)
    then show ?thesis using False by (simp add: write_uvarint_Nil_small)
  next
    case True
    let ?b = "ucast v OR 0x80 :: u8"
    let ?t = "write_uvarint [] (drop_bit 7 v)"
    have "2 ^ 7 \<le> unat v" using True by (simp add: word_le_nat_alt)
    then have "(2::nat) ^ 7 < 2 ^ (64 - shift)" using less(2) by simp
    then have sh: "7 < 64 - shift" by (rule power_less_imp_less_exp [rotated]) simp
    have lt: "unat (drop_bit 7 v) < 2 ^ (64 - (shift + 7))"
    proof -
      have "unat v < 2 ^ (64 - (shift + 7)) * 2 ^ 7"
        using less(2) sh by (simp only: power_add [symmetric]) (simp add: less_diff_conv)
      then show ?thesis by (simp add: drop_bit_eq_div unat_div less_mult_imp_div_less)
    qed
    have "read_uvarint_loop ((pre @ [?b]) @ ?t @ rest) (acc OR push_bit shift (take_bit 7 v)) (shift + 7) (length (pre @ [?b]))
      = Inr ((acc OR push_bit shift (take_bit 7 v)) OR push_bit (shift + 7) (drop_bit 7 v), length (pre @ [?b]) + length ?t)"
      by (rule less(1) [OF unat_drop_bit_7_less [OF True] lt]) (use sh in simp)
    then have rec: "read_uvarint_loop (pre @ ?b # ?t @ rest) (acc OR push_bit shift (take_bit 7 v)) (shift + 7) (length pre + 1)
      = Inr (acc OR push_bit shift v, length pre + length (?b # ?t))"
      by (simp only: or.assoc push_bit_low7_high) simp
    have "read_uvarint_loop (pre @ ?b # ?t @ rest) acc shift (length pre) =
      read_uvarint_loop (pre @ ?b # ?t @ rest) (acc OR push_bit shift (take_bit 7 v)) (shift + 7) (length pre + 1)"
      by (subst read_uvarint_loop_more)
        (use sh in \<open>simp_all only: nth_append_length continuation_byte length_append length_Cons, simp_all\<close>)
    then show ?thesis using rec by (simp only: write_uvarint_Nil_big [OF True] append_Cons)
  qed
qed

lemma try_read_write_uvarint [simp]: "try_read_uvarint (write_uvarint [] v @ rest) = Inr (v, rest)"
  using read_uvarint_loop_write [of v 0 "[]" rest 0] by (simp add: try_read_uvarint_def)

subsection \<open>Zig-zag\<close>

lemma zigzag_encode_bit:
  "n < 64 \<Longrightarrow> bit (zigzag_encode x) n \<longleftrightarrow> ((0 < n \<and> bit (as_u64 x) (n - 1)) \<noteq> bit (as_u64 x) 63)"
  unfolding zigzag_encode_def
  by (simp only: bit_xor_iff bit_push_bit_iff bit_signed_drop_bit_iff possible_bit_word) (cases n; simp)

lemma zigzag_sign_mask: "- (w AND 1) = (if bit w 0 then - 1 else 0)" for w :: u64
  by (simp add: and_one_eq odd_iff_mod_2_eq_one bit_0)

lemma zigzag_decode_encode [simp]: "is_i64 x \<Longrightarrow> zigzag_decode (zigzag_encode x) = x"
proof -
  assume x: "is_i64 x"
  have "drop_bit 1 (zigzag_encode x) XOR - (zigzag_encode x AND 1) = as_u64 x"
  proof (rule bit_word_eqI)
    fix n assume n: "n < LENGTH(64)"
    show "bit (drop_bit 1 (zigzag_encode x) XOR - (zigzag_encode x AND 1)) n = bit (as_u64 x) n"
    proof (cases "n = 63")
      case True
      then show ?thesis
        using zigzag_encode_bit [of 0 x] bit_imp_le_length [of "zigzag_encode x" 64]
        by (auto simp: zigzag_sign_mask bit_xor_iff bit_drop_bit_eq bit_minus_1_iff)
    next
      case False
      then show ?thesis using n zigzag_encode_bit [of "n + 1" x] zigzag_encode_bit [of 0 x]
        by (auto simp: zigzag_sign_mask bit_xor_iff bit_drop_bit_eq bit_minus_1_iff add.commute)
    qed
  qed
  then show ?thesis using x by (simp add: zigzag_decode_def as_i64_as_u64)
qed

lemma try_read_write_signed_varint [simp]:
  "is_i64 x \<Longrightarrow> try_read_signed_varint (write_signed_varint [] x @ rest) = Inr (x, rest)"
  by (simp add: try_read_signed_varint_def write_signed_varint_def)

subsection \<open>Fixed-width words and byte slices\<close>

lemma from_le_bytes_le_bytes: "from_le_bytes (le_bytes n v) = take_bit (8 * n) v"
proof (induction n arbitrary: v)
  case (Suc n)
  have "ucast (ucast v :: u8) OR push_bit 8 (take_bit (8 * n) (drop_bit 8 v)) = take_bit (8 * Suc n) v"
    by (rule bit_word_eqI)
      (auto simp: bit_or_iff bit_ucast_iff bit_push_bit_iff bit_take_bit_iff bit_drop_bit_eq)
  then show ?case using Suc [of "drop_bit 8 v"] by simp
qed simp

lemma length_le_bytes [simp]: "length (le_bytes n v) = n"
  by (induction n arbitrary: v) auto

lemma length_to_le_bytes [simp]: "length (to_le_bytes v) = 8"
  by (simp only: to_le_bytes_def length_le_bytes)

lemma length_to_be_bytes [simp]: "length (to_be_bytes v) = 8"
  by (simp add: to_be_bytes_def)

lemma from_to_le_bytes [simp]: "from_le_bytes (to_le_bytes v) = v"
  by (simp only: to_le_bytes_def from_le_bytes_le_bytes) simp

lemma from_to_be_bytes [simp]: "from_be_bytes (to_be_bytes v) = v"
  by (simp add: from_be_bytes_def to_be_bytes_def)

lemma try_read_write_u64_le [simp]: "try_read_u64_le (to_le_bytes v @ rest) = Inr (v, rest)"
  by (simp add: try_read_u64_le_def)

lemma try_read_write_byte_slice:
  "length s < 2 ^ 64 \<Longrightarrow> try_read_byte_slice (write_byte_slice [] s @ rest) = Inr (s, rest)"
  by (cases "s = []")
    (simp_all add: try_read_byte_slice_def write_byte_slice_def Let_def unat_word_of_nat_64)

subsection \<open>Sign extension\<close>

lemma sign_extend_take_bit:
  assumes "0 < n" "n < 64" "- (2 ^ (n - 1)) \<le> x" "x < 2 ^ (n - 1)"
  shows "sign_extend (take_bit n (as_u64 x)) n = x"
proof -
  let ?v = "take_bit n (as_u64 x)"
  have m: "nat ((int n - 1) mod 64) = n - 1" using assms(1,2) by (simp add: nat_diff_distrib)
  have self: "signed_take_bit (n - 1) x = x"
    using assms(3,4) by (simp add: signed_take_bit_int_eq_self)
  have n: "Suc (n - 1) = n" using assms(1) by simp
  have bit: "bit ?v (n - 1) = bit x (n - 1)"
    using assms(1,2) by (auto simp add: bit_take_bit_iff as_u64_def bit_word_of_int_iff)
  have v: "?v = word_of_int (take_bit n x)"
    using assms(2) by (intro bit_word_eqI) (auto simp: as_u64_def bit_take_bit_iff bit_word_of_int_iff)
  have "(?v XOR push_bit (n - 1) 1) - push_bit (n - 1) 1 = (if bit ?v (n - 1) then ?v - 2 ^ n else ?v)"
    using n unfolding flip_bit_def [symmetric] flip_bit_eq_if set_bit_eq unset_bit_eq
    by (simp add: push_bit_eq_mult flip: power_Suc)
  also have "\<dots> = word_of_int (take_bit n x - 2 ^ n * of_bool (bit x (n - 1)))"
    unfolding bit by (simp add: v)
  also have "\<dots> = as_u64 x"
    using signed_take_bit_eq_take_bit_minus [of "n - 1" x] self n by (simp add: as_u64_def)
  finally have "(?v XOR push_bit (n - 1) 1) - push_bit (n - 1) 1 = as_u64 x" .
  moreover have "is_i64 x"
  proof -
    have "(2::int) ^ (n - 1) \<le> 2 ^ 62" using assms(2) by (intro power_increasing) auto
    then show ?thesis using assms(3,4) by (simp add: is_i64_def i64_min_def i64_max_def)
  qed
  ultimately show ?thesis using m by (simp add: sign_extend_def as_i64_as_u64)
qed

section \<open>Properties\<close>

text \<open>C26: a signed varint written in front of any bytes is read back, and the rest is left.\<close>

theorem signed_varint_roundtrip:
  "is_i64 x \<Longrightarrow> try_read_signed_varint (write_signed_varint [] x @ rest) = Inr (x, rest)"
  by simp

theorem signed_varint_roundtrip_witness:
  "is_i64 (- 300) \<and> try_read_signed_varint (write_signed_varint [] (- 300) @ [7]) = Inr (- 300, [7])"
  using signed_varint_roundtrip [of "- 300" "[7]"] by (simp add: is_i64_def i64_min_def i64_max_def)

end
