(* ===== verification/Uncompressed.thy ===== *)
theory Uncompressed
  imports Chunk_Spec Encoding
begin

text \<open>
  \<open>src/series/chunks/uncompressed/mod.rs\<close>: the chunk that keeps its samples in a vector, found
  by binary search. It interprets \<open>chunk_contract\<close>; its serialized form is read back.
\<close>

section \<open>Definitions\<close>

record uncompressed_chunk =
  uc_max_size :: nat
  uc_samples :: "sample list"
  uc_max_elements :: nat

definition MAX_UNCOMPRESSED_SAMPLES :: nat where
  "MAX_UNCOMPRESSED_SAMPLES = 256"

definition FLAG_SERIALIZE_UNCOMPRESSED :: u8 where
  "FLAG_SERIALIZE_UNCOMPRESSED = 1"

definition uc_default :: uncompressed_chunk where
  "uc_default = \<lparr>uc_max_size = MAX_UNCOMPRESSED_SAMPLES * SAMPLE_SIZE, uc_samples = [],
     uc_max_elements = MAX_UNCOMPRESSED_SAMPLES\<rparr>"

definition uc_new :: "nat \<Rightarrow> sample list \<Rightarrow> uncompressed_chunk" where
  "uc_new sz samples = \<lparr>uc_max_size = sz, uc_samples = samples, uc_max_elements = sz div SAMPLE_SIZE\<rparr>"

definition uc_from_vec :: "sample list \<Rightarrow> uncompressed_chunk" where
  "uc_from_vec samples = (let n = length samples in
     \<lparr>uc_max_size = n * SAMPLE_SIZE, uc_samples = samples, uc_max_elements = n\<rparr>)"

definition uc_with_max_size :: "nat \<Rightarrow> uncompressed_chunk" where
  "uc_with_max_size sz = uc_default\<lparr>uc_max_size := sz, uc_max_elements := sz div SAMPLE_SIZE\<rparr>"

text \<open>The two searches: the second compares with the operands exchanged.\<close>

definition get_sample_index :: "sample list \<Rightarrow> timestamp \<Rightarrow> nat \<times> bool" where
  "get_sample_index samples ts =
     (case binary_search_by (\<lambda>x. cmp_int (timestamp x) ts) samples of
        Inr pos \<Rightarrow> (pos, True) | Inl idx \<Rightarrow> (idx, False))"

definition binary_search_samples_by_timestamp :: "sample list \<Rightarrow> timestamp \<Rightarrow> nat \<times> bool" where
  "binary_search_samples_by_timestamp samples ts =
     (case binary_search_by (\<lambda>probe. case cmp_int ts (timestamp probe) of
          Less \<Rightarrow> Greater | Greater \<Rightarrow> Less | Equal \<Rightarrow> Equal) samples of
        Inr pos \<Rightarrow> (pos, True) | Inl pos \<Rightarrow> (pos, False))"

fun samples_are_strictly_increasing :: "sample list \<Rightarrow> bool" where
  "samples_are_strictly_increasing (a # b # xs) \<longleftrightarrow>
     timestamp a < timestamp b \<and> samples_are_strictly_increasing (b # xs)"
| "samples_are_strictly_increasing _ \<longleftrightarrow> True"

definition uc_len :: "uncompressed_chunk \<Rightarrow> nat" where
  "uc_len c = length (uc_samples c)"

definition uc_first_timestamp :: "uncompressed_chunk \<Rightarrow> timestamp" where
  "uc_first_timestamp c = (if uc_samples c = [] then 0 else timestamp (uc_samples c ! 0))"

definition uc_last_timestamp :: "uncompressed_chunk \<Rightarrow> timestamp" where
  "uc_last_timestamp c =
     (if uc_samples c = [] then i64_max else timestamp (uc_samples c ! (length (uc_samples c) - 1)))"

definition uc_last_value :: "uncompressed_chunk \<Rightarrow> f64" where
  "uc_last_value c =
     (if uc_samples c = [] then f64_MAX else val (uc_samples c ! (length (uc_samples c) - 1)))"

definition uc_size :: "uncompressed_chunk \<Rightarrow> nat" where
  "uc_size c = length (uc_samples c) * SAMPLE_SIZE"

definition uc_is_full :: "uncompressed_chunk \<Rightarrow> bool" where
  "uc_is_full c \<longleftrightarrow> uc_max_elements c \<le> uc_len c"

definition uc_bytes_per_sample :: "uncompressed_chunk \<Rightarrow> nat" where
  "uc_bytes_per_sample c = SAMPLE_SIZE"

definition uc_clear :: "uncompressed_chunk \<Rightarrow> uncompressed_chunk" where
  "uc_clear c = c\<lparr>uc_samples := []\<rparr>"

definition uc_set_data :: "uncompressed_chunk \<Rightarrow> sample list \<Rightarrow> uncompressed_chunk tsdb_result" where
  "uc_set_data c samples = Inr (c\<lparr>uc_samples := samples\<rparr>)"

definition uc_get_index_bounds :: "uncompressed_chunk \<Rightarrow> timestamp \<Rightarrow> timestamp \<Rightarrow> (nat \<times> nat) option" where
  "uc_get_index_bounds c start end_ts =
     (if end_ts < start then None
      else
        let samples = uc_samples c; len = length samples in
        if len = 0 then None
        else
          let last_ts = timestamp (samples ! (len - 1)) in
          if end_ts < timestamp (samples ! 0) \<or> last_ts < start then None
          else
            let start_idx = fst (binary_search_samples_by_timestamp samples start) in
            if len \<le> start_idx then None
            else
              let (end_idx0, found) = binary_search_samples_by_timestamp samples end_ts;
                  end_idx = (if \<not> found \<and> 0 < end_idx0 \<and> timestamp (samples ! (end_idx0 - 1)) < end_ts
                             then end_idx0 - 1 else end_idx0)
              in if start_idx = end_idx \<and> end_ts < timestamp (samples ! start_idx) then None
                 else Some (start_idx, end_idx))"

text \<open>\<open>&samples[i..=j]\<close> and \<open>samples.drain(i..=j)\<close>.\<close>

definition slice_incl :: "'a list \<Rightarrow> nat \<Rightarrow> nat \<Rightarrow> 'a list" where
  "slice_incl xs i j = drop i (take (j + 1) xs)"

definition drain_incl :: "'a list \<Rightarrow> nat \<Rightarrow> nat \<Rightarrow> 'a list" where
  "drain_incl xs i j = take i xs @ drop (j + 1) xs"

definition uc_get_range_as_ref :: "uncompressed_chunk \<Rightarrow> timestamp \<Rightarrow> timestamp \<Rightarrow> sample list option" where
  "uc_get_range_as_ref c start end_ts =
     map_option (\<lambda>(i, j). slice_incl (uc_samples c) i j) (uc_get_index_bounds c start end_ts)"

definition uc_get_range_slice :: "uncompressed_chunk \<Rightarrow> timestamp \<Rightarrow> timestamp \<Rightarrow> sample list" where
  "uc_get_range_slice c start end_ts =
     (case uc_get_range_as_ref c start end_ts of None \<Rightarrow> [] | Some res \<Rightarrow> res)"

definition uc_range_iter :: "uncompressed_chunk \<Rightarrow> timestamp \<Rightarrow> timestamp \<Rightarrow> sample list" where
  "uc_range_iter c start end_ts = uc_get_range_slice c start end_ts"

definition uc_get_range :: "uncompressed_chunk \<Rightarrow> timestamp \<Rightarrow> timestamp \<Rightarrow> sample list tsdb_result" where
  "uc_get_range c start end_ts = Inr (uc_get_range_slice c start end_ts)"

definition uc_samples_by_timestamps :: "uncompressed_chunk \<Rightarrow> timestamp list \<Rightarrow> sample list tsdb_result" where
  "uc_samples_by_timestamps c tss =
     (if uc_len c = 0 \<or> tss = [] then Inr []
      else if uc_last_timestamp c < tss ! 0 then Inr []
      else Inr (concat (map (\<lambda>ts. case get_sample_index (uc_samples c) ts of
          (pos, found) \<Rightarrow> if found then [uc_samples c ! pos] else []) tss)))"

definition uc_remove_range :: "uncompressed_chunk \<Rightarrow> timestamp \<Rightarrow> timestamp \<Rightarrow> (nat \<times> uncompressed_chunk) tsdb_result" where
  "uc_remove_range c start_ts end_ts =
     (let n = length (uc_samples c);
          c1 = (case uc_get_index_bounds c start_ts end_ts of
                  None \<Rightarrow> c | Some (i, j) \<Rightarrow> c\<lparr>uc_samples := drain_incl (uc_samples c) i j\<rparr>)
      in Inr (n - length (uc_samples c1), c1))"

definition uc_add_sample :: "sample \<Rightarrow> uncompressed_chunk \<Rightarrow> uncompressed_chunk tsdb_result" where
  "uc_add_sample s c =
     (if uc_is_full c then Inl (CapacityFull MAX_UNCOMPRESSED_SAMPLES)
      else Inr (c\<lparr>uc_samples := uc_samples c @ [s]\<rparr>))"

definition uc_handle_insert :: "uncompressed_chunk \<Rightarrow> sample \<Rightarrow> duplicate_policy \<Rightarrow> uncompressed_chunk tsdb_result" where
  "uc_handle_insert c s p =
     (let ts = timestamp s; samples = uc_samples c; (idx, found) = get_sample_index samples ts in
      if found then
        let current = samples ! idx in
        map_ok (\<lambda>v. c\<lparr>uc_samples := samples[idx := current\<lparr>val := v\<rparr>]\<rparr>)
          (duplicate_value p ts (val current) (val s))
      else if idx < length samples then Inr (c\<lparr>uc_samples := take idx samples @ s # drop idx samples\<rparr>)
      else Inr (c\<lparr>uc_samples := samples @ [s]\<rparr>))"

definition uc_upsert_sample :: "uncompressed_chunk \<Rightarrow> sample \<Rightarrow> duplicate_policy \<Rightarrow> (nat \<times> uncompressed_chunk) tsdb_result" where
  "uc_upsert_sample c s p =
     (let ts = timestamp s; n = length (uc_samples c) in
      map_ok (\<lambda>c1. (uc_len c1, c1))
        (if uc_len c = 0 then Inr (c\<lparr>uc_samples := uc_samples c @ [s]\<rparr>)
         else
           let last_ts = timestamp (uc_samples c ! (n - 1)) in
           if last_ts < ts then uc_add_sample s c else uc_handle_insert c s p))"

definition uc_merge_samples ::
  "uncompressed_chunk \<Rightarrow> sample list \<Rightarrow> duplicate_policy option
   \<Rightarrow> sample_add_result list tsdb_result \<times> uncompressed_chunk" where
  "uc_merge_samples c samples dp =
     (if samples = [] then (Inr [], c)
      else
        let first = samples ! 0 in
        if length samples = 1 then
          if uc_len c = 0 then
            (case uc_add_sample first c of
               Inl e \<Rightarrow> (Inl e, c) | Inr c1 \<Rightarrow> (Inr [AddOk first], c1))
          else
            let p = (case dp of None \<Rightarrow> KeepLast | Some q \<Rightarrow> q) in
            (case uc_upsert_sample c first p of
               Inr (_, c1) \<Rightarrow> (Inr [AddOk first], c1)
             | Inl (DuplicateSample _) \<Rightarrow> (Inr [AddDuplicate], c)
             | Inl e \<Rightarrow> (Inl e, c))
        else if uc_len c = 0 \<or> uc_last_timestamp c < timestamp first then
          (Inr (map AddOk samples), c\<lparr>uc_samples := uc_samples c @ samples\<rparr>)
        else
          (case merge_chunk_samples (uc_samples c) samples dp (\<lambda>s dest. Inr (dest @ [s])) [] of
             Inl e \<Rightarrow> (Inl e, c)
           | Inr (result, dest) \<Rightarrow> (Inr result, c\<lparr>uc_samples := dest\<rparr>)))"

definition uc_split :: "uncompressed_chunk \<Rightarrow> (uncompressed_chunk \<times> uncompressed_chunk) tsdb_result" where
  "uc_split c =
     (if uc_samples c = [] then Inr (c, c)
      else if length (uc_samples c) = 1 then Inr (c, c\<lparr>uc_samples := []\<rparr>)
      else
        let half = length (uc_samples c) div 2; samples = uc_samples c in
        Inr (c\<lparr>uc_samples := take half samples\<rparr>,
             \<lparr>uc_max_size = uc_max_size c, uc_samples = drop half samples, uc_max_elements = uc_max_elements c\<rparr>))"

text \<open>Serialization. \<open>as u64\<close> of a \<open>usize\<close> and of an \<open>i64\<close>.\<close>

definition uc_serialize_raw :: "uncompressed_chunk \<Rightarrow> u8 list \<Rightarrow> u8 list" where
  "uc_serialize_raw c buf =
     (let buf1 = write_uvarint buf (word_of_nat (uc_max_size c));
          buf2 = write_uvarint buf1 (word_of_nat (uc_max_elements c));
          buf3 = write_uvarint buf2 (word_of_nat (length (uc_samples c)))
      in fold (\<lambda>s b. write_f64_le (write_uvarint b (as_u64 (timestamp s))) (val s)) (uc_samples c) buf3)"

definition uc_read_usize :: "u8 list \<Rightarrow> (nat \<times> u8 list) tsdb_result" where
  "uc_read_usize buf =
     map_ok (\<lambda>(v, b). (unat v, b)) (map_err (\<lambda>_. DecodingError ''Failed to read usize'') (try_read_uvarint buf))"

fun uc_read_samples :: "nat \<Rightarrow> u8 list \<Rightarrow> (sample list \<times> u8 list) tsdb_result" where
  "uc_read_samples 0 buf = Inr ([], buf)"
| "uc_read_samples (Suc n) buf =
     bindR (map_err (\<lambda>_. ChunkDecoding) (try_read_uvarint buf)) (\<lambda>(ts, buf1).
     bindR (map_err (\<lambda>_. ChunkDecoding) (try_read_f64_le buf1)) (\<lambda>(v, buf2).
     map_ok (\<lambda>(ss, b). (sample_new (as_i64 ts) v # ss, b)) (uc_read_samples n buf2)))"

definition uc_deserialize_raw :: "u8 list \<Rightarrow> uncompressed_chunk tsdb_result" where
  "uc_deserialize_raw buf =
     bindR (uc_read_usize buf) (\<lambda>(max_size, buf1).
     bindR (uc_read_usize buf1) (\<lambda>(max_elements, buf2).
     bindR (uc_read_usize buf2) (\<lambda>(len, buf3).
     bindR (uc_read_samples len buf3) (\<lambda>(samples, buf4).
       if \<not> samples_are_strictly_increasing samples then Inl ChunkDecoding
       else Inr \<lparr>uc_max_size = max_size, uc_samples = samples, uc_max_elements = max_elements\<rparr>))))"

definition uc_serialize :: "uncompressed_chunk \<Rightarrow> u8 list \<Rightarrow> u8 list" where
  "uc_serialize c dest = uc_serialize_raw c (dest @ [FLAG_SERIALIZE_UNCOMPRESSED])"

definition uc_deserialize :: "u8 list \<Rightarrow> uncompressed_chunk tsdb_result" where
  "uc_deserialize buf = (if length buf < 2 then Inl ChunkDecoding else uc_deserialize_raw (drop 1 buf))"

section \<open>Searching\<close>

lemma lower_bound_next:
  assumes "ksorted k xs"
  shows "lower_bound k (b + 1) xs = (if b \<in> k ` set xs then lower_bound k b xs + 1 else lower_bound k b xs)"
proof (rule lower_bound_unique [OF assms, symmetric])
  let ?i = "if b \<in> k ` set xs then lower_bound k b xs + 1 else lower_bound k b xs"
  note nth = nth_lower_bound [OF assms, of b]
  show "?i \<le> length xs" using nth by (auto simp: Suc_le_eq)
  show "k (xs ! j) < b + 1" if "j < ?i" for j
    using that nth lower_bound_less [of j k b xs] by (auto simp: less_Suc_eq split: if_splits)
  show "b + 1 \<le> k (xs ! j)" if j: "?i \<le> j" "j < length xs" for j
  proof (cases "b \<in> k ` set xs")
    case True
    then show ?thesis using nth j ksorted_nth_less [OF assms, of "lower_bound k b xs" j] by simp
  next
    case False
    then have "k (xs ! j) \<noteq> b" using j by (metis imageI nth_mem)
    moreover have "b \<le> k (xs ! j)" using lower_bound_ge [OF assms] j False by simp
    ultimately show ?thesis by simp
  qed
qed

lemma get_sample_index_eq:
  "tsorted xs \<Longrightarrow> get_sample_index xs ts = (lower_bound timestamp ts xs, ts \<in> timestamp ` set xs)"
  by (simp add: get_sample_index_def binary_search_key)

lemma binary_search_samples_eq [simp]: "binary_search_samples_by_timestamp xs ts = get_sample_index xs ts"
proof -
  have "(\<lambda>probe. case cmp_int ts (timestamp probe) of Less \<Rightarrow> Greater | Greater \<Rightarrow> Less | Equal \<Rightarrow> Equal)
      = (\<lambda>x :: sample. cmp_int (timestamp x) ts)"
    by (auto simp: fun_eq_iff cmp_int_def)
  then show ?thesis by (simp add: binary_search_samples_by_timestamp_def get_sample_index_def)
qed

lemma take_lower_bound_filter: "ksorted k xs \<Longrightarrow> take (lower_bound k t xs) xs = filter (\<lambda>x. k x < t) xs"
  by (simp add: take_lower_bound takeWhile_less_eq_filter)

lemma drop_lower_bound_filter: "ksorted k xs \<Longrightarrow> drop (lower_bound k t xs) xs = filter (\<lambda>x. t \<le> k x) xs"
  by (simp add: drop_lower_bound dropWhile_less_eq_filter)

text \<open>The bounds enclose exactly the samples in range; where there are none, they may be crossed by one.\<close>

lemma uc_get_index_bounds_spec:
  assumes sorted: "tsorted (uc_samples c)"
  shows "(case uc_get_index_bounds c a b of
      None \<Rightarrow> filter (in_range a b) (uc_samples c) = []
    | Some (i, j) \<Rightarrow> a \<le> b \<and> i = lower_bound timestamp a (uc_samples c) \<and> j + 1 = lower_bound timestamp (b + 1) (uc_samples c))"
proof -
  let ?xs = "uc_samples c"
  let ?i = "lower_bound timestamp a ?xs"
  define u where "u = lower_bound timestamp (b + 1) ?xs"
  consider (inverted) "b < a" | (none) "?xs = []" | (outside) "a \<le> b" "?xs \<noteq> []" "b < timestamp (?xs ! 0) \<or> timestamp (?xs ! (length ?xs - 1)) < a"
    | (inside) "a \<le> b" "?xs \<noteq> []" "timestamp (?xs ! 0) \<le> b" "a \<le> timestamp (?xs ! (length ?xs - 1))" by linarith
  then show ?thesis
  proof cases
    case inverted
    then show ?thesis by (auto simp: uc_get_index_bounds_def filter_empty_conv in_range_def)
  next
    case none
    then show ?thesis by (simp add: uc_get_index_bounds_def)
  next
    case outside
    then have "filter (in_range a b) ?xs = []"
      using ksorted_hd [OF sorted] ksorted_last [OF sorted]
      by (fastforce simp: filter_empty_conv in_range_def hd_conv_nth last_conv_nth)
    then show ?thesis using outside by (simp add: uc_get_index_bounds_def Let_def)
  next
    case inside
    have "0 < u"
    proof (rule ccontr)
      assume "\<not> 0 < u"
      then have "b + 1 \<le> timestamp (?xs ! 0)"
        using lower_bound_ge [OF sorted, of "b + 1" 0] inside(2) by (simp add: u_def)
      then show False using inside(3) by simp
    qed
    have i: "?i < length ?xs"
    proof (rule ccontr)
      assume "\<not> ?i < length ?xs"
      then have "length ?xs - 1 < ?i" using inside(2) by (cases ?xs) auto
      then have "timestamp (?xs ! (length ?xs - 1)) < a" by (rule lower_bound_less)
      then show False using inside(4) by simp
    qed
    let ?j = "lower_bound timestamp b ?xs"
    have u: "u = (if b \<in> timestamp ` set ?xs then ?j + 1 else ?j)"
      unfolding u_def by (rule lower_bound_next [OF sorted])
    have e: "(if b \<notin> timestamp ` set ?xs \<and> 0 < ?j \<and> timestamp (?xs ! (?j - 1)) < b then ?j - 1 else ?j) = u - 1"
      using u \<open>0 < u\<close> lower_bound_less [of "?j - 1" timestamp b ?xs] by auto
    have "\<not> (?i = u - 1 \<and> b < timestamp (?xs ! ?i))"
      using lower_bound_less [of "u - 1" timestamp "b + 1" ?xs] \<open>0 < u\<close> by (auto simp: u_def)
    then have "uc_get_index_bounds c a b = Some (?i, u - 1)"
      using inside i e by (simp add: uc_get_index_bounds_def Let_def get_sample_index_eq [OF sorted])
    then show ?thesis using \<open>0 < u\<close> inside(1) by (simp add: u_def)
  qed
qed

lemma uc_get_range_slice_eq:
  assumes sorted: "tsorted (uc_samples c)"
  shows "uc_get_range_slice c a b = filter (in_range a b) (uc_samples c)"
proof (cases "uc_get_index_bounds c a b")
  case None
  then show ?thesis using uc_get_index_bounds_spec [OF sorted, of a b]
    by (simp add: uc_get_range_slice_def uc_get_range_as_ref_def)
next
  case (Some ij)
  then obtain i j where ij: "uc_get_index_bounds c a b = Some (i, j)" by (cases ij) auto
  then have sp: "a \<le> b" "i = lower_bound timestamp a (uc_samples c)" "j + 1 = lower_bound timestamp (b + 1) (uc_samples c)"
    using uc_get_index_bounds_spec [OF sorted, of a b] by auto
  have "slice_incl (uc_samples c) i j = filter (\<lambda>x. a \<le> timestamp x \<and> timestamp x < b + 1) (uc_samples c)"
    unfolding slice_incl_def sp(2,3) using sp(1) by (intro slice_lower_bounds [OF sorted]) simp
  also have "\<dots> = filter (in_range a b) (uc_samples c)" by (rule filter_cong) (auto simp: in_range_def)
  finally show ?thesis using ij by (simp add: uc_get_range_slice_def uc_get_range_as_ref_def)
qed

lemma filter_outside:
  assumes "tsorted xs" "a \<le> b"
  shows "take (lower_bound timestamp a xs) xs @ drop (lower_bound timestamp (b + 1) xs) xs
    = filter (\<lambda>s. \<not> in_range a b s) xs"
proof -
  let ?P = "\<lambda>s. \<not> in_range a b s"
  have "filter ?P xs = filter ?P (filter (\<lambda>x. timestamp x < a) xs @ filter (\<lambda>x. a \<le> timestamp x) xs)"
    using filter_le_less_split [OF assms(1), of a] by simp
  also have "\<dots> = filter (\<lambda>x. timestamp x < a) xs @ filter (\<lambda>x. b + 1 \<le> timestamp x) xs"
    using assms(2) by (auto simp: in_range_def intro!: arg_cong2 [of _ _ _ _ "(@)"] filter_cong)
  finally show ?thesis using assms(1) by (simp add: take_lower_bound_filter drop_lower_bound_filter)
qed

lemma uc_remove_range_eq:
  assumes sorted: "tsorted (uc_samples c)"
  shows "uc_remove_range c a b = Inr (length (filter (in_range a b) (uc_samples c)),
     c\<lparr>uc_samples := filter (\<lambda>s. \<not> in_range a b s) (uc_samples c)\<rparr>)"
proof -
  let ?xs = "uc_samples c"
  have len: "length ?xs - length (filter (\<lambda>s. \<not> in_range a b s) ?xs) = length (filter (in_range a b) ?xs)"
    using sum_length_filter_compl [of "in_range a b" ?xs] by simp
  show ?thesis
  proof (cases "uc_get_index_bounds c a b")
    case None
    then have e: "filter (in_range a b) ?xs = []" using uc_get_index_bounds_spec [OF sorted, of a b] by simp
    then have "filter (\<lambda>s. \<not> in_range a b s) ?xs = ?xs" by (simp add: filter_empty_conv filter_id_conv)
    then show ?thesis using None e by (simp add: uc_remove_range_def Let_def)
  next
    case (Some ij)
    then obtain i j where ij: "uc_get_index_bounds c a b = Some (i, j)" by (cases ij) auto
    then have sp: "a \<le> b" "i = lower_bound timestamp a ?xs" "j + 1 = lower_bound timestamp (b + 1) ?xs"
      using uc_get_index_bounds_spec [OF sorted, of a b] by auto
    have "drain_incl ?xs i j = filter (\<lambda>s. \<not> in_range a b s) ?xs"
      unfolding drain_incl_def sp(2,3) by (rule filter_outside [OF sorted sp(1)])
    then show ?thesis using ij len by (simp add: uc_remove_range_def Let_def)
  qed
qed

section \<open>Inserting, merging and splitting\<close>

lemma uc_handle_insert_eq:
  assumes sorted: "tsorted (uc_samples c)"
  shows "uc_handle_insert c s p = map_ok (\<lambda>xs. c\<lparr>uc_samples := xs\<rparr>) (list_insert p s (uc_samples c))"
proof -
  let ?xs = "uc_samples c" and ?t = "timestamp s"
  let ?i = "lower_bound timestamp ?t ?xs"
  have tk: "take ?i ?xs = filter (\<lambda>x. timestamp x < ?t) ?xs" by (rule take_lower_bound_filter [OF sorted])
  have dp: "drop (lower_bound timestamp (?t + 1) ?xs) ?xs = filter (\<lambda>x. ?t < timestamp x) ?xs"
    unfolding drop_lower_bound_filter [OF sorted] by (rule filter_cong) auto
  show ?thesis
  proof (cases "?t \<in> timestamp ` set ?xs")
    case True
    note nth = nth_lower_bound [OF sorted True]
    have "drop (Suc ?i) ?xs = filter (\<lambda>x. ?t < timestamp x) ?xs"
      using dp lower_bound_next [OF sorted, of ?t] True by simp
    then have upd: "?xs[?i := y] = filter (\<lambda>x. timestamp x < ?t) ?xs @ y # filter (\<lambda>x. ?t < timestamp x) ?xs" for y
      using nth tk by (simp add: upd_conv_take_nth_drop)
    have old: "smap ?xs ?t = Some (val (?xs ! ?i))"
      using nth smap_inj [OF sorted nth_mem, of ?i] by simp
    show ?thesis
      unfolding uc_handle_insert_def Let_def get_sample_index_eq [OF sorted] list_insert_cases [OF sorted] old
      using True nth
      by (cases "duplicate_value p ?t (val (?xs ! ?i)) (val s)") (simp_all add: upd sample_upd)
  next
    case False
    then have none: "smap ?xs ?t = None" by (simp add: smap_None_iff)
    have d: "drop ?i ?xs = filter (\<lambda>x. ?t < timestamp x) ?xs"
      using dp lower_bound_next [OF sorted, of ?t] False by simp
    have "\<not> ?i < length ?xs \<Longrightarrow> ?xs = filter (\<lambda>x. timestamp x < ?t) ?xs \<and> filter (\<lambda>x. ?t < timestamp x) ?xs = []"
      using tk d by simp
    then show ?thesis
      unfolding uc_handle_insert_def Let_def get_sample_index_eq [OF sorted] list_insert_cases [OF sorted] none
      using False tk d by (cases "?i < length ?xs") (auto simp: Let_def)
  qed
qed

definition uc_inv :: "uncompressed_chunk \<Rightarrow> bool" where
  "uc_inv c \<longleftrightarrow> valid_samples (uc_samples c)"

lemma uc_upsert_sample_eq:
  assumes "uc_inv c" "\<not> uc_is_full c \<or> uc_samples c = [] \<or> timestamp s \<le> timestamp (last (uc_samples c))"
  shows "uc_upsert_sample c s p =
    map_ok (\<lambda>xs. (length xs, c\<lparr>uc_samples := xs\<rparr>)) (list_insert p s (uc_samples c))"
proof -
  let ?xs = "uc_samples c"
  have sorted: "tsorted ?xs" using assms(1) by (simp add: uc_inv_def)
  consider "?xs = []" | "?xs \<noteq> []" "timestamp (last ?xs) < timestamp s" | "?xs \<noteq> []" "timestamp s \<le> timestamp (last ?xs)"
    by linarith
  then show ?thesis
  proof cases
    case 2
    then have "\<forall>x\<in>set ?xs. timestamp x < timestamp s"
      using ksorted_last [OF sorted] by force
    then have "list_insert p s ?xs = Inr (?xs @ [s])" by (rule list_insert_snoc)
    then show ?thesis using 2 assms(2)
      by (auto simp: uc_upsert_sample_def uc_len_def uc_add_sample_def last_conv_nth Let_def)
  next
    case 3
    then show ?thesis
      by (cases "list_insert p s ?xs")
        (simp_all add: uc_upsert_sample_def uc_len_def Let_def last_conv_nth uc_handle_insert_eq [OF sorted])
  qed (simp add: uc_upsert_sample_def uc_len_def)
qed

lemma foldR_push: "foldR (\<lambda>s dest. Inr (dest @ [s])) xs ys = Inr (ys @ xs)"
  by (induction xs arbitrary: ys) simp_all

lemma merge_stream_single:
  assumes "tsorted xs"
  shows "list_merge p xs [s] = (case list_insert p s xs of Inl _ \<Rightarrow> xs | Inr ys \<Rightarrow> ys)"
  using assms
proof (induction xs)
  case (Cons x xs)
  show ?case
  proof (cases "timestamp s" "timestamp x" rule: linorder_cases)
    case equal
    then show ?thesis
      by (cases "duplicate_value p (timestamp x) (val x) (val s)")
        (simp_all add: list_merge_def merge_stream_simps merge_stream_Nil_right comp_def sample_upd)
  next
    case greater
    then show ?thesis using Cons
      by (cases "list_insert p s xs") (simp_all add: list_merge_def merge_stream_simps)
  qed (simp add: list_merge_def merge_stream_simps merge_stream_Nil_right comp_def)
qed (simp add: list_merge_def merge_stream_simps)

lemma uc_merge_samples_spec:
  assumes inv: "uc_inv c" and ys: "valid_samples ys" and room: "length ys \<noteq> 1 \<or> \<not> uc_is_full c \<or> uc_samples c \<noteq> [] \<and> timestamp (hd ys) \<le> timestamp (last (uc_samples c))"
    and p: "p = (case dp of None \<Rightarrow> KeepLast | Some q \<Rightarrow> q)"
  shows "\<exists>rs c'. uc_merge_samples c ys dp = (Inr rs, c') \<and> uc_inv c' \<and> uc_samples c' = list_merge p (uc_samples c) ys \<and>
     list_all2 same_outcome rs (map (merge_outcome p (smap (uc_samples c))) ys)"
proof -
  let ?xs = "uc_samples c"
  have sorted: "tsorted ?xs" "tsorted ys" and valid: "valid_samples ?xs" using inv ys by (auto simp: uc_inv_def)
  have ok: "uc_inv c'" if "uc_samples c' = list_merge p ?xs ys" for c'
    using that list_merge_valid [OF valid ys, of p] by (simp add: uc_inv_def)
  consider (none) "ys = []" | (one) s where "ys = [s]" | (after) "2 \<le> length ys" "?xs = [] \<or> timestamp (last ?xs) < timestamp (hd ys)"
    | (merge) "2 \<le> length ys" "?xs \<noteq> []" "timestamp (hd ys) \<le> timestamp (last ?xs)"
  proof (cases ys)
    case (Cons y ys')
    then show thesis using that by (cases ys') force+
  qed (use that in auto)
  then show ?thesis
  proof cases
    case none
    then show ?thesis using inv by (simp add: uc_merge_samples_def list_merge_def merge_stream_Nil_right comp_def)
  next
    case one
    then have full: "\<not> uc_is_full c \<or> ?xs \<noteq> [] \<and> timestamp s \<le> timestamp (last ?xs)" using room by simp
    have m: "list_merge p ?xs ys = (case list_insert p s ?xs of Inl _ \<Rightarrow> ?xs | Inr zs \<Rightarrow> zs)"
      unfolding one by (rule merge_stream_single [OF sorted(1)])
    have up: "uc_upsert_sample c s p = map_ok (\<lambda>xs. (length xs, c\<lparr>uc_samples := xs\<rparr>)) (list_insert p s ?xs)"
      by (rule uc_upsert_sample_eq [OF inv]) (use full in auto)
    show ?thesis
    proof (cases "list_insert p s ?xs")
      case (Inl e)
      then obtain old where old: "smap ?xs (timestamp s) = Some old" "duplicate_value p (timestamp s) old (val s) = Inl e"
        using list_insert_smap(2) [OF sorted(1)] by blast
      then obtain msg where "e = DuplicateSample msg" using duplicate_value_error by blast
      moreover have "?xs \<noteq> []" using Inl by auto
      ultimately show ?thesis using Inl up m inv one old p
        by (simp add: uc_merge_samples_def uc_len_def Let_def merge_outcome_def)
    next
      case (Inr zs)
      then have res: "same_outcome (AddOk s) (merge_outcome p (smap ?xs) s)"
        using list_insert_smap(2) [OF sorted(1), of p s]
        by (auto simp: merge_outcome_def split: option.split sum.split)
      have "uc_merge_samples c ys dp = (Inr [AddOk s], c\<lparr>uc_samples := zs\<rparr>)"
        using Inr up one full p by (auto simp: uc_merge_samples_def uc_len_def uc_add_sample_def Let_def)
      then show ?thesis using ok [of "c\<lparr>uc_samples := zs\<rparr>"] m Inr res one by simp
    qed
  next
    case after
    then have all: "\<forall>x\<in>set ?xs. \<forall>y\<in>set ys. timestamp x < timestamp y"
      using ksorted_last [OF sorted(1)] ksorted_hd [OF sorted(2)] by fastforce
    have "ys \<noteq> []" using after by auto
    then have "uc_merge_samples c ys dp = (Inr (map AddOk ys), c\<lparr>uc_samples := ?xs @ ys\<rparr>)"
      using after by (auto simp: uc_merge_samples_def uc_len_def uc_last_timestamp_def Let_def last_conv_nth hd_conv_nth)
    then show ?thesis unfolding merge_outcome_after [OF all]
      using ok [of "c\<lparr>uc_samples := ?xs @ ys\<rparr>"] list_merge_after [OF all, of p] by simp
  next
    case merge
    have "ys \<noteq> []" using merge by auto
    then have "uc_merge_samples c ys dp = (Inr (map (merge_outcome p (smap ?xs)) ys), c\<lparr>uc_samples := list_merge p ?xs ys\<rparr>)"
      using merge merge_chunk_samples_spec [OF sorted p, of "\<lambda>s dest. Inr (dest @ [s])" "[]"]
      by (simp add: uc_merge_samples_def uc_len_def uc_last_timestamp_def Let_def last_conv_nth hd_conv_nth
          foldR_push list_merge_def)
    then show ?thesis using ok [of "c\<lparr>uc_samples := list_merge p ?xs ys\<rparr>"] by simp
  qed
qed

lemma uc_split_spec:
  assumes "uc_inv c"
  shows "\<exists>c' d. uc_split c = Inr (c', d) \<and> uc_inv c' \<and> uc_inv d \<and> uc_samples c' @ uc_samples d = uc_samples c \<and>
     (2 \<le> length (uc_samples c) \<longrightarrow> uc_samples c' \<noteq> [] \<and> uc_samples d \<noteq> [])"
proof -
  let ?xs = "uc_samples c"
  have v: "valid_samples (take n ?xs) \<and> valid_samples (drop n ?xs)" for n
    using assms append_take_drop_id [of n ?xs] unfolding uc_inv_def by (metis valid_samples_append)
  consider "?xs = []" | "length ?xs = 1" | "2 \<le> length ?xs" by (cases ?xs) (auto simp: Suc_le_eq)
  then show ?thesis
  proof cases
    case 3
    then have "0 < length ?xs div 2" "length ?xs div 2 < length ?xs" by auto
    then show ?thesis using 3 v [of "length ?xs div 2"]
      by (auto simp: uc_split_def Let_def uc_inv_def)
  qed (use assms in \<open>auto simp: uc_split_def uc_inv_def\<close>)
qed

interpretation ucc: chunk_contract uc_inv uc_samples uc_len uc_first_timestamp uc_last_timestamp uc_last_value
  uc_is_full uc_remove_range uc_add_sample uc_get_range uc_upsert_sample uc_merge_samples uc_clear uc_set_data uc_split
proof (unfold_locales, goal_cases)
  case (6 c a b)
  then show ?case by (auto simp: uc_inv_def uc_remove_range_eq valid_samples_filter)
next
  case (9 c s p xs)
  then have "uc_upsert_sample c s p = map_ok (\<lambda>xs. (length xs, c\<lparr>uc_samples := xs\<rparr>)) (list_insert p s (uc_samples c))"
    by (intro uc_upsert_sample_eq) auto
  then show ?case using 9 list_insert_valid [of "uc_samples c" s p xs] by (simp add: uc_inv_def)
next
  case (10 c s p e)
  then have "uc_upsert_sample c s p = map_ok (\<lambda>xs. (length xs, c\<lparr>uc_samples := xs\<rparr>)) (list_insert p s (uc_samples c))"
    by (intro uc_upsert_sample_eq) auto
  then show ?case using 10 by simp
next
  case (11 c s p n c')
  then have "\<not> uc_is_full c \<or> timestamp s \<le> timestamp (last (uc_samples c))"
    by (auto simp: uc_upsert_sample_def uc_add_sample_def uc_len_def Let_def last_conv_nth not_le split: if_splits)
  then have "uc_upsert_sample c s p = map_ok (\<lambda>xs. (length xs, c\<lparr>uc_samples := xs\<rparr>)) (list_insert p s (uc_samples c))"
    using 11 by (intro uc_upsert_sample_eq) auto
  then show ?case using 11 list_insert_valid [of "uc_samples c" s p]
    by (cases "list_insert p s (uc_samples c)") (auto simp: uc_inv_def)
next
  case (12 c ys p dp)
  then show ?case by (rule uc_merge_samples_spec)
next
  case (15 c)
  then show ?case by (rule uc_split_spec)
qed (auto simp: uc_inv_def uc_len_def uc_first_timestamp_def uc_last_timestamp_def uc_last_value_def hd_conv_nth
    last_conv_nth uc_get_range_def uc_get_range_slice_eq uc_add_sample_def uc_upsert_sample_eq uc_clear_def uc_set_data_def)

section \<open>Serialization\<close>

lemma samples_are_strictly_increasing_iff: "samples_are_strictly_increasing xs \<longleftrightarrow> tsorted xs"
proof (induction xs rule: samples_are_strictly_increasing.induct)
  case (1 a b xs)
  then show ?case by (auto intro: less_trans)
qed simp_all

definition sample_bytes :: "sample \<Rightarrow> u8 list" where
  "sample_bytes s = write_uvarint [] (as_u64 (timestamp s)) @ to_le_bytes (val s)"

lemma uc_serialize_samples:
  "fold (\<lambda>s b. write_f64_le (write_uvarint b (as_u64 (timestamp s))) (val s)) xs buf = buf @ concat (map sample_bytes xs)"
proof (induction xs arbitrary: buf)
  case (Cons s xs)
  then show ?case
    using write_uvarint_append [of buf] by (simp add: write_f64_le_def write_u64_le_def sample_bytes_def)
qed simp

lemma uc_read_samples_bytes:
  "\<forall>s\<in>set xs. is_i64 (timestamp s) \<Longrightarrow>
   uc_read_samples (length xs) (concat (map sample_bytes xs) @ rest) = Inr (xs, rest)"
proof (induction xs)
  case (Cons s xs)
  have v: "try_read_f64_le (to_le_bytes (val s) @ rest') = Inr (val s, rest')" for rest'
    using try_read_write_u64_le [of "val s" rest'] by (simp add: try_read_f64_le_def write_u64_le_def)
  show ?case using Cons
    by (simp add: sample_bytes_def v as_i64_as_u64 sample_collapse)
qed simp

theorem uc_deserialize_serialize:
  assumes "uc_inv c" "uc_max_size c < 2 ^ 64" "uc_max_elements c < 2 ^ 64" "length (uc_samples c) < 2 ^ 64"
  shows "uc_deserialize (uc_serialize c []) = Inr c"
proof -
  let ?n = "\<lambda>k. word_of_nat k :: u64"
  have us: "uc_read_usize (write_uvarint [] (?n k) @ rest) = Inr (k, rest)" if "k < 2 ^ 64" for k rest
    using unat_word_of_nat_64 [OF that] by (simp add: uc_read_usize_def)
  have "uc_serialize c [] = FLAG_SERIALIZE_UNCOMPRESSED # write_uvarint [] (?n (uc_max_size c))
      @ write_uvarint [] (?n (uc_max_elements c)) @ write_uvarint [] (?n (length (uc_samples c)))
      @ concat (map sample_bytes (uc_samples c))" (is "_ = _ # ?bytes")
    unfolding uc_serialize_def uc_serialize_raw_def Let_def uc_serialize_samples
    using write_uvarint_append by (metis append.assoc append_Cons append_Nil)
  moreover have "\<forall>s\<in>set (uc_samples c). is_i64 (timestamp s)"
    using assms(1) by (auto simp: uc_inv_def valid_samples_def valid_ts_def is_i64_def i64_min_def)
  then have "uc_read_samples (length (uc_samples c)) (concat (map sample_bytes (uc_samples c))) = Inr (uc_samples c, [])"
    using uc_read_samples_bytes [of "uc_samples c" "[]"] by simp
  then have "uc_deserialize_raw ?bytes = Inr c"
    using assms by (simp add: uc_deserialize_raw_def us samples_are_strictly_increasing_iff uc_inv_def)
  moreover have "?bytes \<noteq> []" by simp
  ultimately show ?thesis by (simp add: uc_deserialize_def Suc_le_eq not_less)
qed

text \<open>Only ordered chunks are accepted from the wire.\<close>

lemma uc_deserialize_sorted: "uc_deserialize buf = Inr c \<Longrightarrow> tsorted (uc_samples c)"
  by (auto simp: uc_deserialize_def uc_deserialize_raw_def result_iffs samples_are_strictly_increasing_iff
      split: if_splits)

section \<open>Properties\<close>

text \<open>C25: an uncompressed chunk written with \<open>serialize\<close> is read back unchanged by \<open>deserialize\<close>.\<close>

theorem uncompressed_roundtrip:
  assumes "uc_inv c" "uc_max_size c < 2 ^ 64" "uc_max_elements c < 2 ^ 64" "length (uc_samples c) < 2 ^ 64"
  shows "uc_deserialize (uc_serialize c []) = Inr c"
  using assms by (rule uc_deserialize_serialize)

definition uc_example :: uncompressed_chunk where
  "uc_example = uc_new 64 [sample_new 10 0, sample_new 20 0x3ff0000000000000, sample_new 300 5]"

lemma uc_example_simps [simp]:
  "uc_samples uc_example = [sample_new 10 0, sample_new 20 0x3ff0000000000000, sample_new 300 5]"
  "uc_max_size uc_example = 64" "uc_max_elements uc_example = 4" "uc_inv uc_example"
  by (simp_all add: uc_example_def uc_new_def SAMPLE_SIZE_def uc_inv_def valid_ts_def i64_max_def)

theorem uncompressed_roundtrip_witness: "uc_deserialize (uc_serialize uc_example []) = Inr uc_example"
  by (rule uncompressed_roundtrip) simp_all

end
