(* ===== verification/Bit_Lists.thy ===== *)
theory Bit_Lists
  imports Encoding
begin

text \<open>
  Bit lists, most significant bit first: the bits of a word, the word of a bit list, and the
  bits of a byte stream. They are the abstract values the bit writer and the bit reader are
  proved against.
\<close>

definition bits_of :: "nat \<Rightarrow> 'a::len word \<Rightarrow> bool list" where
  "bits_of n w = map (bit w) (rev [0..<n])"

definition of_bits :: "bool list \<Rightarrow> u64" where
  "of_bits bs = horner_sum of_bool 2 (rev bs)"

definition stream_bits :: "u8 list \<Rightarrow> bool list" where
  "stream_bits bytes = concat (map (bits_of 8) bytes)"

lemma length_bits_of [simp]: "length (bits_of n w) = n"
  by (simp add: bits_of_def)

lemma bits_of_0 [simp]: "bits_of 0 w = []"
  by (simp add: bits_of_def)

lemma nth_bits_of: "i < n \<Longrightarrow> bits_of n w ! i = bit w (n - 1 - i)"
  by (simp add: bits_of_def rev_nth)

lemma bits_of_eqI:
  assumes "length xs = n" and "\<And>i. i < n \<Longrightarrow> xs ! (n - 1 - i) = bit w i"
  shows "bits_of n w = xs"
proof (rule nth_equalityI)
  fix i assume "i < length (bits_of n w)"
  then have "i < n" by simp
  with assms(2) [of "n - 1 - i"] show "bits_of n w ! i = xs ! i"
    by (simp add: nth_bits_of)
qed (use assms in simp)

lemma bits_of_Suc: "bits_of (Suc n) w = bit w n # bits_of n w"
  by (simp add: bits_of_def)

lemma bits_of_add: "bits_of (m + n) w = bits_of m (drop_bit n w) @ bits_of n w"
  by (induction m) (simp_all add: bits_of_Suc bit_drop_bit_eq add.commute)

lemma bits_of_add_le: "m \<le> n \<Longrightarrow> bits_of n w = bits_of (n - m) (drop_bit m w) @ bits_of m w"
  using bits_of_add [of "n - m" m w] by simp

lemma bits_of_zero [simp]: "bits_of n 0 = replicate n False"
  by (induction n) (simp_all add: bits_of_Suc)

lemma bits_of_cong: "(\<And>i. i < n \<Longrightarrow> bit v i = bit w i) \<Longrightarrow> bits_of n v = bits_of n w"
  by (simp add: bits_of_def)

lemma bits_of_take_bit [simp]: "n \<le> m \<Longrightarrow> bits_of n (take_bit m w) = bits_of n w"
  by (rule bits_of_cong) (simp add: bit_take_bit_iff)

lemma bits_of_push_bit:
  fixes w :: "'a::len word"
  assumes "n + k \<le> LENGTH('a)"
  shows "bits_of (n + k) (push_bit k w) = bits_of n w @ replicate k False"
proof -
  have "bits_of n (drop_bit k (push_bit k w)) = bits_of n w"
    using assms by (intro bits_of_cong) (auto simp: bit_simps)
  moreover have "bits_of k (push_bit k w) = bits_of k (0 :: 'a word)"
    using assms by (intro bits_of_cong) (auto simp: bit_simps)
  ultimately show ?thesis by (simp add: bits_of_add)
qed

lemma bits_of_ucast:
  fixes w :: "'a::len word"
  assumes "n \<le> LENGTH('b::len)"
  shows "bits_of n (ucast w :: 'b word) = bits_of n w"
  using assms by (intro bits_of_cong) (auto simp: bit_simps)

lemma bits_of_OR: "bits_of n (v OR w) = map2 (\<or>) (bits_of n v) (bits_of n w)"
  by (induction n) (simp_all add: bits_of_Suc bit_or_iff)

lemma bits_of_high_False:
  assumes "take_bit m w = w"
  shows "bits_of (k + m) w = replicate k False @ bits_of m w"
proof -
  have "bits_of k (drop_bit m w) = bits_of k (drop_bit m (take_bit m w))" using assms by simp
  also have "\<dots> = replicate k False"
    by (subst drop_bit_take_bit) simp
  finally show ?thesis by (simp add: bits_of_add)
qed

lemma bit_of_bits: "bit (of_bits bs) i \<longleftrightarrow> i < 64 \<and> i < length bs \<and> bs ! (length bs - 1 - i)"
  by (auto simp: of_bits_def bit_horner_sum_bit_iff rev_nth)

lemma of_bits_Nil [simp]: "of_bits [] = 0"
  by (simp add: of_bits_def)

lemma of_bits_bits_of [simp]: "of_bits (bits_of n w) = take_bit n w"
  by (simp add: of_bits_def bits_of_def rev_map horner_sum_bit_eq_take_bit)

lemma bits_of_of_bits: "length bs \<le> 64 \<Longrightarrow> bits_of (length bs) (of_bits bs) = bs"
  by (rule bits_of_eqI) (auto simp: bit_of_bits)

lemma bits_of_inj:
  assumes "bits_of n v = bits_of n w" shows "take_bit n v = (take_bit n w :: u64)"
  using assms by (metis of_bits_bits_of)

lemma of_bits_append:
  "of_bits (xs @ ys) = push_bit (length ys) (of_bits xs) OR of_bits ys"
proof (rule bit_word_eqI)
  fix i assume "i < LENGTH(64)"
  show "bit (of_bits (xs @ ys)) i = bit (push_bit (length ys) (of_bits xs) OR of_bits ys) i"
    by (auto simp: bit_simps bit_of_bits nth_append algebra_simps Suc_diff_le)
qed

lemma take_bit_of_bits [simp]: "length bs \<le> n \<Longrightarrow> take_bit n (of_bits bs) = of_bits bs"
  by (rule bit_eqI) (auto simp: bit_take_bit_iff bit_of_bits)

lemma of_bits_drop: "n \<le> length bs \<Longrightarrow> of_bits (drop n bs) = take_bit (length bs - n) (of_bits bs)"
  by (rule bit_eqI) (auto simp: bit_take_bit_iff bit_of_bits)

section \<open>Byte streams\<close>

lemma stream_bits_simps [simp]:
  "stream_bits [] = []"
  "stream_bits (b # bs) = bits_of 8 b @ stream_bits bs"
  "stream_bits (bs @ cs) = stream_bits bs @ stream_bits cs"
  by (simp_all add: stream_bits_def)

lemma length_stream_bits [simp]: "length (stream_bits bs) = 8 * length bs"
  by (induction bs) simp_all

lemma stream_bits_take: "stream_bits (take n bs) = take (8 * n) (stream_bits bs)"
  by (induction bs arbitrary: n) (auto simp: take_Cons' not_less algebra_simps split: nat.split)

lemma stream_bits_drop: "stream_bits (drop n bs) = drop (8 * n) (stream_bits bs)"
  by (induction bs arbitrary: n) (auto simp: drop_Cons' algebra_simps split: nat.split)

lemma stream_bits_rev_le_bytes: "stream_bits (rev (le_bytes n v)) = bits_of (8 * n) v" if "n \<le> 8"
  using that
proof (induction n arbitrary: v)
  case (Suc n)
  then show ?case
    using bits_of_add [of "8 * n" 8 v] by (simp add: bits_of_ucast add.commute)
qed simp

lemma stream_bits_to_be_bytes: "stream_bits (to_be_bytes v) = bits_of 64 v"
  using stream_bits_rev_le_bytes [of 8 v] by (simp add: to_be_bytes_def to_le_bytes_def)

lemma of_bits_byte: "of_bits (bits_of 8 b) = ucast b" for b :: u8
proof (rule bit_word_eqI)
  fix i assume "i < LENGTH(64)"
  show "bit (of_bits (bits_of 8 b)) i = bit (ucast b :: u64) i"
    using bit_imp_le_length [of b i]
    by (auto simp: bit_of_bits nth_bits_of bit_simps)
qed

lemma from_be_bytes_of_bits:
  assumes "length bs \<le> 8" shows "from_be_bytes bs = of_bits (stream_bits bs)"
  using assms
proof (induction bs rule: rev_induct)
  case (snoc b bs)
  have "ucast b = of_bits (bits_of 8 b)"
    by (rule of_bits_byte [symmetric])
  with snoc show ?case
    by (simp add: from_be_bytes_def of_bits_append or.commute)
qed (simp add: from_be_bytes_def)

end
