(* ===== verification/BitIO.thy ===== *)
theory BitIO
  imports Bit_Lists
begin

text \<open>
  \<open>src/series/chunks/stream/bitstream.rs\<close> and \<open>bitstream_reader.rs\<close>: the bit writer and the
  windowed bit reader under both compressed chunk formats. The writer refines the append of
  bits to a bit list (\<open>bs_rel\<close>); the reader, with its 64-bit window, its eight-byte refills and
  its straddling reads, refines the removal of bits from the front of one (\<open>br_bits\<close>). The
  traits \<open>BitWrite\<close> and \<open>BitRead\<close> are the locales \<open>bit_write\<close> and \<open>bit_read\<close>.
\<close>

section \<open>The writer\<close>

datatype io_error = UnexpectedEof | InvalidData string

record bitstream =
  stream :: "u8 list"
  count :: nat
  soft_cap :: nat

definition usize_max :: nat where
  "usize_max = 2 ^ 64 - 1"

definition saturating_add :: "nat \<Rightarrow> nat \<Rightarrow> nat" where
  "saturating_add a b = min (a + b) usize_max"

definition saturating_mul :: "nat \<Rightarrow> nat \<Rightarrow> nat" where
  "saturating_mul a b = min (a * b) usize_max"

definition SOFT_CAP_SLACK :: nat where
  "SOFT_CAP_SLACK = 32"

definition bs_new :: bitstream where
  "bs_new = \<lparr>stream = [], count = 0, soft_cap = usize_max\<rparr>"

definition bs_set_soft_cap :: "nat \<Rightarrow> bitstream \<Rightarrow> bitstream" where
  "bs_set_soft_cap cap s = s\<lparr>soft_cap := cap\<rparr>"

definition bs_reset :: "u8 list \<Rightarrow> bitstream \<Rightarrow> bitstream" where
  "bs_reset bytes s = s\<lparr>stream := bytes, count := 0\<rparr>"

definition bs_clear :: "bitstream \<Rightarrow> bitstream" where
  "bs_clear s = s\<lparr>stream := [], count := 0\<rparr>"

definition bs_eq :: "bitstream \<Rightarrow> bitstream \<Rightarrow> bool" where
  "bs_eq s t \<longleftrightarrow> count s = count t \<and> stream s = stream t"

definition bs_position :: "bitstream \<Rightarrow> nat" where
  "bs_position s = (if count s = 0 then 0 else 8 - count s)"

text \<open>
  The allocation \<open>grow\<close> asks for, of the current length, capacity and budget: \<open>target\<close>.
\<close>

definition grow_target :: "nat \<Rightarrow> nat \<Rightarrow> nat \<Rightarrow> nat \<Rightarrow> nat" where
  "grow_target len cap cap_budget need =
     (let floor = len + need;
          doubled = max (saturating_mul cap 2) 8;
          capped = saturating_add cap_budget SOFT_CAP_SLACK
      in if floor \<le> capped then max (min doubled capped) floor else max doubled floor)"

text \<open>\<open>self.stream[i] |= b\<close> at the last index.\<close>

definition or_last :: "u8 \<Rightarrow> bitstream \<Rightarrow> bitstream" where
  "or_last b s = (let i = length (stream s) - 1 in
     s\<lparr>stream := (stream s)[i := (stream s ! i) OR b]\<rparr>)"

definition write_bit_raw :: "bool \<Rightarrow> bitstream \<Rightarrow> bitstream" where
  "write_bit_raw b s =
     (let s1 = (if count s = 0 then s\<lparr>stream := stream s @ [0], count := 8\<rparr> else s);
          s2 = (if b then or_last (push_bit (count s1 - 1) 1) s1 else s1)
      in s2\<lparr>count := count s2 - 1\<rparr>)"

text \<open>The left shift of a \<open>u8\<close> takes its count modulo 8.\<close>

definition write_byte_raw :: "u8 \<Rightarrow> bitstream \<Rightarrow> bitstream" where
  "write_byte_raw b s =
     (if count s = 0 then s\<lparr>stream := stream s @ [b]\<rparr>
      else let s1 = or_last (drop_bit (8 - count s) b) s in
        s1\<lparr>stream := stream s1 @ [push_bit (count s mod 8) b]\<rparr>)"

text \<open>
  \<open>write_bits\<close>, whose last part, storing the big-endian bytes of the left-aligned value, is
  \<open>write_bits_words\<close>.
\<close>

definition write_bits_words :: "nat \<Rightarrow> u64 \<Rightarrow> bitstream \<Rightarrow> bitstream" where
  "write_bits_words nbits u s =
     (let nbytes = (nbits + 7) div 8;
          len = length (stream s);
          bytes = to_be_bytes u;
          s1 = (if nbytes < 8 \<and> saturating_add (soft_cap s) SOFT_CAP_SLACK < saturating_add len 8
                then s\<lparr>stream := stream s @ take nbytes bytes\<rparr>
                else s\<lparr>stream := take (len + nbytes) (stream s @ bytes)\<rparr>);
          rem = nbits mod 8
      in if rem \<noteq> 0 then s1\<lparr>count := 8 - rem\<rparr> else s1)"

definition bs_write_bits :: "nat \<Rightarrow> u64 \<Rightarrow> bitstream \<Rightarrow> io_error + bitstream" where
  "bs_write_bits bits v s =
     (let nbits = min bits 64 in
      if nbits = 0 then Inr s
      else
        let u = push_bit (64 - nbits) v in
        if 0 < count s then
          let free = count s;
              s1 = or_last (ucast (drop_bit (64 - free) u)) s
          in if nbits < free then Inr (s1\<lparr>count := free - nbits\<rparr>)
             else
               let u1 = push_bit free u;
                   nbits1 = nbits - free;
                   s2 = s1\<lparr>count := 0\<rparr>
               in if nbits1 = 0 then Inr s2 else Inr (write_bits_words nbits1 u1 s2)
        else Inr (write_bits_words nbits u s))"

definition bs_write_bit :: "bool \<Rightarrow> bitstream \<Rightarrow> io_error + bitstream" where
  "bs_write_bit b s = Inr (write_bit_raw b s)"

definition bs_write_u64 :: "u64 \<Rightarrow> bitstream \<Rightarrow> bitstream" where
  "bs_write_u64 v s = fold write_byte_raw (to_be_bytes v) s"

definition bs_write_f64 :: "f64 \<Rightarrow> bitstream \<Rightarrow> bitstream" where
  "bs_write_f64 x s = bs_write_u64 x s"

function bs_write_uvarint_loop :: "u64 \<Rightarrow> bitstream \<Rightarrow> bitstream" where
  "bs_write_uvarint_loop v s =
     (if 0x80 \<le> v then bs_write_uvarint_loop (drop_bit 7 v) (write_byte_raw (ucast v OR 0x80) s)
      else write_byte_raw (ucast v) s)"
  by pat_completeness auto
termination
  by (relation "measure (\<lambda>(v, s). unat v)") (auto simp: unat_drop_bit_7_less)

declare bs_write_uvarint_loop.simps [simp del]

definition bs_write_uvarint :: "u64 \<Rightarrow> bitstream \<Rightarrow> io_error + bitstream" where
  "bs_write_uvarint v s = Inr (bs_write_uvarint_loop v s)"

definition bs_write_varint :: "int \<Rightarrow> bitstream \<Rightarrow> io_error + bitstream" where
  "bs_write_varint x s =
     (let n = push_bit 1 (as_u64 x) XOR signed_drop_bit 63 (as_u64 x) in bs_write_uvarint n s)"

definition bs_serialize :: "bitstream \<Rightarrow> u8 list \<Rightarrow> u8 list" where
  "bs_serialize s dest =
     write_uvarint (write_uvarint dest (word_of_nat (count s))) (word_of_nat (length (stream s)))
       @ stream s"

definition bs_deserialize :: "u8 list \<Rightarrow> io_error + (bitstream \<times> u8 list)" where
  "bs_deserialize src =
     bindR (map_err (\<lambda>_. UnexpectedEof) (try_read_uvarint src)) (\<lambda>(cnt, src1).
     if 8 < cnt then Inl (InvalidData ''Invalid bit count'')
     else bindR (map_err (\<lambda>_. UnexpectedEof) (try_read_uvarint src1)) (\<lambda>(len0, src2).
       let len = unat len0 in
       if length src2 < len then Inl UnexpectedEof
       else if cnt \<noteq> 0 \<and> len = 0 then
         Inl (InvalidData ''Invalid chunk bits: non-zero count with empty stream'')
       else Inr (\<lparr>stream = take len src2, count = unat cnt, soft_cap = usize_max\<rparr>, drop len src2)))"

definition validate_rdb_state :: "u8 list \<Rightarrow> u64 \<Rightarrow> string + nat" where
  "validate_rdb_state bytes cnt =
     (if 8 < cnt then Inl ''Invalid chunk bits''
      else if cnt \<noteq> 0 \<and> bytes = [] then
        Inl ''Invalid chunk bits: non-zero count with empty stream''
      else Inr (unat cnt))"

section \<open>The reader\<close>

record bitreader =
  rstream :: "u8 list"
  stream_offset :: nat
  buffer :: u64
  valid :: nat
  last_byte :: u8

definition br_new :: "u8 list \<Rightarrow> bitreader" where
  "br_new b = \<lparr>rstream = b, stream_offset = 0, buffer = 0, valid = 0,
     last_byte = (if b = [] then 0 else b ! (length b - 1))\<rparr>"

definition refill_window :: "nat \<Rightarrow> u8 list \<Rightarrow> bitreader \<Rightarrow> bitreader" where
  "refill_window n word8 r =
     (let w = from_be_bytes word8; bits = n * 8 in
      r\<lparr>buffer := (if bits = 64 then w else push_bit bits (buffer r) OR drop_bit (64 - bits) w),
        valid := valid r + bits,
        stream_offset := stream_offset r + n\<rparr>)"

definition refill_tail :: "nat \<Rightarrow> nat \<Rightarrow> bitreader \<Rightarrow> bitreader" where
  "refill_tail want avail r =
     (if avail = 0 then r
      else
        let tk = min want avail;
            rest = drop (stream_offset r) (rstream r);
            word0 = (if 8 \<le> avail then take 8 rest else rest @ replicate (8 - avail) 0);
            word1 = (if tk = avail then word0[tk - 1 := last_byte r] else word0)
        in refill_window tk word1 r)"

definition refill :: "bitreader \<Rightarrow> bitreader" where
  "refill r =
     (let want = (64 - valid r) div 8 in
      if want = 0 then r
      else
        let avail = length (rstream r) - stream_offset r in
        if 8 < avail then refill_window want (take 8 (drop (stream_offset r) (rstream r))) r
        else refill_tail want avail r)"

definition br_read_bit :: "bitreader \<Rightarrow> io_error + (bool \<times> bitreader)" where
  "br_read_bit r =
     (let r1 = (if valid r = 0 then refill r else r) in
      if valid r1 = 0 then Inl UnexpectedEof
      else let v = valid r1 - 1 in Inr (drop_bit v (buffer r1) AND 1 \<noteq> 0, r1\<lparr>valid := v\<rparr>))"

text \<open>
  The end of \<open>read_bits\<close>, reached when the window holds enough bits. \<open>read_bits_straddling\<close>
  calls \<open>read_bits\<close> twice, both times with at most \<open>valid\<close> bits, where it is this.
\<close>

definition read_window :: "nat \<Rightarrow> bitreader \<Rightarrow> u64 \<times> bitreader" where
  "read_window nbits r =
     (let vl = valid r - nbits; v = drop_bit vl (buffer r) in
      (if 64 \<le> nbits then v else v AND (push_bit nbits 1 - 1), r\<lparr>valid := vl\<rparr>))"

definition read_bits_straddling :: "nat \<Rightarrow> bitreader \<Rightarrow> io_error + (u64 \<times> bitreader)" where
  "read_bits_straddling nbits r =
     (let first = valid r in
      if first = 0 \<or> length (rstream r) \<le> stream_offset r then Inl UnexpectedEof
      else
        let (hi, r1) = read_window first r;
            rest = nbits - first;
            r2 = refill r1
        in if valid r2 < rest then Inl UnexpectedEof
           else let (lo, r3) = read_window rest r2 in Inr (push_bit rest hi OR lo, r3))"

definition br_read_bits :: "nat \<Rightarrow> bitreader \<Rightarrow> io_error + (u64 \<times> bitreader)" where
  "br_read_bits nbits r =
     (if valid r < nbits then
        if 64 < nbits then Inl (InvalidData ''bit count exceeds 64'')
        else let r1 = refill r in
          if valid r1 < nbits then read_bits_straddling nbits r1 else Inr (read_window nbits r1)
      else Inr (read_window nbits r))"

definition peek_upto :: "nat \<Rightarrow> bitreader \<Rightarrow> u64 \<times> bitreader" where
  "peek_upto nbits r =
     (let r1 = (if valid r < nbits then refill r else r) in
      if valid r1 < nbits then
        (push_bit (nbits - valid r1) (buffer r1 AND (push_bit (valid r1) 1 - 1)), r1)
      else (drop_bit (valid r1 - nbits) (buffer r1) AND (push_bit nbits 1 - 1), r1))"

definition br_skip :: "nat \<Rightarrow> bitreader \<Rightarrow> io_error + bitreader" where
  "br_skip nbits r = (if valid r < nbits then Inl UnexpectedEof else Inr (r\<lparr>valid := valid r - nbits\<rparr>))"

definition br_read_byte :: "bitreader \<Rightarrow> io_error + (u8 \<times> bitreader)" where
  "br_read_byte r = map_ok (\<lambda>(v, r'). (ucast v, r')) (br_read_bits 8 r)"

definition br_read_u64 :: "bitreader \<Rightarrow> io_error + (u64 \<times> bitreader)" where
  "br_read_u64 r = br_read_bits 64 r"

definition br_read_f64 :: "bitreader \<Rightarrow> io_error + (f64 \<times> bitreader)" where
  "br_read_f64 r = br_read_u64 r"

definition MAX_VARINT_LEN64 :: nat where
  "MAX_VARINT_LEN64 = 10"

text \<open>The loop of \<open>read_uvarint\<close>, with the iterations left; the shift \<open>s\<close> reaches 63 in the tenth.\<close>

fun br_read_uvarint_loop :: "nat \<Rightarrow> u64 \<Rightarrow> nat \<Rightarrow> bitreader \<Rightarrow> io_error + (u64 \<times> bitreader)" where
  "br_read_uvarint_loop 0 x s r = Inl (InvalidData ''varint overflow'')"
| "br_read_uvarint_loop (Suc k) x s r =
     bindR (br_read_byte r) (\<lambda>(byte, r1).
       if byte < 0x80 then Inr (x OR push_bit s (ucast byte), r1)
       else br_read_uvarint_loop k (x OR push_bit s (ucast byte AND 0x7F)) (s + 7) r1)"

definition br_read_uvarint :: "bitreader \<Rightarrow> io_error + (u64 \<times> bitreader)" where
  "br_read_uvarint r = br_read_uvarint_loop MAX_VARINT_LEN64 0 0 r"

definition br_read_varint :: "bitreader \<Rightarrow> io_error + (int \<times> bitreader)" where
  "br_read_varint r = bindR (br_read_uvarint r) (\<lambda>(ux, r1).
     let x = drop_bit 1 ux in
     Inr (as_i64 (if ux AND 1 \<noteq> 0 then NOT x else x), r1))"

text \<open>The trait method \<open>BitRead::read_bits\<close>.\<close>

definition bit_read_bits :: "nat \<Rightarrow> bitreader \<Rightarrow> io_error + (u64 \<times> bitreader)" where
  "bit_read_bits num r =
     (if 64 < num then Inl (InvalidData ''bit count exceeds 64'') else br_read_bits num r)"


section \<open>The writer appends bits\<close>

text \<open>The stream holds the bits \<open>bl\<close>, and the free bits of its last byte are zero.\<close>

definition bs_rel :: "bitstream \<Rightarrow> bool list \<Rightarrow> bool" where
  "bs_rel s bl \<longleftrightarrow> count s < 8 \<and> stream_bits (stream s) = bl @ replicate (count s) False"

lemma bs_rel_new [simp]: "bs_rel bs_new []" "bs_rel (bs_clear s) []"
  by (simp_all add: bs_rel_def bs_new_def bs_clear_def)

lemma bs_rel_set_soft_cap [simp]: "bs_rel (bs_set_soft_cap c s) bl = bs_rel s bl"
  by (simp add: bs_rel_def bs_set_soft_cap_def)

lemma or_last_fields [simp]: "count (or_last b s) = count s" "soft_cap (or_last b s) = soft_cap s"
  by (simp_all add: or_last_def Let_def)

lemma map2_or_append_False:
  "length ys = m \<Longrightarrow> length xs = k \<Longrightarrow>
   map2 (\<or>) (ys @ replicate k False) (replicate m False @ xs) = ys @ xs"
  by (rule nth_equalityI) (auto simp: nth_append)

lemma stream_bits_or_last:
  assumes "stream_bits (stream s) = bl @ replicate k False" "0 < k" "k \<le> 8"
    and b: "bits_of 8 b = replicate (8 - k) False @ xs" "length xs = k"
  shows "stream_bits (stream (or_last b s)) = bl @ xs"
proof -
  have "stream s \<noteq> []" using assms(1,2) by auto
  then obtain ini c where s: "stream s = ini @ [c]" by (metis rev_exhaust)
  define ys where "ys = take (8 - k) (bits_of 8 c)"
  have eq: "stream_bits ini @ bits_of 8 c = bl @ replicate k False"
    using assms(1) by (simp add: s)
  have "length bl + k = 8 * length ini + 8"
    using arg_cong [OF eq, of length] by simp
  then have n: "length bl = 8 * length ini + (8 - k)" using assms(3) by simp
  have bl: "bl = stream_bits ini @ ys"
    using arg_cong [OF eq, of "take (length bl)"] n by (simp add: ys_def)
  have c: "bits_of 8 c = ys @ replicate k False"
    using eq unfolding bl by simp
  have "bits_of 8 (c OR b) = ys @ xs"
    unfolding bits_of_OR c b(1) using b(2) by (intro map2_or_append_False) (auto simp: ys_def)
  then show ?thesis by (simp add: or_last_def Let_def s bl)
qed

lemma write_bit_raw_rel:
  assumes "bs_rel s bl" shows "bs_rel (write_bit_raw b s) (bl @ [b])"
proof -
  define s1 where "s1 = (if count s = 0 then s\<lparr>stream := stream s @ [0], count := 8\<rparr> else s)"
  define k where "k = count s1"
  have k: "0 < k" "k \<le> 8" and s1: "stream_bits (stream s1) = (bl @ replicate k False)"
    using assms by (auto simp: s1_def k_def bs_rel_def)
  have bits: "bits_of 8 (push_bit (k - 1) 1 :: u8) = replicate (8 - k) False @ True # replicate (k - 1) False"
    using k by (intro bits_of_eqI) (auto simp: nth_append nth_Cons' bit_simps)
  have "stream_bits (stream (or_last (push_bit (k - 1) 1) s1)) = bl @ True # replicate (k - 1) False"
    by (rule stream_bits_or_last [OF s1 k bits]) (use k in simp)
  moreover have "replicate k False = False # replicate (k - 1) False"
    using k by (cases k) simp_all
  ultimately show ?thesis
    using k s1 by (cases b) (auto simp: write_bit_raw_def Let_def bs_rel_def s1_def [symmetric] k_def [symmetric])
qed

lemma bits_of_8_split:
  fixes b :: u8 assumes "k \<le> 8"
  shows "bits_of 8 (drop_bit (8 - k) b) = replicate (8 - k) False @ bits_of k (drop_bit (8 - k) b)"
proof -
  have "take_bit 8 b = b"
    using take_bit_length_eq [of b] by simp
  then have "take_bit k (drop_bit (8 - k) b) = drop_bit (8 - k) b"
    using assms by (simp add: take_bit_drop_bit)
  from bits_of_high_False [OF this, of "8 - k"] assms show ?thesis by simp
qed

lemma write_byte_raw_rel:
  assumes "bs_rel s bl" shows "bs_rel (write_byte_raw b s) (bl @ bits_of 8 b)"
proof (cases "count s = 0")
  case False
  let ?k = "count s"
  have k: "0 < ?k" "?k \<le> 8" "?k < 8" and s: "stream_bits (stream s) = bl @ replicate ?k False"
    using assms False by (auto simp: bs_rel_def)
  have "stream_bits (stream (or_last (drop_bit (8 - ?k) b) s)) = bl @ bits_of ?k (drop_bit (8 - ?k) b)"
    by (rule stream_bits_or_last [OF s k(1,2) bits_of_8_split [OF k(2)]]) simp
  moreover have "bits_of 8 (push_bit ?k b) = bits_of (8 - ?k) b @ replicate ?k False"
    using bits_of_push_bit [of "8 - ?k" ?k b] k by simp
  moreover have "bits_of 8 b = bits_of ?k (drop_bit (8 - ?k) b) @ bits_of (8 - ?k) b"
    using bits_of_add_le [of "8 - ?k" 8 b] k by simp
  ultimately show ?thesis using k by (simp add: write_byte_raw_def Let_def bs_rel_def)
qed (use assms in \<open>simp add: write_byte_raw_def bs_rel_def\<close>)

lemma ceil_div_8: "8 * ((n + 7) div 8) = n + (if n mod 8 = 0 then 0 else 8 - n mod 8)" for n :: nat
proof -
  define q r where "q = n div 8" and "r = n mod 8"
  have n: "n = 8 * q + r" "r < 8" by (simp_all add: q_def r_def)
  then have "(n + 7) div 8 = q + (if r = 0 then 0 else 1)"
    by (intro div_nat_eqI) auto
  then show ?thesis unfolding r_def [symmetric] using n by simp
qed

lemma write_bits_words_rel:
  assumes "count s = 0" and u: "bits_of 64 u = xs @ replicate (64 - n) False"
    and n: "length xs = n" "0 < n" "n \<le> 64"
  shows "bs_rel (write_bits_words n u s) (stream_bits (stream s) @ xs)"
proof -
  define m where "m = (n + 7) div 8"
  define c where "c = (if n mod 8 = 0 then 0 else 8 - n mod 8)"
  have m: "8 * m = n + c" unfolding m_def c_def by (rule ceil_div_8)
  have "m \<le> 8" using n(3) by (simp add: m_def div_le_mono [of _ 71 8, simplified])
  then have "8 * m \<le> 64" by simp
  have "stream_bits (take m (to_be_bytes u)) = take (8 * m) (xs @ replicate (64 - n) False)"
    by (simp add: stream_bits_take stream_bits_to_be_bytes u)
  also have "\<dots> = xs @ replicate c False"
    using m n \<open>8 * m \<le> 64\<close> by (simp add: min_def)
  finally have *: "stream_bits (take m (to_be_bytes u)) = xs @ replicate c False" .
  show ?thesis
    unfolding write_bits_words_def Let_def m_def [symmetric] bs_rel_def
    using assms(1) * by (cases "n mod 8 = 0") (simp_all add: c_def)
qed

lemma bs_write_bits_rel:
  assumes rel: "bs_rel s bl" and "n \<le> 64"
  shows "\<exists>s'. bs_write_bits n v s = Inr s' \<and> bs_rel s' (bl @ bits_of n v)"
proof (cases "n = 0")
  case False
  define u where "u = push_bit (64 - n) v"
  have u: "bits_of 64 u = bits_of n v @ replicate (64 - n) False"
    using bits_of_push_bit [of n "64 - n" v] \<open>n \<le> 64\<close> by (simp add: u_def)
  have n: "min n 64 = n" "0 < n" using False \<open>n \<le> 64\<close> by simp_all
  show ?thesis
  proof (cases "count s = 0")
    case True
    with rel have "stream_bits (stream s) = bl" by (simp add: bs_rel_def)
    with write_bits_words_rel [OF True u _ n(2) \<open>n \<le> 64\<close>] True n show ?thesis
      by (simp add: bs_write_bits_def u_def [symmetric] Let_def)
  next
    case count: False
    let ?f = "count s"
    have f: "0 < ?f" "?f \<le> 8" "?f < 8" and s: "stream_bits (stream s) = bl @ replicate ?f False"
      using rel count by (auto simp: bs_rel_def)
    define b :: u8 where "b = ucast (drop_bit (64 - ?f) u)"
    define xs where "xs = take ?f (bits_of 64 u)"
    have "take_bit ?f (drop_bit (64 - ?f) u) = drop_bit (64 - ?f) u"
      using f take_bit_length_eq [of u] by (simp add: take_bit_drop_bit)
    from bits_of_high_False [OF this, of "8 - ?f"] f
    have "bits_of 8 b = replicate (8 - ?f) False @ bits_of ?f (drop_bit (64 - ?f) u)"
      by (simp add: b_def bits_of_ucast)
    also have "bits_of ?f (drop_bit (64 - ?f) u) = xs"
      using bits_of_add_le [of "64 - ?f" 64 u] f by (simp add: xs_def)
    finally have s1: "stream_bits (stream (or_last b s)) = bl @ xs"
      using f by (intro stream_bits_or_last [OF s f(1,2)]) (simp_all add: xs_def)
    define s2 where "s2 = (or_last b s)\<lparr>count := 0\<rparr>"
    have wb: "bs_write_bits n v s = Inr
        (if n < ?f then (or_last b s)\<lparr>count := ?f - n\<rparr>
         else if n - ?f = 0 then s2 else write_bits_words (n - ?f) (push_bit ?f u) s2)"
      using n f by (simp add: bs_write_bits_def Let_def u_def b_def s2_def)
    show ?thesis
    proof (cases "n < ?f")
      case True
      then have "xs = bits_of n v @ replicate (?f - n) False"
        using f by (simp add: xs_def u min_def)
      with True s1 f show ?thesis by (simp add: wb bs_rel_def)
    next
      case ge: False
      have xs: "xs = take ?f (bits_of n v)" using ge f by (simp add: xs_def u)
      have "bits_of 64 (push_bit ?f u) = bits_of (64 - ?f) u @ replicate ?f False"
        using bits_of_push_bit [of "64 - ?f" ?f u] f by simp
      also have "bits_of (64 - ?f) u = drop ?f (bits_of 64 u)"
        using bits_of_add_le [of "64 - ?f" 64 u] f by simp
      also have "\<dots> = drop ?f (bits_of n v) @ replicate (64 - n) False"
        using ge by (simp add: u)
      finally have u1: "bits_of 64 (push_bit ?f u) =
          drop ?f (bits_of n v) @ replicate (64 - (n - ?f)) False"
        using ge \<open>n \<le> 64\<close> by (simp add: replicate_add [symmetric])
      have s2: "count s2 = 0" "stream_bits (stream s2) = bl @ xs"
        using s1 by (simp_all add: s2_def)
      show ?thesis
      proof (cases "n = ?f")
        case True
        then have "xs = bits_of n v" by (simp add: xs)
        with s2 have "bs_rel s2 (bl @ bits_of n v)" by (simp add: bs_rel_def)
        then show ?thesis unfolding wb using True by simp
      next
        case neq: False
        have "bs_rel (write_bits_words (n - ?f) (push_bit ?f u) s2)
                (stream_bits (stream s2) @ drop ?f (bits_of n v))"
          using neq ge \<open>n \<le> 64\<close> by (intro write_bits_words_rel [OF s2(1) u1]) auto
        then have "bs_rel (write_bits_words (n - ?f) (push_bit ?f u) s2) (bl @ bits_of n v)"
          by (simp add: s2 xs)
        then show ?thesis using neq ge by (simp add: wb)
      qed
    qed
  qed
qed (use assms in \<open>simp add: bs_write_bits_def\<close>)

lemma fold_write_byte_raw_rel:
  "bs_rel s bl \<Longrightarrow> bs_rel (fold write_byte_raw bytes s) (bl @ stream_bits bytes)"
proof (induction bytes arbitrary: s bl)
  case (Cons b bytes)
  show ?case using Cons.IH [OF write_byte_raw_rel [OF Cons.prems, of b]] by simp
qed simp

lemma bs_write_f64_rel: "bs_rel s bl \<Longrightarrow> bs_rel (bs_write_f64 x s) (bl @ bits_of 64 x)"
  using fold_write_byte_raw_rel [of s bl "to_be_bytes x"]
  by (simp add: bs_write_f64_def bs_write_u64_def stream_bits_to_be_bytes)

text \<open>The varint of the bit stream has the bytes of \<open>encoding.rs\<close>'s.\<close>

lemma bs_write_uvarint_loop_rel:
  "bs_rel s bl \<Longrightarrow> bs_rel (bs_write_uvarint_loop v s) (bl @ stream_bits (write_uvarint [] v))"
proof (induction v s arbitrary: bl rule: bs_write_uvarint_loop.induct)
  case (1 v s)
  show ?case
  proof (cases "0x80 \<le> v")
    case True
    let ?b = "ucast v OR 0x80"
    have "write_uvarint [] v = [?b] @ write_uvarint [] (drop_bit 7 v)"
      using True by (subst write_uvarint.simps) (simp add: write_uvarint_append [of "[?b]"])
    then show ?thesis
      using "1.IH" [OF True write_byte_raw_rel [OF "1.prems", of ?b]] True
      by (subst bs_write_uvarint_loop.simps) simp
  next
    case False
    then show ?thesis
      using write_byte_raw_rel [OF "1.prems", of "ucast v"]
      by (subst bs_write_uvarint_loop.simps, subst write_uvarint.simps) simp
  qed
qed

section \<open>The reader removes bits from the front\<close>

definition br_bits :: "bitreader \<Rightarrow> bool list" where
  "br_bits r = bits_of (valid r) (buffer r) @ stream_bits (drop (stream_offset r) (rstream r))"

definition br_inv :: "bitreader \<Rightarrow> bool" where
  "br_inv r \<longleftrightarrow> valid r \<le> 64 \<and> stream_offset r \<le> length (rstream r) \<and>
     (rstream r \<noteq> [] \<longrightarrow> last_byte r = rstream r ! (length (rstream r) - 1))"

lemma br_new_spec [simp]: "br_inv (br_new bs)" "br_bits (br_new bs) = stream_bits bs"
  by (simp_all add: br_inv_def br_bits_def br_new_def)

lemma br_inv_valid: "br_inv r \<Longrightarrow> v \<le> valid r \<Longrightarrow> br_inv (r\<lparr>valid := v\<rparr>)"
  by (simp add: br_inv_def)

lemma refill_window_bits:
  assumes inv: "br_inv r" and n: "0 < n" "8 * n + valid r \<le> 64" and len: "length word8 = 8"
    and rest: "take n word8 = take n (drop (stream_offset r) (rstream r))"
      "n \<le> length (rstream r) - stream_offset r"
  shows "br_inv (refill_window n word8 r)" "br_bits (refill_window n word8 r) = br_bits r"
    "valid (refill_window n word8 r) = valid r + 8 * n"
    "stream_offset (refill_window n word8 r) = stream_offset r + n"
    "rstream (refill_window n word8 r) = rstream r"
proof -
  define w where "w = from_be_bytes word8"
  define b where "b = (if 8 * n = 64 then w else push_bit (8 * n) (buffer r) OR drop_bit (64 - 8 * n) w)"
  have r': "refill_window n word8 r = r\<lparr>buffer := b, valid := valid r + 8 * n, stream_offset := stream_offset r + n\<rparr>"
    by (simp add: refill_window_def Let_def b_def w_def mult.commute)
  then show "valid (refill_window n word8 r) = valid r + 8 * n"
    "stream_offset (refill_window n word8 r) = stream_offset r + n"
    "rstream (refill_window n word8 r) = rstream r" by simp_all
  show "br_inv (refill_window n word8 r)"
    using inv n rest(2) by (auto simp: r' br_inv_def)
  have w64: "bits_of 64 w = stream_bits word8"
    using bits_of_of_bits [of "stream_bits word8"] len by (simp add: w_def from_be_bytes_of_bits)
  have n8: "8 * n \<le> 64" using n by simp
  have low: "bits_of (8 * n) b = bits_of (8 * n) (drop_bit (64 - 8 * n) w)"
    using n8 by (intro bits_of_cong) (auto simp: b_def bit_simps)
  also have "\<dots> = take (8 * n) (bits_of 64 w)"
    using bits_of_add_le [of "64 - 8 * n" 64 w] n8 by simp
  also have "\<dots> = stream_bits (take n (drop (stream_offset r) (rstream r)))"
    unfolding w64 rest(1) [symmetric] by (simp add: stream_bits_take)
  finally have low: "bits_of (8 * n) b = stream_bits (take n (drop (stream_offset r) (rstream r)))" .
  have high: "bits_of (valid r) (drop_bit (8 * n) b) = bits_of (valid r) (buffer r)"
    using n by (intro bits_of_cong) (auto simp: b_def bit_simps dest: bit_imp_le_length)
  have "drop (stream_offset r) (rstream r) =
      take n (drop (stream_offset r) (rstream r)) @ drop (stream_offset r + n) (rstream r)"
    by (metis append_take_drop_id drop_drop add.commute)
  then have "stream_bits (drop (stream_offset r) (rstream r)) =
      stream_bits (take n (drop (stream_offset r) (rstream r)))
      @ stream_bits (drop (stream_offset r + n) (rstream r))"
    by (metis stream_bits_simps(3))
  then show "br_bits (refill_window n word8 r) = br_bits r"
    by (simp add: r' br_bits_def bits_of_add low high)
qed

text \<open>The last byte captured at construction is the byte it replaces.\<close>

lemma refill_tail_word:
  assumes inv: "br_inv r" and avail: "avail = length (rstream r) - stream_offset r" "0 < avail" "avail \<le> 8"
    and rest: "rest = drop (stream_offset r) (rstream r)"
    and word0: "word0 = (if 8 \<le> avail then take 8 rest else rest @ replicate (8 - avail) 0)"
  shows "word0[avail - 1 := last_byte r] = word0" "length word0 = 8" "take n word0 = take n rest \<or> avail < n"
proof -
  have len: "length rest = avail" using avail rest by simp
  have off: "stream_offset r + (avail - 1) = length (rstream r) - 1" "rstream r \<noteq> []"
    using avail by auto
  then have "rest ! (avail - 1) = last_byte r"
    using inv avail by (simp add: rest br_inv_def)
  then have "word0 ! (avail - 1) = last_byte r"
    using avail(2,3) len by (auto simp: word0 nth_append)
  then show "word0[avail - 1 := last_byte r] = word0"
    by (metis list_update_id)
  show "length word0 = 8" using len avail by (simp add: word0)
  show "take n word0 = take n rest \<or> avail < n"
    using len avail by (auto simp: word0 min_def not_less)
qed

lemma refill_spec:
  assumes inv: "br_inv r"
  shows "br_inv (refill r) \<and> br_bits (refill r) = br_bits r \<and> valid r \<le> valid (refill r) \<and>
     (57 \<le> valid (refill r) \<or> stream_offset (refill r) = length (rstream (refill r)))"
proof -
  define want where "want = (64 - valid r) div 8"
  define avail where "avail = length (rstream r) - stream_offset r"
  define rest where "rest = drop (stream_offset r) (rstream r)"
  have v: "valid r \<le> 64" and off: "stream_offset r \<le> length (rstream r)"
    using inv by (auto simp: br_inv_def)
  have want: "8 * want + valid r \<le> 64" "57 \<le> valid r + 8 * want"
    using v unfolding want_def by linarith+
  have fit: "8 * n + valid r \<le> 64" if "n \<le> want" for n
    using that want(1) by linarith
  consider (full) "want = 0" | (word) "0 < want" "8 < avail" | (none) "0 < want" "avail = 0"
    | (tail) "0 < want" "0 < avail" "avail \<le> 8" by linarith
  then show ?thesis
  proof cases
    case full
    then have "refill r = r" by (simp add: refill_def want_def)
    then show ?thesis using inv want full by simp
  next
    case word
    then have r': "refill r = refill_window want (take 8 rest) r"
      by (simp add: refill_def Let_def want_def avail_def rest_def)
    have "length (take 8 rest) = 8" "want \<le> length (rstream r) - stream_offset r"
      "take want (take 8 rest) = take want (drop (stream_offset r) (rstream r))"
      using word want by (auto simp: rest_def avail_def min_def)
    from refill_window_bits [OF inv word(1) want(1) this(1,3,2)]
    show ?thesis using want unfolding r' by simp
  next
    case none
    then have "refill r = r" by (simp add: refill_def Let_def want_def avail_def refill_tail_def)
    then show ?thesis using inv none off by (simp add: avail_def)
  next
    case tail
    define tk where "tk = min want avail"
    define word0 where "word0 = (if 8 \<le> avail then take 8 rest else rest @ replicate (8 - avail) 0)"
    note w = refill_tail_word [OF inv avail_def tail(2,3) rest_def word0_def]
    have "refill r = refill_window tk (if tk = avail then word0[tk - 1 := last_byte r] else word0) r"
      using tail by (simp add: refill_def Let_def want_def [symmetric] avail_def [symmetric]
          refill_tail_def rest_def [symmetric] word0_def tk_def [symmetric])
    also have "(if tk = avail then word0[tk - 1 := last_byte r] else word0) = word0"
      using w(1) by simp
    finally have r': "refill r = refill_window tk word0 r" .
    have tk: "0 < tk" "tk \<le> want" "tk \<le> avail" using tail by (auto simp: tk_def)
    have "take tk word0 = take tk rest" using w(3) [of tk] tk by auto
    note b = refill_window_bits [OF inv tk(1) fit [OF tk(2)] w(2) this [unfolded rest_def] tk(3) [unfolded avail_def]]
    have "57 \<le> valid r + 8 * tk \<or> stream_offset r + tk = length (rstream r)"
      using want(2) off by (cases "want \<le> avail") (auto simp: tk_def avail_def)
    then show ?thesis unfolding r' using b by simp
  qed
qed

lemma read_window_spec:
  assumes "br_inv r" "n \<le> valid r"
  obtains r' where "read_window n r = (of_bits (take n (br_bits r)), r')" "br_inv r'"
    "br_bits r' = drop n (br_bits r)" "valid r' = valid r - n" "stream_offset r' = stream_offset r"
    "rstream r' = rstream r"
proof
  let ?r' = "r\<lparr>valid := valid r - n\<rparr>"
  let ?v = "drop_bit (valid r - n) (buffer r)"
  have v: "bits_of (valid r) (buffer r) = bits_of n ?v @ bits_of (valid r - n) (buffer r)"
    using bits_of_add_le [of "valid r - n" "valid r" "buffer r"] assms by simp
  have "n \<le> 64" using assms by (simp add: br_inv_def)
  then have "(if 64 \<le> n then ?v else ?v AND (push_bit n 1 - 1)) = take_bit n ?v"
    by (cases "n = 64", simp, simp add: take_bit_eq_mask mask_eq_exp_minus_1)
  moreover have "take n (br_bits r) = bits_of n ?v" by (simp add: br_bits_def v)
  ultimately show "read_window n r = (of_bits (take n (br_bits r)), ?r')"
    by (simp add: read_window_def Let_def)
  show "br_inv ?r'" using assms by (simp add: br_inv_valid)
  show "br_bits ?r' = drop n (br_bits r)" by (simp add: br_bits_def v)
qed simp_all

lemma br_read_bit_Cons:
  assumes "br_inv r" "br_bits r = b # bs"
  shows "\<exists>r'. br_read_bit r = Inr (b, r') \<and> br_inv r' \<and> br_bits r' = bs"
proof -
  define r1 where "r1 = (if valid r = 0 then refill r else r)"
  have r1: "br_inv r1" "br_bits r1 = b # bs" "valid r1 \<noteq> 0"
    using assms refill_spec [OF assms(1)] by (auto simp: r1_def br_bits_def intro!: gr0I)
  then have "bits_of (valid r1) (buffer r1) = bit (buffer r1) (valid r1 - 1) # bits_of (valid r1 - 1) (buffer r1)"
    using bits_of_Suc [of "valid r1 - 1" "buffer r1"] by simp
  with r1 have "b = bit (buffer r1) (valid r1 - 1)" "br_bits (r1\<lparr>valid := valid r1 - 1\<rparr>) = bs"
    by (auto simp: br_bits_def)
  moreover have "(drop_bit k w AND 1 \<noteq> 0) = bit w k" for k and w :: u64
    by (simp add: and_one_eq bit_iff_odd_drop_bit odd_iff_mod_2_eq_one)
  ultimately show ?thesis
    using r1 br_inv_valid [OF r1(1), of "valid r1 - 1"]
    by (simp add: br_read_bit_def Let_def r1_def [symmetric])
qed

lemma br_read_bit_Nil:
  assumes "br_inv r" "br_bits r = []" shows "br_read_bit r = Inl UnexpectedEof"
proof -
  have "valid (refill r) = 0" "valid r = 0"
    using refill_spec [OF assms(1)] assms(2) by (auto simp: br_bits_def dest!: arg_cong [of _ _ length])
  then show ?thesis by (simp add: br_read_bit_def)
qed

lemma read_bits_straddling_spec:
  assumes inv: "br_inv r" and n: "n \<le> 64" "valid r < n"
    and ready: "57 \<le> valid r \<or> stream_offset r = length (rstream r)"
  shows "if n \<le> length (br_bits r)
    then \<exists>r'. read_bits_straddling n r = Inr (of_bits (take n (br_bits r)), r') \<and> br_inv r' \<and>
           br_bits r' = drop n (br_bits r)
    else read_bits_straddling n r = Inl UnexpectedEof"
proof (cases "valid r = 0 \<or> length (rstream r) \<le> stream_offset r")
  case True
  then have "stream_offset r = length (rstream r)" using ready inv by (auto simp: br_inv_def)
  then have "length (br_bits r) = valid r" by (simp add: br_bits_def)
  with True n show ?thesis by (auto simp: read_bits_straddling_def Let_def)
next
  case False
  define rest where "rest = n - valid r"
  define hi where "hi = of_bits (take (valid r) (br_bits r))"
  obtain r1 where r1: "read_window (valid r) r = (hi, r1)" "br_inv r1"
    "br_bits r1 = drop (valid r) (br_bits r)" "valid r1 = 0" "stream_offset r1 = stream_offset r"
    unfolding hi_def by (rule read_window_spec [OF inv order_refl]) simp
  define r2 where "r2 = refill r1"
  have r2: "br_inv r2" "br_bits r2 = br_bits r1" "57 \<le> valid r2 \<or> stream_offset r2 = length (rstream r2)"
    using refill_spec [OF r1(2)] by (simp_all add: r2_def)
  have v: "57 \<le> valid r" using ready False by auto
  have rest: "rest \<le> 7" "n = valid r + rest" using v n by (auto simp: rest_def)
  have "rest \<le> valid r2 \<longleftrightarrow> rest \<le> length (br_bits r2)"
    using r2(3) rest by (auto simp: br_bits_def)
  then have enough: "rest \<le> valid r2 \<longleftrightarrow> n \<le> length (br_bits r)"
    using n by (auto simp: r2 r1 rest_def)
  have eq: "read_bits_straddling n r =
      (if valid r2 < rest then Inl UnexpectedEof
       else case read_window rest r2 of (lo, r3) \<Rightarrow> Inr (push_bit rest hi OR lo, r3))"
    using False by (auto simp: read_bits_straddling_def Let_def r1 r2_def rest_def)
  show ?thesis
  proof (cases "rest \<le> valid r2")
    case True
    obtain r3 where r3: "read_window rest r2 = (of_bits (take rest (br_bits r2)), r3)" "br_inv r3"
      "br_bits r3 = drop rest (br_bits r2)"
      by (rule read_window_spec [OF r2(1) True]) simp
    have "length (take rest (br_bits r2)) = rest"
      using True \<open>rest \<le> valid r2 \<longleftrightarrow> rest \<le> length (br_bits r2)\<close> by simp
    then have "push_bit rest hi OR of_bits (take rest (br_bits r2)) = of_bits (take n (br_bits r))"
      using of_bits_append [of "take (valid r) (br_bits r)" "take rest (br_bits r2)"]
      by (simp add: hi_def r2 r1 rest take_add)
    moreover have "br_bits r3 = drop n (br_bits r)"
      by (simp add: r3 r2 r1 rest add.commute)
    ultimately show ?thesis unfolding eq using True enough r3 by simp
  qed (use enough in \<open>auto simp: eq\<close>)
qed

lemma br_read_bits_spec:
  assumes inv: "br_inv r" and n: "n \<le> 64"
  shows "if n \<le> length (br_bits r)
    then \<exists>r'. br_read_bits n r = Inr (of_bits (take n (br_bits r)), r') \<and> br_inv r' \<and>
           br_bits r' = drop n (br_bits r)
    else br_read_bits n r = Inl UnexpectedEof"
proof -
  have window: "?thesis" if r1: "br_inv r1" "br_bits r1 = br_bits r" "n \<le> valid r1"
    and eq: "br_read_bits n r = Inr (read_window n r1)" for r1
  proof -
    have "n \<le> length (br_bits r)" using r1(2,3) by (auto simp: br_bits_def dest!: arg_cong [of _ _ length])
    moreover obtain r' where "read_window n r1 = (of_bits (take n (br_bits r1)), r')" "br_inv r'"
      "br_bits r' = drop n (br_bits r1)"
      by (rule read_window_spec [OF r1(1,3)]) simp
    ultimately show ?thesis using r1(2) eq by simp
  qed
  note rf = refill_spec [OF inv]
  consider "n \<le> valid r" | "valid r < n" "n \<le> valid (refill r)" | "valid r < n" "valid (refill r) < n"
    by linarith
  then show ?thesis
  proof cases
    case 1
    show ?thesis by (rule window [OF inv refl 1]) (use 1 in \<open>simp add: br_read_bits_def\<close>)
  next
    case 2
    show ?thesis
      by (rule window [of "refill r"]) (use 2 n rf in \<open>auto simp: br_read_bits_def Let_def\<close>)
  next
    case 3
    then have "br_read_bits n r = read_bits_straddling n (refill r)"
      using n by (simp add: br_read_bits_def Let_def)
    then show ?thesis
      using read_bits_straddling_spec [of "refill r" n] rf n 3 by (simp only: split: if_splits) auto
  qed
qed

lemma bit_read_bits_spec:
  assumes "br_inv r" "n \<le> 64" "br_bits r = xs @ ys" "length xs = n"
  shows "\<exists>r'. bit_read_bits n r = Inr (of_bits xs, r') \<and> br_inv r' \<and> br_bits r' = ys"
  using br_read_bits_spec [OF assms(1,2)] assms by (simp add: bit_read_bits_def)

text \<open>A peek is the next bits, zero-padded past the end; the peeked bits can be skipped.\<close>

lemma peek_upto_spec:
  assumes inv: "br_inv r" and n: "n \<le> 32"
  obtains r' where "peek_upto n r = (of_bits (take n (br_bits r @ replicate n False)), r')"
    "br_inv r'" "br_bits r' = br_bits r" "min n (length (br_bits r)) \<le> valid r'"
proof -
  define r1 where "r1 = (if valid r < n then refill r else r)"
  have r1: "br_inv r1" "br_bits r1 = br_bits r"
    and ready: "n \<le> valid r1 \<or> stream_offset r1 = length (rstream r1)"
    using refill_spec [OF inv] inv n by (auto simp: r1_def)
  show thesis
  proof (cases "n \<le> valid r1")
    case True
    let ?v = "drop_bit (valid r1 - n) (buffer r1)"
    have "bits_of (valid r1) (buffer r1) = bits_of n ?v @ bits_of (valid r1 - n) (buffer r1)"
      using bits_of_add_le [of "valid r1 - n" "valid r1" "buffer r1"] True by simp
    then have "take n (br_bits r1 @ replicate n False) = bits_of n ?v"
      by (simp add: br_bits_def)
    then have "peek_upto n r = (of_bits (take n (br_bits r1 @ replicate n False)), r1)"
      using True by (simp add: peek_upto_def Let_def r1_def [symmetric] take_bit_eq_mask mask_eq_exp_minus_1)
    with that [of r1] r1 True show thesis by simp
  next
    case False
    then have bits: "br_bits r1 = bits_of (valid r1) (buffer r1)"
      using ready by (simp add: br_bits_def)
    have "take n (br_bits r1 @ replicate n False) = br_bits r1 @ replicate (n - valid r1) False"
      using False by (simp add: bits min_def)
    also have "of_bits \<dots> = push_bit (n - valid r1) (take_bit (valid r1) (buffer r1))"
      using of_bits_bits_of [of "n - valid r1" 0] by (simp only: of_bits_append bits) simp
    finally have "peek_upto n r = (of_bits (take n (br_bits r1 @ replicate n False)), r1)"
      using False by (simp add: peek_upto_def Let_def r1_def [symmetric] take_bit_eq_mask mask_eq_exp_minus_1)
    with that [of r1] r1 False bits show thesis
      using length_bits_of [of "valid r1" "buffer r1"] by simp
  qed
qed

lemma br_skip_spec:
  assumes "br_inv r" "k \<le> valid r"
  shows "\<exists>r'. br_skip k r = Inr r' \<and> br_inv r' \<and> br_bits r' = drop k (br_bits r) \<and> valid r' = valid r - k"
proof -
  have "bits_of (valid r) (buffer r) = bits_of k (drop_bit (valid r - k) (buffer r)) @ bits_of (valid r - k) (buffer r)"
    using bits_of_add_le [of "valid r - k" "valid r" "buffer r"] assms by simp
  then show ?thesis using assms by (simp add: br_skip_def br_inv_valid br_bits_def)
qed

lemma br_read_f64_spec:
  assumes "br_inv r" "br_bits r = bits_of 64 x @ ys"
  shows "\<exists>r'. br_read_f64 r = Inr (x, r') \<and> br_inv r' \<and> br_bits r' = ys"
  using br_read_bits_spec [OF assms(1), of 64] assms(2) by (simp add: br_read_f64_def br_read_u64_def)

lemma br_read_byte_spec:
  assumes "br_inv r" "br_bits r = bits_of 8 b @ ys"
  shows "\<exists>r'. br_read_byte r = Inr (b, r') \<and> br_inv r' \<and> br_bits r' = ys"
proof -
  have "ucast (ucast b :: u64) = b" by (rule bit_word_eqI) (simp add: bit_simps)
  then show ?thesis
    using br_read_bits_spec [OF assms(1), of 8] assms(2) by (auto simp: br_read_byte_def of_bits_byte)
qed

lemma byte_less_0x80: "b < 0x80 \<longleftrightarrow> \<not> bit b 7" for b :: u8
proof -
  have "bit (unat b) 7 = bit b 7" by (simp add: bit_unsigned_iff)
  moreover have "unat b < 2 ^ LENGTH(8)" by (rule unsigned_less)
  then have "unat b div 128 < 2" by (simp add: less_mult_imp_div_less)
  then have "odd (unat b div 128) \<longleftrightarrow> 128 \<le> unat b"
    by (cases "unat b div 128 = 0") (auto simp: div_eq_0_iff odd_iff_mod_2_eq_one)
  then have "bit (unat b) 7 \<longleftrightarrow> 128 \<le> unat b" by (simp add: bit_iff_odd)
  ultimately show ?thesis by (auto simp: word_less_nat_alt)
qed

lemma bit_0x7F_u64: "bit (0x7F :: u64) n \<longleftrightarrow> n < 7"
proof -
  have "(0x7F :: u64) = mask 7" by (simp add: mask_eq_exp_minus_1)
  then show ?thesis by (simp only: bit_mask_iff possible_bit_word) auto
qed

lemma uvarint_more_byte:
  fixes v :: u64
  shows "\<not> (ucast v OR 0x80 :: u8) < 0x80"
    "(ucast (ucast v OR 0x80 :: u8) :: u64) AND 0x7F = take_bit 7 v"
proof -
  show "\<not> (ucast v OR 0x80 :: u8) < 0x80" by (simp only: byte_less_0x80 byte_bits) simp
  show "(ucast (ucast v OR 0x80 :: u8) :: u64) AND 0x7F = take_bit 7 v"
    by (rule bit_word_eqI) (simp only: byte_bits bit_0x7F_u64, auto)
qed

lemma uvarint_final_byte:
  fixes v :: u64 assumes "\<not> 0x80 \<le> v"
  shows "(ucast v :: u8) < 0x80" "(ucast (ucast v :: u8) :: u64) = v"
proof -
  have "unat v < 2 ^ 7" using assms by (simp add: word_le_nat_alt)
  then have b: "bit v n \<Longrightarrow> n < 7" for n by (rule bit_unat_less)
  show "(ucast v :: u8) < 0x80" by (simp only: byte_less_0x80 byte_bits) (auto dest: b)
  show "(ucast (ucast v :: u8) :: u64) = v"
    by (rule bit_word_eqI) (auto simp: bit_simps dest: b)
qed

lemma br_read_uvarint_loop_spec:
  assumes "br_inv r" "br_bits r = stream_bits (write_uvarint [] v) @ ys"
    "unat v < 2 ^ (7 * k)" "0 < k"
  shows "\<exists>r'. br_read_uvarint_loop k x s r = Inr (x OR push_bit s v, r') \<and> br_inv r' \<and> br_bits r' = ys"
  using assms
proof (induction k arbitrary: r v x s)
  case (Suc k)
  show ?case
  proof (cases "0x80 \<le> v")
    case False
    from br_read_byte_spec [OF Suc.prems(1), of "ucast v" ys] Suc.prems(2) False
    obtain r' where "br_read_byte r = Inr (ucast v, r')" "br_inv r'" "br_bits r' = ys"
      by (auto simp: write_uvarint_Nil_small)
    then show ?thesis
      by (simp only: br_read_uvarint_loop.simps bindR.simps prod.case uvarint_final_byte [OF False] if_True)
        blast
  next
    case True
    let ?b = "ucast v OR 0x80 :: u8"
    from br_read_byte_spec [OF Suc.prems(1), of ?b "stream_bits (write_uvarint [] (drop_bit 7 v)) @ ys"]
      Suc.prems(2)
    obtain r1 where r1: "br_read_byte r = Inr (?b, r1)" "br_inv r1"
      "br_bits r1 = stream_bits (write_uvarint [] (drop_bit 7 v)) @ ys"
      by (auto simp: write_uvarint_Nil_big [OF True])
    have "unat v < 2 ^ (7 * k) * 2 ^ 7" using Suc.prems(3) by (simp add: power_add)
    then have lt: "unat (drop_bit 7 v) < 2 ^ (7 * k)"
      by (simp add: drop_bit_eq_div unat_div less_mult_imp_div_less)
    have "k \<noteq> 0" using Suc.prems(3) True by (intro notI) (simp add: word_le_nat_alt)
    then have "0 < k" by simp
    from Suc.IH [OF r1(2,3) lt this, of "x OR push_bit s (take_bit 7 v)" "s + 7"]
    show ?thesis
      by (simp only: br_read_uvarint_loop.simps r1 bindR.simps prod.case uvarint_more_byte if_False
          or.assoc push_bit_low7_high)
  qed
qed simp

lemma br_read_uvarint_spec:
  assumes "br_inv r" "br_bits r = stream_bits (write_uvarint [] v) @ ys"
  shows "\<exists>r'. br_read_uvarint r = Inr (v, r') \<and> br_inv r' \<and> br_bits r' = ys"
proof -
  have "unat v < 2 ^ (7 * 10)"
    using unat_u64_less [of v] by (rule less_trans) simp
  from br_read_uvarint_loop_spec [OF assms this, of 0 0] show ?thesis
    by (simp add: br_read_uvarint_def MAX_VARINT_LEN64_def)
qed

lemma zigzag_decode_branch: "as_i64 (if w AND 1 \<noteq> 0 then NOT (drop_bit 1 w) else drop_bit 1 w) = zigzag_decode w"
proof -
  have "(w AND 1 \<noteq> 0) = bit w 0" by (simp add: and_one_eq odd_iff_mod_2_eq_one bit_0)
  moreover have "drop_bit 1 w XOR - 1 = NOT (drop_bit 1 w)"
    by (rule bit_word_eqI) (simp add: bit_simps)
  ultimately show ?thesis unfolding zigzag_decode_def zigzag_sign_mask by simp
qed

lemma br_read_varint_spec:
  assumes "br_inv r" "br_bits r = stream_bits (write_uvarint [] (zigzag_encode t)) @ ys" "is_i64 t"
  shows "\<exists>r'. br_read_varint r = Inr (t, r') \<and> br_inv r' \<and> br_bits r' = ys"
proof -
  from br_read_uvarint_spec [OF assms(1,2)] obtain r' where
    r': "br_read_uvarint r = Inr (zigzag_encode t, r')" "br_inv r'" "br_bits r' = ys" by blast
  then have "br_read_varint r = Inr (t, r')"
    unfolding br_read_varint_def Let_def r'(1) bindR.simps prod.case zigzag_decode_branch
    using assms(3) by simp
  with r' show ?thesis by simp
qed

lemma bs_write_varint_rel:
  assumes "bs_rel s bl"
  shows "\<exists>s'. bs_write_varint t s = Inr s' \<and> bs_rel s' (bl @ stream_bits (write_uvarint [] (zigzag_encode t)))"
  using bs_write_uvarint_loop_rel [OF assms, of "zigzag_encode t"]
  unfolding bs_write_varint_def bs_write_uvarint_def zigzag_encode_def [symmetric] Let_def by simp

section \<open>Persistence of the stream\<close>

lemma bs_serialize_append: "bs_serialize s dest = dest @ bs_serialize s []"
  by (cases "dest = []") (simp_all add: bs_serialize_def write_uvarint_normal)

lemma bs_rel_wf: "bs_rel s bl \<Longrightarrow> count s \<le> 8 \<and> (count s \<noteq> 0 \<longrightarrow> stream s \<noteq> [])"
  by (auto simp: bs_rel_def)

lemma bs_deserialize_steps:
  assumes "\<not> 8 < c" "unat l \<le> length src" "c \<noteq> 0 \<longrightarrow> unat l \<noteq> 0"
  shows "bs_deserialize (write_uvarint [] c @ write_uvarint [] l @ src) =
    Inr (\<lparr>stream = take (unat l) src, count = unat c, soft_cap = usize_max\<rparr>, drop (unat l) src)"
  unfolding bs_deserialize_def try_read_write_uvarint map_err.simps bindR.simps prod.case Let_def
  using assms by auto

lemma bs_deserialize_serialize:
  assumes "count s \<le> 8" "count s \<noteq> 0 \<longrightarrow> stream s \<noteq> []" "length (stream s) < 2 ^ 64"
  shows "\<exists>s'. bs_deserialize (bs_serialize s [] @ rest) = Inr (s', rest) \<and> bs_eq s' s"
proof -
  define c l :: u64 where "c = word_of_nat (count s)" and "l = word_of_nat (length (stream s))"
  have c: "unat c = count s" and l: "unat l = length (stream s)"
    unfolding c_def l_def using assms by (intro unat_word_of_nat_64; simp)+
  have "bs_serialize s [] @ rest = write_uvarint [] c @ write_uvarint [] l @ stream s @ rest"
    unfolding bs_serialize_def c_def [symmetric] l_def [symmetric]
    by (subst write_uvarint_append) simp
  moreover have "\<not> 8 < c" using assms(1) by (simp add: word_less_nat_alt c)
  moreover have "c \<noteq> 0 \<longrightarrow> unat l \<noteq> 0" using assms(2) c l by (auto simp: word_unat_eq_iff)
  ultimately show ?thesis
    using bs_deserialize_steps [of c l "stream s @ rest"] by (simp add: c l bs_eq_def)
qed

text \<open>No stream with bits claimed in a byte it does not have gets through either load path.\<close>

lemma count_word_le: "\<not> 8 < c \<Longrightarrow> unat c \<le> 8" for c :: u64
  by (simp add: word_less_nat_alt)

lemma bs_deserialize_wf:
  assumes "bs_deserialize src = Inr (s, rest)"
  shows "count s \<le> 8 \<and> (count s \<noteq> 0 \<longrightarrow> stream s \<noteq> [])"
proof -
  obtain c src1 where 1: "try_read_uvarint src = Inr (c, src1)"
    using assms by (cases "try_read_uvarint src") (auto simp: bs_deserialize_def)
  have c: "\<not> 8 < c" using assms by (auto simp: bs_deserialize_def 1)
  obtain l src2 where 2: "try_read_uvarint src1 = Inr (l, src2)"
    using assms c by (cases "try_read_uvarint src1") (auto simp: bs_deserialize_def 1)
  have "unat l \<le> length src2" "\<not> (c \<noteq> 0 \<and> unat l = 0)"
    "s = \<lparr>stream = take (unat l) src2, count = unat c, soft_cap = usize_max\<rparr>"
    using assms c by (simp_all add: bs_deserialize_def 1 2 Let_def split: if_splits)
  then show ?thesis using count_word_le [OF c] by auto
qed

lemma validate_rdb_state_wf:
  assumes "validate_rdb_state bytes c = Inr n"
  shows "n \<le> 8 \<and> (n \<noteq> 0 \<longrightarrow> bytes \<noteq> []) \<and> n = unat c"
proof -
  have "\<not> 8 < c" "\<not> (c \<noteq> 0 \<and> bytes = [])" "n = unat c"
    using assms by (simp_all add: validate_rdb_state_def split: if_splits)
  then show ?thesis using count_word_le [of c] by auto
qed

text \<open>While the data fits the budget and its slack, so does the allocation.\<close>

lemma grow_target_within_budget:
  assumes "len + need \<le> saturating_add budget SOFT_CAP_SLACK"
  shows "grow_target len cap budget need \<le> saturating_add budget SOFT_CAP_SLACK"
    "len + need \<le> grow_target len cap budget need"
  using assms by (simp_all add: grow_target_def Let_def)

section \<open>The traits\<close>

text \<open>\<open>BitWrite\<close>: a writer with an abstract bit list that every write extends.\<close>

locale bit_write =
  fixes wr_bit :: "bool \<Rightarrow> 'w \<Rightarrow> io_error + 'w"
    and wr_bits :: "nat \<Rightarrow> u64 \<Rightarrow> 'w \<Rightarrow> io_error + 'w"
    and rel :: "'w \<Rightarrow> bool list \<Rightarrow> bool"
  assumes wr_bit: "rel w bl \<Longrightarrow> \<exists>w'. wr_bit b w = Inr w' \<and> rel w' (bl @ [b])"
    and wr_bits: "rel w bl \<Longrightarrow> n \<le> 64 \<Longrightarrow> \<exists>w'. wr_bits n v w = Inr w' \<and> rel w' (bl @ bits_of n v)"

text \<open>\<open>BitRead\<close>: a reader with an abstract bit list that every read consumes from the front.\<close>

locale bit_read =
  fixes rd_bit :: "'r \<Rightarrow> io_error + (bool \<times> 'r)"
    and rd_bits :: "nat \<Rightarrow> 'r \<Rightarrow> io_error + (u64 \<times> 'r)"
    and inv :: "'r \<Rightarrow> bool"
    and bits :: "'r \<Rightarrow> bool list"
  assumes rd_bit: "inv r \<Longrightarrow> bits r = b # bs \<Longrightarrow> \<exists>r'. rd_bit r = Inr (b, r') \<and> inv r' \<and> bits r' = bs"
    and rd_bit_eof: "inv r \<Longrightarrow> bits r = [] \<Longrightarrow> \<exists>e. rd_bit r = Inl e"
    and rd_bits: "inv r \<Longrightarrow> length xs \<le> 64 \<Longrightarrow> bits r = xs @ ys \<Longrightarrow>
      \<exists>r'. rd_bits (length xs) r = Inr (of_bits xs, r') \<and> inv r' \<and> bits r' = ys"
    and rd_bits_eof: "inv r \<Longrightarrow> length (bits r) < n \<Longrightarrow> \<exists>e. rd_bits n r = Inl e"

interpretation bsw: bit_write bs_write_bit bs_write_bits bs_rel
  by unfold_locales (simp_all add: bs_write_bit_def write_bit_raw_rel bs_write_bits_rel)

interpretation brr: bit_read br_read_bit bit_read_bits br_inv br_bits
proof (unfold_locales, goal_cases)
  case (3 r xs ys)
  then show ?case by (intro bit_read_bits_spec) simp_all
next
  case (4 r n)
  then show ?case using br_read_bits_spec [of r n] by (cases "n \<le> 64") (simp_all add: bit_read_bits_def)
qed (simp_all add: br_read_bit_Cons br_read_bit_Nil)

end
