(* ===== verification/Varbit.thy ===== *)
theory Varbit
  imports BitIO
begin

text \<open>
  \<open>src/series/chunks/stream/varbit.rs\<close> and \<open>gorilla/varbit_xor.rs\<close>: the bucketed encoding of
  delta-of-deltas and the XOR encoding of values. The functions are generic in the trait
  \<open>BitWrite\<close> or \<open>BitRead\<close>; here they take the trait's methods as arguments, and their round
  trips are proved in the locales of the traits.
\<close>

section \<open>Definitions\<close>

definition read_bool :: "('r \<Rightarrow> io_error + (bool \<times> 'r)) \<Rightarrow> 'r \<Rightarrow> io_error + (bool \<times> 'r)" where
  "read_bool rd_bit r = (case rd_bit r of Inr v \<Rightarrow> Inr v | Inl e \<Rightarrow> Inl e)"

definition read_bits :: "(nat \<Rightarrow> 'r \<Rightarrow> io_error + (u64 \<times> 'r)) \<Rightarrow> nat \<Rightarrow> 'r \<Rightarrow> io_error + (u64 \<times> 'r)" where
  "read_bits rd_bits n r = (case rd_bits n r of Inr v \<Rightarrow> Inr v | Inl e \<Rightarrow> Inl e)"

definition write_varbit ::
  "(bool \<Rightarrow> 'w \<Rightarrow> io_error + 'w) \<Rightarrow> (nat \<Rightarrow> u64 \<Rightarrow> 'w \<Rightarrow> io_error + 'w) \<Rightarrow> int \<Rightarrow> 'w \<Rightarrow> io_error + 'w" where
  "write_varbit wr_bit wr x w =
     (let v = as_u64 x in
      if x = 0 then wr_bit False w
      else if - 3 \<le> x \<and> x \<le> 3 then wr 7 (push_bit 5 2 OR (v AND 0x1F)) w
      else if - 31 \<le> x \<and> x \<le> 31 then wr 12 (push_bit 9 6 OR (v AND 0x1FF)) w
      else if - 255 \<le> x \<and> x \<le> 255 then wr 17 (push_bit 13 14 OR (v AND 0x1FFF)) w
      else if - 2047 \<le> x \<and> x \<le> 2047 then wr 22 (push_bit 17 30 OR (v AND 0x1FFFF)) w
      else if - 131071 \<le> x \<and> x \<le> 131071 then wr 30 (push_bit 24 62 OR (v AND 0xFFFFFF)) w
      else if - 16777215 \<le> x \<and> x \<le> 16777215 then wr 39 (push_bit 32 126 OR (v AND 0xFFFFFFFF)) w
      else if - 36028797018963967 \<le> x \<and> x \<le> 36028797018963967
        then wr 64 (push_bit 56 254 OR (v AND 0xFFFFFFFFFFFFFF)) w
      else bindR (wr 8 255 w) (wr 64 v))"

fun varbit_bucket_loop :: "('r \<Rightarrow> io_error + (bool \<times> 'r)) \<Rightarrow> nat list \<Rightarrow> 'r \<Rightarrow> io_error + (nat \<times> 'r)" where
  "varbit_bucket_loop rd_bit [] r = Inr (8, r)"
| "varbit_bucket_loop rd_bit (i # is) r =
     bindR (read_bool rd_bit r) (\<lambda>(b, r1). if \<not> b then Inr (i, r1) else varbit_bucket_loop rd_bit is r1)"

definition read_varbit_int_bucket :: "('r \<Rightarrow> io_error + (bool \<times> 'r)) \<Rightarrow> 'r \<Rightarrow> io_error + (nat \<times> 'r)" where
  "read_varbit_int_bucket rd_bit r = varbit_bucket_loop rd_bit [0..<8] r"

text \<open>The buckets are 0 to 8 (\<open>read_varbit_int_bucket_le\<close>), so the \<open>unreachable!\<close> arm is not modelled.\<close>

definition varbit_bucket_to_num_bits :: "nat \<Rightarrow> nat" where
  "varbit_bucket_to_num_bits bucket =
     (if bucket = 0 then 0 else if bucket = 1 then 5 else if bucket = 2 then 9
      else if bucket = 3 then 13 else if bucket = 4 then 17 else if bucket = 5 then 24
      else if bucket = 6 then 32 else if bucket = 7 then 56 else 64)"

definition read_varbit_int ::
  "('r \<Rightarrow> io_error + (bool \<times> 'r)) \<Rightarrow> (nat \<Rightarrow> 'r \<Rightarrow> io_error + (u64 \<times> 'r)) \<Rightarrow> 'r \<Rightarrow> io_error + (int \<times> 'r)" where
  "read_varbit_int rd_bit rd_bits r =
     bindR (read_varbit_int_bucket rd_bit r) (\<lambda>(bucket, r1).
       let num_bits = varbit_bucket_to_num_bits bucket in
       if bucket = 0 then Inr (0, r1)
       else bindR (read_bits rd_bits num_bits r1) (\<lambda>(v, r2).
         if num_bits \<noteq> 64 \<and> push_bit (num_bits - 1) 1 < v then Inr (sign_extend v num_bits, r2)
         else Inr (as_i64 v, r2)))"

definition leading_zeros :: "u64 \<Rightarrow> nat" where
  "leading_zeros w = length (takeWhile Not (bits_of 64 w))"

definition trailing_zeros :: "u64 \<Rightarrow> nat" where
  "trailing_zeros w = length (takeWhile Not (rev (bits_of 64 w)))"

text \<open>The \<open>u8\<close> bit counts are naturals; the writer's marker for "no window yet" is 255.\<close>

definition write_varbit_xor ::
  "(bool \<Rightarrow> 'w \<Rightarrow> io_error + 'w) \<Rightarrow> (nat \<Rightarrow> u64 \<Rightarrow> 'w \<Rightarrow> io_error + 'w) \<Rightarrow>
   f64 \<Rightarrow> f64 \<Rightarrow> nat \<Rightarrow> nat \<Rightarrow> 'w \<Rightarrow> io_error + ((nat \<times> nat) \<times> 'w)" where
  "write_varbit_xor wr_bit wr x prev prev_leading prev_trailing w =
     (let delta = x XOR prev in
      if delta = 0 then map_ok (\<lambda>w1. ((prev_leading, prev_trailing), w1)) (wr_bit False w)
      else
        let new_leading0 = leading_zeros delta;
            new_trailing = trailing_zeros delta;
            new_leading = (if 32 \<le> new_leading0 then 31 else new_leading0)
        in if prev_leading \<noteq> 255 \<and> prev_leading \<le> new_leading \<and> prev_trailing \<le> new_trailing then
             let sig = 64 - prev_leading - prev_trailing;
                 payload = drop_bit prev_trailing delta
             in map_ok (\<lambda>w1. ((prev_leading, prev_trailing), w1))
                  (if sig \<le> 62 then wr (2 + sig) (push_bit sig 2 OR payload) w
                   else bindR (wr 2 2 w) (wr sig payload))
           else
             let sig_bits = 64 - new_leading - new_trailing;
                 encoded_sig_bits = (if 63 < sig_bits then 0 else sig_bits);
                 header = push_bit 11 3 OR push_bit 6 (word_of_nat new_leading) OR word_of_nat encoded_sig_bits;
                 payload = drop_bit new_trailing delta
             in map_ok (\<lambda>w1. ((new_leading, new_trailing), w1))
                  (if sig_bits \<le> 51 then wr (13 + sig_bits) (push_bit sig_bits header OR payload) w
                   else bindR (wr 13 header w) (wr sig_bits payload)))"

definition read_leading_bits_count :: "(nat \<Rightarrow> 'r \<Rightarrow> io_error + (u64 \<times> 'r)) \<Rightarrow> 'r \<Rightarrow> io_error + (nat \<times> 'r)" where
  "read_leading_bits_count rd_bits r = map_ok (\<lambda>(v, r1). (unat (ucast v :: u8), r1)) (read_bits rd_bits 5 r)"

definition read_middle_bits_count :: "(nat \<Rightarrow> 'r \<Rightarrow> io_error + (u64 \<times> 'r)) \<Rightarrow> 'r \<Rightarrow> io_error + (nat \<times> 'r)" where
  "read_middle_bits_count rd_bits r =
     bindR (map_ok (\<lambda>(v, r1). (unat (ucast v :: u8), r1)) (read_bits rd_bits 6 r)) (\<lambda>(n, r1).
       if n = 0 then Inr (64, r1) else Inr (n, r1))"

definition read_varbit_xor ::
  "('r \<Rightarrow> io_error + (bool \<times> 'r)) \<Rightarrow> (nat \<Rightarrow> 'r \<Rightarrow> io_error + (u64 \<times> 'r)) \<Rightarrow>
   'r \<Rightarrow> f64 \<Rightarrow> nat \<Rightarrow> nat \<Rightarrow> io_error + ((f64 \<times> nat \<times> nat) \<times> 'r)" where
  "read_varbit_xor rd_bit rd_bits r prev prev_leading prev_trailing =
     bindR (read_bool rd_bit r) (\<lambda>(different, r1).
       if \<not> different then Inr ((prev, prev_leading, prev_trailing), r1)
       else bindR (read_bool rd_bit r1) (\<lambda>(new_window, r2).
         bindR
           (if new_window then
              bindR (read_leading_bits_count rd_bits r2) (\<lambda>(leading, r3).
              bindR (read_middle_bits_count rd_bits r3) (\<lambda>(middle, r4).
                if 64 < leading + middle
                then Inl (InvalidData ''corrupt gorilla chunk: leading + middle bit counts exceed 64'')
                else Inr (leading, middle, 64 - leading - middle, r4)))
            else Inr (prev_leading, 64 - prev_leading - prev_trailing, prev_trailing, r2))
           (\<lambda>(leading, middle, trailing, r5).
             bindR (read_bits rd_bits middle r5) (\<lambda>(value_bits, r6).
               Inr ((prev XOR push_bit trailing value_bits, leading, trailing), r6)))))"

section \<open>Delta-of-deltas\<close>

lemma read_bool_eq [simp]: "read_bool rd_bit r = rd_bit r"
  by (simp add: read_bool_def split: sum.split)

lemma read_bits_eq [simp]: "read_bits rd_bits n r = rd_bits n r"
  by (simp add: read_bits_def split: sum.split)

text \<open>The bits of one delta-of-delta: a unary bucket and the low bits of the value.\<close>

definition varbit_bucket :: "int \<Rightarrow> nat" where
  "varbit_bucket x =
     (if x = 0 then 0 else if \<bar>x\<bar> \<le> 3 then 1 else if \<bar>x\<bar> \<le> 31 then 2 else if \<bar>x\<bar> \<le> 255 then 3
      else if \<bar>x\<bar> \<le> 2047 then 4 else if \<bar>x\<bar> \<le> 131071 then 5 else if \<bar>x\<bar> \<le> 16777215 then 6
      else if \<bar>x\<bar> \<le> 36028797018963967 then 7 else 8)"

definition varbit_bits :: "int \<Rightarrow> bool list" where
  "varbit_bits x =
     (let b = varbit_bucket x in
      replicate b True @ (if b = 8 then [] else [False]) @ bits_of (varbit_bucket_to_num_bits b) (as_u64 x))"

lemma varbit_range: "(- k \<le> x \<and> x \<le> k) = (\<bar>x\<bar> \<le> k)" for x k :: int
  by auto

lemma of_bits_payload:
  "of_bits (xs @ bits_of k v) = push_bit k (of_bits xs) OR (v AND mask k)"
  by (simp add: of_bits_append take_bit_eq_mask)

lemma varbit_masks:
  "(0x1F :: u64) = mask 5" "(0x1FF :: u64) = mask 9" "(0x1FFF :: u64) = mask 13"
  "(0x1FFFF :: u64) = mask 17" "(0xFFFFFF :: u64) = mask 24" "(0xFFFFFFFF :: u64) = mask 32"
  "(0xFFFFFFFFFFFFFF :: u64) = mask 56"
  by (simp_all add: mask_eq_exp_minus_1)

lemma of_bits_prefixes:
  "of_bits [True, False] = 2" "of_bits (replicate 2 True @ [False]) = 6"
  "of_bits (replicate 3 True @ [False]) = 14" "of_bits (replicate 4 True @ [False]) = 30"
  "of_bits (replicate 5 True @ [False]) = 62" "of_bits (replicate 6 True @ [False]) = 126"
  "of_bits (replicate 7 True @ [False]) = 254"
  by (simp_all add: of_bits_def eval_nat_numeral)

lemma varbit_bits_bucket:
  assumes "varbit_bucket x \<noteq> 8" "k = varbit_bucket_to_num_bits (varbit_bucket x)"
  shows "varbit_bits x = (replicate (varbit_bucket x) True @ [False]) @ bits_of k (as_u64 x)"
  using assms by (simp add: varbit_bits_def Let_def)

lemma varbit_bucket_cases:
  obtains "varbit_bucket x = 0" "x = 0" | "varbit_bucket x = 1" "x \<noteq> 0" "\<bar>x\<bar> \<le> 3"
    | "varbit_bucket x = 2" "3 < \<bar>x\<bar>" "\<bar>x\<bar> \<le> 31" | "varbit_bucket x = 3" "31 < \<bar>x\<bar>" "\<bar>x\<bar> \<le> 255"
    | "varbit_bucket x = 4" "255 < \<bar>x\<bar>" "\<bar>x\<bar> \<le> 2047"
    | "varbit_bucket x = 5" "2047 < \<bar>x\<bar>" "\<bar>x\<bar> \<le> 131071"
    | "varbit_bucket x = 6" "131071 < \<bar>x\<bar>" "\<bar>x\<bar> \<le> 16777215"
    | "varbit_bucket x = 7" "16777215 < \<bar>x\<bar>" "\<bar>x\<bar> \<le> 36028797018963967"
    | "varbit_bucket x = 8" "36028797018963967 < \<bar>x\<bar>"
  unfolding varbit_bucket_def by (smt (verit))

text \<open>Every bucket but the last is one write of its prefix and payload.\<close>

lemma write_varbit_eq:
  "write_varbit wr_bit wr x w =
     (if x = 0 then wr_bit False w
      else if varbit_bucket x = 8 then bindR (wr 8 255 w) (wr 64 (as_u64 x))
      else wr (length (varbit_bits x)) (of_bits (varbit_bits x)) w)"
proof -
  let ?b = "varbit_bucket x" and ?v = "as_u64 x"
  have word: "of_bits (varbit_bits x) = push_bit k c OR (?v AND mask k)"
    "length (varbit_bits x) = ?b + 1 + k"
    if "?b \<noteq> 8" "k = varbit_bucket_to_num_bits ?b" "of_bits (replicate ?b True @ [False]) = c" for k c
    unfolding varbit_bits_bucket [OF that(1,2)] of_bits_payload using that(3) by simp_all
  show ?thesis
    unfolding write_varbit_def Let_def varbit_range varbit_masks
    by (rule varbit_bucket_cases [of x])
      (simp_all add: word varbit_bucket_to_num_bits_def of_bits_prefixes del: push_bit_numeral)
qed

context bit_write
begin

lemma wr_bits_two:
  assumes "rel w bl" "m \<le> 64" "n \<le> 64"
  shows "\<exists>w'. bindR (wr_bits m u w) (wr_bits n v) = Inr w' \<and> rel w' (bl @ bits_of m u @ bits_of n v)"
proof -
  obtain w1 where w1: "wr_bits m u w = Inr w1" "rel w1 (bl @ bits_of m u)" using wr_bits assms by blast
  obtain w2 where "wr_bits n v w1 = Inr w2" "rel w2 ((bl @ bits_of m u) @ bits_of n v)"
    using wr_bits w1 assms by blast
  with w1 show ?thesis by simp
qed

lemma write_varbit_spec:
  assumes "rel w bl"
  shows "\<exists>w'. write_varbit wr_bit wr_bits x w = Inr w' \<and> rel w' (bl @ varbit_bits x)"
proof -
  consider "x = 0" | "x \<noteq> 0" "varbit_bucket x = 8" | "x \<noteq> 0" "varbit_bucket x \<noteq> 8" by blast
  then show ?thesis
  proof cases
    case 1
    then show ?thesis using wr_bit [OF assms, of False]
      by (simp add: write_varbit_eq varbit_bits_def varbit_bucket_def varbit_bucket_to_num_bits_def)
  next
    case 2
    have "bits_of 8 (255 :: u64) = replicate 8 True" by (simp add: bits_of_def upt_rec eval_nat_numeral)
    with 2 show ?thesis using wr_bits_two [OF assms, of 8 64 255 "as_u64 x"]
      by (simp add: write_varbit_eq varbit_bits_def varbit_bucket_to_num_bits_def)
  next
    case 3
    have "length (varbit_bits x) \<le> 64"
      unfolding varbit_bits_bucket [OF 3(2) refl]
      using 3 by (simp add: varbit_bucket_def varbit_bucket_to_num_bits_def split: if_splits)
    with 3 show ?thesis using wr_bits [OF assms, of "length (varbit_bits x)" "of_bits (varbit_bits x)"]
      by (simp add: write_varbit_eq bits_of_of_bits)
  qed
qed

end

lemma take_bit_as_u64: "n \<le> 64 \<Longrightarrow> uint (take_bit n (as_u64 x)) = x mod 2 ^ n"
  by (simp add: as_u64_def unsigned_take_bit_eq uint_word_of_int_eq min_def flip: take_bit_eq_mod)

lemma mod_neg_shift: "x < 0 \<Longrightarrow> - m \<le> x \<Longrightarrow> x mod m = x + m" for x m :: int
  using mod_pos_pos_trivial [of "x + m" m] by simp

text \<open>The sign test of the reader is right because no bucket holds the least value of its width.\<close>

lemma varbit_payload_decode:
  assumes n: "0 < n" "n < 64" and x: "\<bar>x\<bar> < 2 ^ (n - 1)"
  shows "(if push_bit (n - 1) 1 < take_bit n (as_u64 x) then sign_extend (take_bit n (as_u64 x)) n
          else as_i64 (take_bit n (as_u64 x))) = x"
proof -
  let ?v = "take_bit n (as_u64 x)"
  have v: "uint ?v = x mod 2 ^ n" using n by (simp add: take_bit_as_u64)
  have two: "(2::int) ^ n = 2 * 2 ^ (n - 1)" using n by (metis power_eq_if less_numeral_extra(3))
  have small: "(2::int) ^ (n - 1) \<le> 2 ^ 62" using n by (intro power_increasing) auto
  have "(push_bit (n - 1) 1 :: u64) = as_u64 (2 ^ (n - 1))" by (simp add: as_u64_def)
  then have m: "uint (push_bit (n - 1) 1 :: u64) = 2 ^ (n - 1)"
    using small take_bit_as_u64 [of 64 "2 ^ (n - 1)"] by simp
  show ?thesis
  proof (cases "0 \<le> x")
    case True
    then have "uint ?v = x" using x two v by simp
    moreover have "is_i64 x" using small x by (simp add: is_i64_def i64_min_def i64_max_def) linarith
    moreover have "?v = as_u64 x"
      using \<open>uint ?v = x\<close> by (metis as_u64_def word_of_int_uint)
    ultimately have "uint ?v = x" "as_i64 ?v = x"
      by (simp_all add: as_i64_as_u64)
    moreover have "\<not> push_bit (n - 1) 1 < ?v"
      unfolding word_less_def m using x \<open>uint ?v = x\<close> by linarith
    ultimately show ?thesis by (simp only: if_False)
  next
    case False
    then have "x < 0" "- (2 ^ n) \<le> x" using x two by linarith+
    then have "uint ?v = x + 2 ^ n" unfolding v by (rule mod_neg_shift)
    then have "push_bit (n - 1) 1 < ?v" using x two m by (simp add: word_less_def)
    then show ?thesis using sign_extend_take_bit [of n x] n x by simp
  qed
qed

text \<open>The width of each bucket leaves room above its range.\<close>

lemma varbit_bucket_width:
  assumes "varbit_bucket x \<noteq> 0" "varbit_bucket x \<noteq> 8" "n = varbit_bucket_to_num_bits (varbit_bucket x)"
  shows "0 < n \<and> n < 64 \<and> \<bar>x\<bar> < 2 ^ (n - 1)"
  using assms by (cases rule: varbit_bucket_cases [of x]) (simp_all add: varbit_bucket_to_num_bits_def)

lemma varbit_bucket_le: "varbit_bucket x \<le> 8"
  by (simp add: varbit_bucket_def)

context bit_read
begin

lemma varbit_bucket_loop_spec:
  assumes "inv r" "j \<le> length is" "bits r = replicate j True @ (if j = length is then [] else [False]) @ ys"
  shows "\<exists>r'. varbit_bucket_loop rd_bit is r = Inr (if j = length is then 8 else is ! j, r') \<and> inv r' \<and> bits r' = ys"
  using assms
proof (induction "is" arbitrary: r j)
  case (Cons i "is")
  show ?case
  proof (cases j)
    case 0
    with Cons.prems rd_bit [OF Cons.prems(1), of False ys] show ?thesis by auto
  next
    case (Suc k)
    with Cons.prems rd_bit [OF Cons.prems(1), of True] obtain r1 where r1: "rd_bit r = Inr (True, r1)" "inv r1"
      "bits r1 = replicate k True @ (if k = length is then [] else [False]) @ ys" by auto
    with Cons.IH [OF r1(2) _ r1(3)] Cons.prems(2) Suc show ?thesis by auto
  qed
qed simp

lemma varbit_bucket_loop_le:
  "\<forall>i\<in>set is. i \<le> 8 \<Longrightarrow> varbit_bucket_loop rd_bit is r = Inr (b, r') \<Longrightarrow> b \<le> 8"
  by (induction "is" arbitrary: r) (auto simp: result_iffs split: if_splits)

lemma read_varbit_int_bucket_le: "read_varbit_int_bucket rd_bit r = Inr (b, r') \<Longrightarrow> b \<le> 8"
  unfolding read_varbit_int_bucket_def by (rule varbit_bucket_loop_le [of "[0..<8]"]) auto

lemma read_varbit_int_spec:
  assumes "inv r" "bits r = varbit_bits x @ ys" "is_i64 x"
  shows "\<exists>r'. read_varbit_int rd_bit rd_bits r = Inr (x, r') \<and> inv r' \<and> bits r' = ys"
proof -
  let ?b = "varbit_bucket x"
  define n where "n = varbit_bucket_to_num_bits ?b"
  obtain r1 where "varbit_bucket_loop rd_bit [0..<8] r = Inr (if ?b = 8 then 8 else [0..<8] ! ?b, r1)"
    and r1: "inv r1" "bits r1 = bits_of n (as_u64 x) @ ys"
    using varbit_bucket_loop_spec [of r ?b "[0..<8]" "bits_of n (as_u64 x) @ ys"] assms varbit_bucket_le [of x]
    by (auto simp: varbit_bits_def Let_def n_def)
  then have b: "read_varbit_int_bucket rd_bit r = Inr (?b, r1)"
    using varbit_bucket_le [of x] by (simp add: read_varbit_int_bucket_def split: if_splits)
  show ?thesis
  proof (cases "?b = 0")
    case True
    then have "x = 0" "n = 0" by (simp_all add: n_def varbit_bucket_to_num_bits_def varbit_bucket_def split: if_splits)
    with True b r1 show ?thesis by (simp add: read_varbit_int_def)
  next
    case False
    have n: "n \<le> 64" by (simp add: n_def varbit_bucket_to_num_bits_def)
    then obtain r2 where r2: "rd_bits n r1 = Inr (take_bit n (as_u64 x), r2)" "inv r2" "bits r2 = ys"
      using rd_bits [OF r1(1) _ r1(2)] by auto
    have eq: "read_varbit_int rd_bit rd_bits r =
        (if n \<noteq> 64 \<and> push_bit (n - 1) 1 < take_bit n (as_u64 x)
         then Inr (sign_extend (take_bit n (as_u64 x)) n, r2) else Inr (as_i64 (take_bit n (as_u64 x)), r2))"
      using False by (simp add: read_varbit_int_def b r2 n_def [symmetric])
    show ?thesis
    proof (cases "?b = 8")
      case True
      then have "n = 64" by (simp add: n_def varbit_bucket_to_num_bits_def)
      then show ?thesis using r2 assms(3) by (simp add: eq as_i64_as_u64)
    next
      case b8: False
      note w = varbit_bucket_width [OF False b8 n_def]
      have "read_varbit_int rd_bit rd_bits r = Inr (x, r2)"
        using varbit_payload_decode [of n x] w unfolding eq by (auto split: if_splits)
      with r2 show ?thesis by simp
    qed
  qed
qed

end

section \<open>XOR of values\<close>

lemma bit_leading_zeros: "bit w i \<Longrightarrow> i + leading_zeros w < 64"
proof (rule ccontr)
  assume "bit w i" "\<not> i + leading_zeros w < 64"
  moreover have "i < 64" using bit_imp_le_length [OF \<open>bit w i\<close>] by simp
  ultimately have "63 - i < leading_zeros w" "bits_of 64 w ! (63 - i)" by (auto simp: nth_bits_of)
  then show False unfolding leading_zeros_def
    by (metis nth_mem set_takeWhileD takeWhile_nth)
qed

lemma bit_trailing_zeros: "bit w i \<Longrightarrow> trailing_zeros w \<le> i"
proof (rule ccontr)
  assume "bit w i" "\<not> trailing_zeros w \<le> i"
  moreover have "i < 64" using bit_imp_le_length [OF \<open>bit w i\<close>] by simp
  ultimately have "i < trailing_zeros w" "rev (bits_of 64 w) ! i" by (auto simp: rev_nth nth_bits_of)
  then show False unfolding trailing_zeros_def
    by (metis nth_mem set_takeWhileD takeWhile_nth)
qed

lemma zeros_less: "w \<noteq> 0 \<Longrightarrow> leading_zeros w + trailing_zeros w < 64"
proof -
  assume "w \<noteq> 0"
  then obtain i where "bit w i" by (metis bit_eqI bit_0_eq bot_apply bot_bool_def)
  then show ?thesis using bit_leading_zeros [of w i] bit_trailing_zeros [of w i] by linarith
qed

text \<open>A word is its middle bits, when the window leaves out only zeros.\<close>

lemma window_word:
  assumes "l \<le> leading_zeros w" "t \<le> trailing_zeros w"
  shows "take_bit (64 - l - t) (drop_bit t w) = drop_bit t w" "push_bit t (drop_bit t w) = w"
proof -
  have b: "t \<le> i \<and> i + l < 64" if "bit w i" for i
    using bit_leading_zeros [OF that] bit_trailing_zeros [OF that] assms by linarith
  show "take_bit (64 - l - t) (drop_bit t w) = drop_bit t w"
    by (rule bit_word_eqI) (use b in \<open>force simp: bit_simps\<close>)
  show "push_bit t (drop_bit t w) = w"
    by (rule bit_word_eqI) (use b in \<open>force simp: bit_simps\<close>)
qed

definition reuse_window :: "u64 \<Rightarrow> nat \<Rightarrow> nat \<Rightarrow> bool" where
  "reuse_window delta l t \<longleftrightarrow> l \<noteq> 255 \<and> l \<le> min (leading_zeros delta) 31 \<and> t \<le> trailing_zeros delta"

definition next_window :: "u64 \<Rightarrow> nat \<Rightarrow> nat \<Rightarrow> nat \<times> nat" where
  "next_window delta l t =
     (if delta = 0 \<or> reuse_window delta l t then (l, t) else (min (leading_zeros delta) 31, trailing_zeros delta))"

definition window_bits :: "u64 \<Rightarrow> nat \<Rightarrow> nat \<Rightarrow> bool list" where
  "window_bits delta l t = bits_of (64 - l - t) (drop_bit t delta)"

definition xor_bits :: "u64 \<Rightarrow> nat \<Rightarrow> nat \<Rightarrow> bool list" where
  "xor_bits delta l t =
     (if delta = 0 then [False]
      else if reuse_window delta l t then [True, False] @ window_bits delta l t
      else let l' = min (leading_zeros delta) 31; t' = trailing_zeros delta; sig = 64 - l' - t' in
        [True, True] @ bits_of 5 (word_of_nat l' :: u64) @ bits_of 6 (word_of_nat (if 63 < sig then 0 else sig) :: u64)
          @ window_bits delta l' t')"

lemma bits_of_prefix_payload:
  fixes c v :: u64
  assumes "p + k \<le> 64" "take_bit k v = v"
  shows "bits_of (p + k) (push_bit k c OR v) = bits_of p c @ bits_of k v"
proof -
  have "bits_of p (drop_bit k (push_bit k c OR take_bit k v)) = bits_of p c"
    using assms(1) by (intro bits_of_cong) (auto simp: bit_simps)
  moreover have "bits_of k (push_bit k c OR take_bit k v) = bits_of k v"
    using assms(1) by (intro bits_of_cong) (auto simp: bit_simps)
  ultimately show ?thesis using assms(2) by (simp add: bits_of_add)
qed

lemma small_word_of_nat:
  assumes "k < 2 ^ n" "n \<le> 64"
  shows "take_bit n (word_of_nat k :: u64) = word_of_nat k" "unat (word_of_nat k :: u64) = k"
proof -
  have "(2::nat) ^ n \<le> 2 ^ 64" using assms(2) by (intro power_increasing) auto
  then show u: "unat (word_of_nat k :: u64) = k" using assms by (intro unat_word_of_nat_64) simp
  show "take_bit n (word_of_nat k :: u64) = word_of_nat k"
    using assms(1) u by (simp add: take_bit_eq_self_iff_unat)
qed

lemma xor_header_bits:
  fixes a b :: u64
  assumes "take_bit 5 a = a" "take_bit 6 b = b"
  shows "bits_of 13 (push_bit 11 3 OR push_bit 6 a OR b) = [True, True] @ bits_of 5 a @ bits_of 6 b"
proof -
  have "push_bit 11 3 OR push_bit 6 a OR b = push_bit 6 (push_bit 5 3 OR a) OR b"
    by (rule bit_word_eqI) (auto simp: bit_simps)
  then have "bits_of (7 + 6) (push_bit 11 3 OR push_bit 6 a OR b) = bits_of 7 (push_bit 5 3 OR a) @ bits_of 6 b"
    using bits_of_prefix_payload [of 7 6 b "push_bit 5 3 OR a"] assms(2) by simp
  moreover have "bits_of (2 + 5) (push_bit 5 3 OR a) = bits_of 2 (3 :: u64) @ bits_of 5 a"
    using bits_of_prefix_payload [of 2 5 a 3] assms(1) by simp
  moreover have "bits_of 2 (3 :: u64) = [True, True]" by (simp add: bits_of_def upt_rec)
  ultimately show ?thesis by simp
qed

lemma xor_header_fields:
  fixes delta :: u64
  assumes "delta \<noteq> 0" "l = min (leading_zeros delta) 31" "t = trailing_zeros delta" "sig = 64 - l - t"
    "e = (if 63 < sig then 0 else sig)"
  shows "l < 2 ^ 5" "e < 2 ^ 6" "l + t < 64" "0 < sig" "sig \<le> 64" "sig + l + t = 64"
  using zeros_less [OF assms(1)] assms(2-) by auto

context bit_write
begin

lemma write_varbit_xor_spec:
  assumes rel: "rel w bl" and delta: "delta = x XOR prev"
  shows "\<exists>w'. write_varbit_xor wr_bit wr_bits x prev l t w = Inr (next_window delta l t, w') \<and>
     rel w' (bl @ xor_bits delta l t)"
proof -
  define l' t' where "l' = min (leading_zeros delta) 31" and "t' = trailing_zeros delta"
  have clamp: "(if 32 \<le> leading_zeros delta then 31 else leading_zeros delta) = l'"
    by (simp add: l'_def)
  consider (same) "delta = 0" | (reuse) "delta \<noteq> 0" "reuse_window delta l t"
    | (new) "delta \<noteq> 0" "\<not> reuse_window delta l t" by blast
  then show ?thesis
  proof cases
    case same
    then show ?thesis using wr_bit [OF rel, of False]
      by (auto simp: write_varbit_xor_def delta [symmetric] next_window_def xor_bits_def)
  next
    case reuse
    define sig where "sig = 64 - l - t"
    define payload where "payload = drop_bit t delta"
    have guard: "l \<noteq> 255 \<and> l \<le> l' \<and> t \<le> t'" using reuse by (simp add: reuse_window_def l'_def t'_def)
    have pay: "take_bit sig payload = payload"
      using window_word [of l delta t] guard by (simp add: sig_def payload_def l'_def t'_def)
    have two: "bits_of 2 (2 :: u64) = [True, False]" by (simp add: bits_of_def upt_rec)
    have "\<exists>w'. (if sig \<le> 62 then wr_bits (2 + sig) (push_bit sig 2 OR payload) w
        else bindR (wr_bits 2 2 w) (wr_bits sig payload)) = Inr w' \<and> rel w' (bl @ [True, False] @ bits_of sig payload)"
    proof (cases "sig \<le> 62")
      case True
      then show ?thesis using wr_bits [OF rel, of "2 + sig" "push_bit sig 2 OR payload"]
        bits_of_prefix_payload [OF _ pay, of 2 2] two by simp
    next
      case False
      then show ?thesis using wr_bits_two [OF rel, of 2 sig 2 payload] two by (simp add: sig_def)
    qed
    moreover have "xor_bits delta l t = [True, False] @ bits_of sig payload" "next_window delta l t = (l, t)"
      using reuse by (simp_all add: xor_bits_def next_window_def window_bits_def sig_def payload_def)
    ultimately show ?thesis using reuse guard
      unfolding write_varbit_xor_def Let_def delta [symmetric] clamp t'_def [symmetric] sig_def [symmetric]
        payload_def [symmetric] by auto
  next
    case new
    define sig where "sig = 64 - l' - t'"
    define e where "e = (if 63 < sig then 0 else sig)"
    define payload where "payload = drop_bit t' delta"
    define header :: u64 where "header = push_bit 11 3 OR push_bit 6 (word_of_nat l') OR word_of_nat e"
    define hb where "hb = [True, True] @ bits_of 5 (word_of_nat l' :: u64) @ bits_of 6 (word_of_nat e :: u64)"
    note f = xor_header_fields [OF new(1) l'_def t'_def sig_def e_def]
    have pay: "take_bit sig payload = payload"
      using window_word [of l' delta t'] by (simp add: sig_def payload_def l'_def t'_def)
    have hb: "bits_of 13 header = hb"
      unfolding header_def hb_def using f by (intro xor_header_bits small_word_of_nat) auto
    have guard: "\<not> (l \<noteq> 255 \<and> l \<le> l' \<and> t \<le> t')" using new by (simp add: reuse_window_def l'_def t'_def)
    have "\<exists>w'. (if sig \<le> 51 then wr_bits (13 + sig) (push_bit sig header OR payload) w
        else bindR (wr_bits 13 header w) (wr_bits sig payload)) = Inr w' \<and> rel w' (bl @ hb @ bits_of sig payload)"
    proof (cases "sig \<le> 51")
      case True
      then show ?thesis using wr_bits [OF rel, of "13 + sig" "push_bit sig header OR payload"]
        bits_of_prefix_payload [OF _ pay, of 13 header] hb by simp
    next
      case False
      then show ?thesis using wr_bits_two [OF rel, of 13 sig header payload] hb f by simp
    qed
    moreover have "xor_bits delta l t = hb @ bits_of sig payload" "next_window delta l t = (l', t')"
      using new by (simp_all add: xor_bits_def next_window_def Let_def hb_def window_bits_def sig_def e_def
          payload_def l'_def t'_def)
    ultimately show ?thesis using new guard
      unfolding write_varbit_xor_def Let_def delta [symmetric] clamp t'_def [symmetric] sig_def [symmetric]
        e_def [symmetric] header_def [symmetric] payload_def [symmetric] by auto
  qed
qed

end

text \<open>
  The reader's window follows the writer's. They differ only while the writer has none (255),
  when the reader still has its initial one and the next different value opens a new window.
\<close>

definition window_rel :: "nat \<times> nat \<Rightarrow> nat \<times> nat \<Rightarrow> bool" where
  "window_rel = (\<lambda>(l, t) (rl, rt). rl + rt \<le> 64 \<and> (l = 255 \<or> (rl, rt) = (l, t)))"

lemma unat_ucast_small:
  assumes "k < 2 ^ n" "n \<le> 8" shows "unat (ucast (word_of_nat k :: u64) :: u8) = k"
proof -
  have "(2::nat) ^ n \<le> 2 ^ 8" using assms(2) by (intro power_increasing) auto
  then have "k < 256" using assms by simp
  moreover then have "unat (word_of_nat k :: u64) = k" by (intro unat_word_of_nat_64) simp
  ultimately show ?thesis by (simp add: unsigned_ucast_eq take_bit_nat_eq_self)
qed

context bit_read
begin

lemma rd_window:
  assumes "inv r" "bits r = window_bits delta l t @ ys" "l \<le> leading_zeros delta" "t \<le> trailing_zeros delta"
  shows "\<exists>r'. rd_bits (64 - l - t) r = Inr (drop_bit t delta, r') \<and> inv r' \<and> bits r' = ys"
  using rd_bits [OF assms(1), of "window_bits delta l t" ys] assms window_word(1) [OF assms(3,4)]
  by (simp add: window_bits_def)

lemma rd_count:
  assumes "inv r" "bits r = bits_of n (word_of_nat k :: u64) @ ys" "k < 2 ^ n" "n \<le> 8"
  shows "\<exists>r'. rd_bits n r = Inr (word_of_nat k, r') \<and> unat (ucast (word_of_nat k :: u64) :: u8) = k \<and>
     inv r' \<and> bits r' = ys"
  using rd_bits [OF assms(1), of "bits_of n (word_of_nat k :: u64)" ys] assms
    small_word_of_nat(1) [OF assms(3)] unat_ucast_small [OF assms(3,4)] by simp

lemma read_varbit_xor_spec:
  assumes "inv r" "bits r = xor_bits delta l t @ ys" and delta: "delta = x XOR prev"
    and win: "window_rel (l, t) (rl, rt)"
  shows "\<exists>rl' rt' r'. read_varbit_xor rd_bit rd_bits r prev rl rt = Inr ((x, rl', rt'), r') \<and>
     inv r' \<and> bits r' = ys \<and> window_rel (next_window delta l t) (rl', rt')"
proof -
  have x: "prev XOR delta = x" by (simp add: delta xor.commute [of x] flip: xor.assoc)
  consider (same) "delta = 0" | (reuse) "delta \<noteq> 0" "reuse_window delta l t"
    | (new) "delta \<noteq> 0" "\<not> reuse_window delta l t" by blast
  then show ?thesis
  proof cases
    case same
    then have "bits r = False # ys" "x = prev" using assms(2) x by (auto simp: xor_bits_def)
    moreover from this(1) obtain r1 where "rd_bit r = Inr (False, r1)" "inv r1" "bits r1 = ys"
      using rd_bit [OF assms(1)] by blast
    ultimately show ?thesis using win same by (simp add: read_varbit_xor_def next_window_def)
  next
    case reuse
    then have b: "bits r = True # False # window_bits delta l t @ ys" using assms(2) by (simp add: xor_bits_def)
    obtain r1 where r1: "rd_bit r = Inr (True, r1)" "inv r1" "bits r1 = False # window_bits delta l t @ ys"
      using rd_bit [OF assms(1) b] by blast
    obtain r2 where r2: "rd_bit r1 = Inr (False, r2)" "inv r2" "bits r2 = window_bits delta l t @ ys"
      using rd_bit [OF r1(2,3)] by blast
    have lt: "l \<le> leading_zeros delta" "t \<le> trailing_zeros delta" "rl = l" "rt = t"
      using reuse win by (auto simp: reuse_window_def window_rel_def)
    obtain r3 where "rd_bits (64 - l - t) r2 = Inr (drop_bit t delta, r3)" "inv r3" "bits r3 = ys"
      using rd_window [OF r2(2,3) lt(1,2)] by blast
    then show ?thesis using reuse win r1 r2 lt window_word(2) [OF lt(1,2)] x
      by (simp add: read_varbit_xor_def next_window_def)
  next
    case new
    define l' t' where "l' = min (leading_zeros delta) 31" and "t' = trailing_zeros delta"
    define sig where "sig = 64 - l' - t'"
    define e where "e = (if 63 < sig then 0 else sig)"
    note f = xor_header_fields [OF new(1) l'_def t'_def sig_def e_def]
    have b: "bits r = True # True # bits_of 5 (word_of_nat l' :: u64) @ bits_of 6 (word_of_nat e :: u64)
        @ window_bits delta l' t' @ ys"
      using assms(2) new by (simp add: xor_bits_def Let_def l'_def t'_def sig_def e_def)
    obtain r1 where r1: "rd_bit r = Inr (True, r1)" "inv r1" "bits r1 = True # bits_of 5 (word_of_nat l' :: u64)
        @ bits_of 6 (word_of_nat e :: u64) @ window_bits delta l' t' @ ys"
      using rd_bit [OF assms(1) b] by blast
    obtain r2 where r2: "rd_bit r1 = Inr (True, r2)" "inv r2" "bits r2 = bits_of 5 (word_of_nat l' :: u64)
        @ bits_of 6 (word_of_nat e :: u64) @ window_bits delta l' t' @ ys"
      using rd_bit [OF r1(2,3)] by blast
    obtain r3 where r3: "rd_bits 5 r2 = Inr (word_of_nat l', r3)" "unat (ucast (word_of_nat l' :: u64) :: u8) = l'"
      "inv r3" "bits r3 = bits_of 6 (word_of_nat e :: u64) @ window_bits delta l' t' @ ys"
      using rd_count [OF r2(2,3) f(1)] by auto
    obtain r4 where r4: "rd_bits 6 r3 = Inr (word_of_nat e, r4)" "unat (ucast (word_of_nat e :: u64) :: u8) = e"
      "inv r4" "bits r4 = window_bits delta l' t' @ ys"
      using rd_count [OF r3(3,4) f(2)] by auto
    obtain r5 where r5: "rd_bits sig r4 = Inr (drop_bit t' delta, r5)" "inv r5" "bits r5 = ys"
      using rd_window [OF r4(3,4)] unfolding sig_def l'_def t'_def by auto
    have "(if e = 0 then 64 else e) = sig" using f by (auto simp: e_def)
    then have mid: "read_middle_bits_count rd_bits r3 = Inr (sig, r4)"
      using r4 by (auto simp: read_middle_bits_count_def)
    have lead: "read_leading_bits_count rd_bits r2 = Inr (l', r3)" using r3 by (simp add: read_leading_bits_count_def)
    have "64 - l' - sig = t'" "\<not> 64 < l' + sig" using f by auto
    then have "read_varbit_xor rd_bit rd_bits r prev rl rt = Inr ((x, l', t'), r5)"
      using r1 r2 r5 lead mid window_word(2) [of l' delta t'] x
      by (simp add: read_varbit_xor_def t'_def l'_def)
    moreover have "window_rel (next_window delta l t) (l', t')"
      using new f by (simp add: next_window_def window_rel_def l'_def t'_def)
    ultimately show ?thesis using r5 by blast
  qed
qed

end

end
