(* ===== verification/Codec_Chunk.thy ===== *)
theory Codec_Chunk
  imports Chunk_Spec
begin

text \<open>
  The chunk over a sequential sample codec. \<open>gorilla_chunk.rs\<close> and \<open>chimp_chunk.rs\<close> hold the same
  operations over their own encoder: append at the end, read from the start, and re-encode
  everything for any other change. The operations are given once, over the record \<open>codec\<close> of
  what they call on the encoder; the theories \<open>Gorilla_Chunk\<close> and \<open>Chimp_Chunk\<close> supply the
  encoders. The locale \<open>seq_codec\<close> states what a codec promises, and that its chunk keeps the
  contract of \<open>ChunkOps\<close>.
\<close>

section \<open>Definitions\<close>

text \<open>
  The methods of the encoder: \<open>with_soft_cap\<close>, \<open>push_sample\<close>, the items of \<open>iter()\<close> up to the first
  error (where every reader stops), the counters, the length of the encoded bytes, and \<open>clear\<close>.
\<close>

record 'e codec =
  cd_new :: "nat \<Rightarrow> 'e"
  cd_push :: "sample \<Rightarrow> 'e \<Rightarrow> 'e tsdb_result"
  cd_iter :: "'e \<Rightarrow> sample tsdb_result list"
  cd_count :: "'e \<Rightarrow> nat"
  cd_first :: "'e \<Rightarrow> timestamp"
  cd_last :: "'e \<Rightarrow> timestamp"
  cd_last_value :: "'e \<Rightarrow> f64"
  cd_data_size :: "'e \<Rightarrow> nat"
  cd_clear :: "'e \<Rightarrow> 'e"

record 'e codec_chunk =
  encoder :: 'e
  max_size :: nat

definition kc_with_max_size :: "'e codec \<Rightarrow> nat \<Rightarrow> 'e codec_chunk" where
  "kc_with_max_size cd sz = \<lparr>encoder = cd_new cd sz, max_size = sz\<rparr>"

definition kc_compress :: "'e codec \<Rightarrow> 'e codec_chunk \<Rightarrow> sample list \<Rightarrow> 'e codec_chunk tsdb_result" where
  "kc_compress cd c samples =
     map_ok (\<lambda>e. c\<lparr>encoder := e\<rparr>) (foldR (cd_push cd) samples (cd_new cd (max_size c)))"

definition kc_len :: "'e codec \<Rightarrow> 'e codec_chunk \<Rightarrow> nat" where
  "kc_len cd c = cd_count cd (encoder c)"

definition kc_first_timestamp :: "'e codec \<Rightarrow> 'e codec_chunk \<Rightarrow> timestamp" where
  "kc_first_timestamp cd c = cd_first cd (encoder c)"

definition kc_last_timestamp :: "'e codec \<Rightarrow> 'e codec_chunk \<Rightarrow> timestamp" where
  "kc_last_timestamp cd c = cd_last cd (encoder c)"

definition kc_last_value :: "'e codec \<Rightarrow> 'e codec_chunk \<Rightarrow> f64" where
  "kc_last_value cd c = cd_last_value cd (encoder c)"

definition kc_data_size :: "'e codec \<Rightarrow> 'e codec_chunk \<Rightarrow> nat" where
  "kc_data_size cd c = cd_data_size cd (encoder c)"

text \<open>\<open>saturating_sub\<close> is the subtraction of \<open>nat\<close>.\<close>

definition kc_remaining_capacity :: "'e codec \<Rightarrow> 'e codec_chunk \<Rightarrow> nat" where
  "kc_remaining_capacity cd c = max_size c - kc_data_size cd c"

definition kc_bytes_per_sample :: "'e codec \<Rightarrow> 'e codec_chunk \<Rightarrow> nat" where
  "kc_bytes_per_sample cd c =
     (let n = kc_len cd c in
      if n < MIN_SAMPLES_FOR_BPS_ESTIMATE then SAMPLE_SIZE div 2 else max (kc_data_size cd c div n) 1)"

definition kc_remaining_samples :: "'e codec \<Rightarrow> 'e codec_chunk \<Rightarrow> nat" where
  "kc_remaining_samples cd c =
     (if kc_len cd c = 0 then 0 else kc_remaining_capacity cd c div kc_bytes_per_sample cd c)"

definition kc_is_full :: "'e codec \<Rightarrow> 'e codec_chunk \<Rightarrow> bool" where
  "kc_is_full cd c \<longleftrightarrow> max_size c \<le> cd_data_size cd (encoder c)"

definition kc_clear :: "'e codec \<Rightarrow> 'e codec_chunk \<Rightarrow> 'e codec_chunk" where
  "kc_clear cd c = c\<lparr>encoder := cd_clear cd (encoder c)\<rparr>"

definition kc_set_data :: "'e codec \<Rightarrow> 'e codec_chunk \<Rightarrow> sample list \<Rightarrow> 'e codec_chunk tsdb_result" where
  "kc_set_data cd c samples = kc_compress cd c samples"

text \<open>
  The chunk iterator: \<open>next_internal\<close> ends at a sample past \<open>end\<close> or at an error, and the first
  call of \<open>next\<close> passes over the samples before \<open>start\<close>.
\<close>

fun kc_next_internal :: "timestamp \<Rightarrow> sample tsdb_result list \<Rightarrow> sample list" where
  "kc_next_internal end_ts [] = []"
| "kc_next_internal end_ts (Inr s # items) = (if end_ts < timestamp s then [] else s # kc_next_internal end_ts items)"
| "kc_next_internal end_ts (Inl e # items) = []"

definition kc_range_iter :: "'e codec \<Rightarrow> 'e codec_chunk \<Rightarrow> timestamp \<Rightarrow> timestamp \<Rightarrow> sample list" where
  "kc_range_iter cd c start_ts end_ts =
     dropWhile (\<lambda>s. timestamp s < start_ts) (kc_next_internal end_ts (cd_iter cd (encoder c)))"

definition kc_iter :: "'e codec \<Rightarrow> 'e codec_chunk \<Rightarrow> sample list" where
  "kc_iter cd c = kc_range_iter cd c i64_min i64_max"

definition kc_get_range :: "'e codec \<Rightarrow> 'e codec_chunk \<Rightarrow> timestamp \<Rightarrow> timestamp \<Rightarrow> sample list tsdb_result" where
  "kc_get_range cd c start_ts end_ts =
     (if kc_len cd c = 0 then Inr [] else Inr (kc_range_iter cd c start_ts end_ts))"

text \<open>\<open>for item in iter { let s = item?; f(s)? }\<close>.\<close>

definition for_items :: "(sample \<Rightarrow> 's \<Rightarrow> 's tsdb_result) \<Rightarrow> sample tsdb_result list \<Rightarrow> 's \<Rightarrow> 's tsdb_result" where
  "for_items f items st = foldR (\<lambda>item st. bindR item (\<lambda>s. f s st)) items st"

definition kc_remove_range ::
  "'e codec \<Rightarrow> 'e codec_chunk \<Rightarrow> timestamp \<Rightarrow> timestamp \<Rightarrow> (nat \<times> 'e codec_chunk) tsdb_result" where
  "kc_remove_range cd c start_ts end_ts =
     (if kc_len cd c = 0 \<or> kc_last_timestamp cd c < start_ts \<or> end_ts < kc_first_timestamp cd c then Inr (0, c)
      else
        map_ok (\<lambda>e. let c1 = c\<lparr>encoder := e\<rparr> in (kc_len cd c - kc_len cd c1, c1))
          (for_items (\<lambda>s e. if start_ts \<le> timestamp s \<and> timestamp s \<le> end_ts then Inr e else cd_push cd s e)
             (cd_iter cd (encoder c)) (cd_new cd (max_size c))))"

definition kc_add_sample :: "'e codec \<Rightarrow> sample \<Rightarrow> 'e codec_chunk \<Rightarrow> 'e codec_chunk tsdb_result" where
  "kc_add_sample cd s c = map_ok (\<lambda>e. c\<lparr>encoder := e\<rparr>) (cd_push cd s (encoder c))"

text \<open>The loop of \<open>upsert_sample\<close> over the samples before \<open>ts\<close>: \<open>current\<close>, the encoder, and what is left to read.\<close>

fun kc_upsert_prefix ::
  "'e codec \<Rightarrow> timestamp \<Rightarrow> sample tsdb_result list \<Rightarrow> sample \<Rightarrow> 'e \<Rightarrow> (sample \<times> 'e \<times> sample tsdb_result list) tsdb_result" where
  "kc_upsert_prefix cd ts [] current e = Inr (current, e, [])"
| "kc_upsert_prefix cd ts (item # items) current e =
     bindR item (\<lambda>s.
       if ts \<le> timestamp s then Inr (s, e, items)
       else bindR (cd_push cd s e) (\<lambda>e1. kc_upsert_prefix cd ts items s e1))"

definition kc_upsert_sample ::
  "'e codec \<Rightarrow> 'e codec_chunk \<Rightarrow> sample \<Rightarrow> duplicate_policy \<Rightarrow> (nat \<times> 'e codec_chunk) tsdb_result" where
  "kc_upsert_sample cd c s dp =
     (let ts = timestamp s; n = kc_len cd c; e0 = cd_new cd (max_size c); items = cd_iter cd (encoder c) in
      if n = 0 then map_ok (\<lambda>c1. (1, c1)) (kc_add_sample cd s c)
      else if ts < kc_first_timestamp cd c then
        bindR (cd_push cd s e0) (\<lambda>e1.
        bindR (for_items (cd_push cd) items e1) (\<lambda>e2. Inr (n + 1, c\<lparr>encoder := e2\<rparr>)))
      else
        bindR (kc_upsert_prefix cd ts items (sample_new 0 0) e0) (\<lambda>(current, e1, rest).
        bindR (if timestamp current = ts then
            bindR (duplicate_value dp ts (val current) (val s)) (\<lambda>v.
              map_ok (\<lambda>e. (True, e)) (cd_push cd (current\<lparr>val := v\<rparr>) e1))
          else
            bindR (cd_push cd s e1) (\<lambda>e2.
              map_ok (\<lambda>e. (False, e)) (if ts < timestamp current then cd_push cd current e2 else Inr e2)))
          (\<lambda>(duplicate_found, e3).
        bindR (for_items (cd_push cd) rest e3) (\<lambda>e4.
          Inr (if duplicate_found then n else n + 1, c\<lparr>encoder := e4\<rparr>)))))"

definition kc_merge_samples ::
  "'e codec \<Rightarrow> 'e codec_chunk \<Rightarrow> sample list \<Rightarrow> duplicate_policy option
   \<Rightarrow> sample_add_result list tsdb_result \<times> 'e codec_chunk" where
  "kc_merge_samples cd c samples dp =
     (if samples = [] then (Inr [], c)
      else if kc_len cd c = 0 \<or> kc_last_timestamp cd c < timestamp (samples ! 0) then
        append_samples (kc_add_sample cd) c samples
      else
        (case merge_chunk_samples (kc_iter cd c) samples dp (cd_push cd) (cd_new cd (max_size c)) of
           Inl e \<Rightarrow> (Inl e, c)
         | Inr (result, e) \<Rightarrow> (Inr result, c\<lparr>encoder := e\<rparr>)))"

text \<open>\<open>split\<close> deals the samples to the two encoders by their index.\<close>

fun kc_split_loop ::
  "'e codec \<Rightarrow> nat \<Rightarrow> nat \<Rightarrow> sample tsdb_result list \<Rightarrow> 'e \<Rightarrow> 'e \<Rightarrow> ('e \<times> 'e) tsdb_result" where
  "kc_split_loop cd mid i [] l r = Inr (l, r)"
| "kc_split_loop cd mid i (item # items) l r =
     bindR item (\<lambda>s.
       if i < mid then bindR (cd_push cd s l) (\<lambda>l1. kc_split_loop cd mid (i + 1) items l1 r)
       else bindR (cd_push cd s r) (\<lambda>r1. kc_split_loop cd mid (i + 1) items l r1))"

definition kc_split :: "'e codec \<Rightarrow> 'e codec_chunk \<Rightarrow> ('e codec_chunk \<times> 'e codec_chunk) tsdb_result" where
  "kc_split cd c =
     (let left = cd_new cd (max_size c); right = kc_with_max_size cd (max_size c) in
      if kc_len cd c = 0 then Inr (c, c)
      else
        map_ok (\<lambda>(l, r). (c\<lparr>encoder := l\<rparr>, right\<lparr>encoder := r\<rparr>))
          (kc_split_loop cd (kc_len cd c div 2) 0 (cd_iter cd (encoder c)) left (encoder right)))"

section \<open>Reading\<close>

lemma kc_next_internal_ok: "kc_next_internal e (map Inr xs) = takeWhile (\<lambda>s. timestamp s \<le> e) xs"
  by (induction xs) auto

lemma takeWhile_le_eq_filter: "tsorted xs \<Longrightarrow> takeWhile (\<lambda>s. timestamp s \<le> e) xs = filter (\<lambda>s. timestamp s \<le> e) xs"
proof (induction xs)
  case (Cons x xs)
  then have "timestamp x < timestamp y" if "y \<in> set xs" for y using that by simp
  then have "\<not> timestamp x \<le> e \<Longrightarrow> filter (\<lambda>s. timestamp s \<le> e) xs = []" by (force simp: filter_empty_conv)
  then show ?case using Cons by (cases "timestamp x \<le> e") simp_all
qed simp

lemma range_of_sorted:
  assumes "tsorted xs"
  shows "dropWhile (\<lambda>s. timestamp s < a) (takeWhile (\<lambda>s. timestamp s \<le> b) xs) = filter (in_range a b) xs"
  using ksorted_filter [OF assms, of "\<lambda>s. timestamp s \<le> b"]
  by (simp add: assms takeWhile_le_eq_filter dropWhile_less_eq_filter in_range_def [abs_def]
      conj_commute)

lemma for_items_ok: "for_items f (map Inr xs) st = foldR f xs st"
  unfolding for_items_def
proof (induction xs arbitrary: st)
  case (Cons x xs)
  then show ?case by (cases "f x st") simp_all
qed simp

lemma foldR_skip: "foldR (\<lambda>s st. if P s then Inr st else f s st) xs st = foldR f (filter (\<lambda>s. \<not> P s) xs) st"
proof (induction xs arbitrary: st)
  case (Cons x xs)
  then show ?case by (cases "f x st") simp_all
qed simp

lemma list_insert_split:
  assumes "\<forall>y\<in>set pre. timestamp y < timestamp s" "timestamp s \<le> timestamp x"
  shows "list_insert p s (pre @ x # rest) =
    (if timestamp s = timestamp x
     then map_ok (\<lambda>v. pre @ x\<lparr>val := v\<rparr> # rest) (duplicate_value p (timestamp s) (val x) (val s))
     else Inr (pre @ s # x # rest))"
  using assms
proof (induction pre)
  case (Cons y pre)
  then show ?case
    by (cases "duplicate_value p (timestamp s) (val x) (val s)") auto
qed auto

section \<open>The contract of a codec\<close>

text \<open>\<open>rel e xs\<close>: the encoder \<open>e\<close> holds the samples \<open>xs\<close>.\<close>

locale seq_codec =
  fixes cd :: "'e codec"
    and rel :: "'e \<Rightarrow> sample list \<Rightarrow> bool"
  assumes rel_new: "rel (cd_new cd sz) []"
    and rel_push: "rel e xs \<Longrightarrow> valid_samples (xs @ [s]) \<Longrightarrow> \<exists>e'. cd_push cd s e = Inr e' \<and> rel e' (xs @ [s])"
    and rel_iter: "rel e xs \<Longrightarrow> cd_iter cd e = map Inr xs"
    and rel_count: "rel e xs \<Longrightarrow> cd_count cd e = length xs"
    and rel_first: "rel e xs \<Longrightarrow> xs \<noteq> [] \<Longrightarrow> cd_first cd e = timestamp (hd xs)"
    and rel_last: "rel e xs \<Longrightarrow> xs \<noteq> [] \<Longrightarrow> cd_last cd e = timestamp (List.last xs)"
    and rel_last_value: "rel e xs \<Longrightarrow> xs \<noteq> [] \<Longrightarrow> cd_last_value cd e = val (List.last xs)"
    and rel_clear: "rel e xs \<Longrightarrow> rel (cd_clear cd e) []"
    and rel_valid: "rel e xs \<Longrightarrow> valid_samples xs"

definition kc_samples :: "'e codec \<Rightarrow> 'e codec_chunk \<Rightarrow> sample list" where
  "kc_samples cd c = map projr (cd_iter cd (encoder c))"

definition kc_inv :: "'e codec \<Rightarrow> ('e \<Rightarrow> sample list \<Rightarrow> bool) \<Rightarrow> 'e codec_chunk \<Rightarrow> bool" where
  "kc_inv cd rel c \<longleftrightarrow> rel (encoder c) (kc_samples cd c)"

context seq_codec
begin

lemma push_all:
  "rel e xs \<Longrightarrow> valid_samples (xs @ ys) \<Longrightarrow> \<exists>e'. foldR (cd_push cd) ys e = Inr e' \<and> rel e' (xs @ ys)"
proof (induction ys arbitrary: e xs)
  case (Cons y ys)
  have "valid_samples (xs @ [y])" using Cons.prems(2) by (simp add: valid_samples_append)
  then obtain e1 where "cd_push cd y e = Inr e1" "rel e1 (xs @ [y])" using rel_push Cons.prems(1) by blast
  then show ?case using Cons.IH [of e1 "xs @ [y]"] Cons.prems(2) by simp
qed simp

lemma push_fresh: "valid_samples ys \<Longrightarrow> \<exists>e'. foldR (cd_push cd) ys (cd_new cd sz) = Inr e' \<and> rel e' ys"
  using push_all [OF rel_new, of ys sz] by simp

lemma inv_of_rel: "rel e xs \<Longrightarrow> kc_inv cd rel (c\<lparr>encoder := e\<rparr>) \<and> kc_samples cd (c\<lparr>encoder := e\<rparr>) = xs"
  by (simp add: kc_inv_def kc_samples_def rel_iter comp_def)

lemma inv_fields:
  assumes "kc_inv cd rel c"
  shows "rel (encoder c) (kc_samples cd c)" "cd_iter cd (encoder c) = map Inr (kc_samples cd c)"
    "kc_len cd c = length (kc_samples cd c)" "valid_samples (kc_samples cd c)"
proof -
  show "rel (encoder c) (kc_samples cd c)" using assms by (simp add: kc_inv_def)
  then show "cd_iter cd (encoder c) = map Inr (kc_samples cd c)"
    "kc_len cd c = length (kc_samples cd c)" "valid_samples (kc_samples cd c)"
    by (simp_all only: rel_iter kc_len_def rel_count rel_valid)
qed

lemma range_iter_eq:
  "kc_inv cd rel c \<Longrightarrow> kc_range_iter cd c a b = filter (in_range a b) (kc_samples cd c)"
  unfolding kc_range_iter_def using inv_fields(2,4) [of c]
  by (simp only: kc_next_internal_ok range_of_sorted valid_samples_tsorted)

lemma iter_eq: assumes "kc_inv cd rel c" shows "kc_iter cd c = kc_samples cd c"
proof -
  have "in_range i64_min i64_max s" if "s \<in> set (kc_samples cd c)" for s
    using inv_fields(4) [OF assms] that
    by (auto simp: valid_samples_def valid_ts_def in_range_def i64_min_def)
  then show ?thesis by (simp add: kc_iter_def range_iter_eq [OF assms] filter_id_conv)
qed

lemma get_range_eq: "kc_inv cd rel c \<Longrightarrow> kc_get_range cd c a b = Inr (filter (in_range a b) (kc_samples cd c))"
  using inv_fields(3) [of c] by (auto simp: kc_get_range_def range_iter_eq)

lemma first_last:
  assumes "kc_inv cd rel c" "kc_samples cd c \<noteq> []"
  shows "kc_first_timestamp cd c = timestamp (hd (kc_samples cd c))"
    "kc_last_timestamp cd c = timestamp (List.last (kc_samples cd c))"
    "kc_last_value cd c = val (List.last (kc_samples cd c))"
  using inv_fields(1) [OF assms(1)] assms(2)
  by (simp_all add: kc_first_timestamp_def kc_last_timestamp_def kc_last_value_def rel_first rel_last rel_last_value)

lemma between_first_last:
  assumes "kc_inv cd rel c" "s \<in> set (kc_samples cd c)"
  shows "kc_first_timestamp cd c \<le> timestamp s" "timestamp s \<le> kc_last_timestamp cd c"
proof -
  have "kc_samples cd c \<noteq> []" using assms(2) by auto
  then show "kc_first_timestamp cd c \<le> timestamp s" "timestamp s \<le> kc_last_timestamp cd c"
    using first_last [OF assms(1)] ksorted_hd [OF _ assms(2)] ksorted_last [OF _ assms(2)] inv_fields(4) [OF assms(1)]
    by simp_all
qed

lemma remove_range_ok:
  assumes inv: "kc_inv cd rel c"
  shows "\<exists>c'. kc_remove_range cd c a b = Inr (length (filter (in_range a b) (kc_samples cd c)), c') \<and>
     kc_inv cd rel c' \<and> kc_samples cd c' = filter (\<lambda>s. \<not> in_range a b s) (kc_samples cd c)"
proof (cases "kc_len cd c = 0 \<or> kc_last_timestamp cd c < a \<or> b < kc_first_timestamp cd c")
  case True
  then have "\<not> in_range a b s" if "s \<in> set (kc_samples cd c)" for s
    using that between_first_last [OF inv that] inv_fields(3) [OF inv] by (auto simp: in_range_def)
  then have "filter (in_range a b) (kc_samples cd c) = []"
    "filter (\<lambda>s. \<not> in_range a b s) (kc_samples cd c) = kc_samples cd c"
    by (simp_all add: filter_empty_conv filter_id_conv)
  then show ?thesis using True inv by (simp add: kc_remove_range_def)
next
  case False
  let ?rest = "filter (\<lambda>s. \<not> in_range a b s) (kc_samples cd c)"
  obtain e where e: "foldR (cd_push cd) ?rest (cd_new cd (max_size c)) = Inr e" "rel e ?rest"
    using push_fresh valid_samples_filter inv_fields(4) [OF inv] by blast
  have "length (kc_samples cd c) - length ?rest = length (filter (in_range a b) (kc_samples cd c))"
    using sum_length_filter_compl [of "in_range a b" "kc_samples cd c"] by simp
  then have "kc_remove_range cd c a b = Inr (length (filter (in_range a b) (kc_samples cd c)), c\<lparr>encoder := e\<rparr>)"
    using False e inv_of_rel [OF e(2), of c]
    by (simp add: kc_remove_range_def inv_fields(2) [OF inv] for_items_ok foldR_skip in_range_def [symmetric]
        inv_fields(3) [OF inv] inv_fields(3) Let_def)
  then show ?thesis using inv_of_rel [OF e(2), of c] by simp
qed

lemma add_sample_ok:
  assumes "kc_inv cd rel c" "valid_samples (kc_samples cd c @ [s])"
  shows "\<exists>c'. kc_add_sample cd s c = Inr c' \<and> kc_inv cd rel c' \<and> kc_samples cd c' = kc_samples cd c @ [s]"
proof -
  obtain e where e: "cd_push cd s (encoder c) = Inr e" "rel e (kc_samples cd c @ [s])"
    using rel_push inv_fields(1) assms by blast
  then show ?thesis using inv_of_rel [OF e(2), of c] by (simp add: kc_add_sample_def)
qed


lemma upsert_prefix_ok:
  assumes "rel e ys" "valid_samples (ys @ pre)" "\<forall>y\<in>set pre. timestamp y < ts" "ts \<le> timestamp x"
  shows "\<exists>e'. kc_upsert_prefix cd ts (map Inr (pre @ x # rest)) cur e = Inr (x, e', map Inr rest) \<and> rel e' (ys @ pre)"
  using assms
proof (induction pre arbitrary: e ys cur)
  case (Cons y pre)
  have "valid_samples (ys @ [y])" using Cons.prems(2) by (simp add: valid_samples_append)
  then obtain e1 where "cd_push cd y e = Inr e1" "rel e1 (ys @ [y])" using rel_push Cons.prems(1) by blast
  then show ?case using Cons.IH [of e1 "ys @ [y]" y] Cons.prems by simp
qed simp

lemma split_at_timestamp:
  assumes "valid_samples xs" "xs \<noteq> []" "ts \<le> timestamp (List.last xs)"
  obtains pre x rest where "xs = pre @ x # rest" "\<forall>y\<in>set pre. timestamp y < ts" "ts \<le> timestamp x"
proof -
  define rest where "rest = dropWhile (\<lambda>s. timestamp s < ts) xs"
  have ne: "rest \<noteq> []" using assms(2,3) unfolding rest_def by (metis dropWhile_eq_Nil_conv last_in_set not_less)
  have "xs = takeWhile (\<lambda>s. timestamp s < ts) xs @ hd rest # tl rest"
    using ne by (simp add: rest_def)
  moreover have "ts \<le> timestamp (hd rest)" using hd_dropWhile [of _ xs] ne unfolding rest_def by (metis not_less)
  ultimately show ?thesis using that set_takeWhileD by metis
qed

lemma upsert_in_front:
  assumes inv: "kc_inv cd rel c" and ne: "kc_samples cd c \<noteq> []" and ts: "valid_ts (timestamp s)"
    and less: "timestamp s < kc_first_timestamp cd c" and v: "valid_samples (s # kc_samples cd c)"
  shows "\<exists>e. kc_upsert_sample cd c s p = Inr (Suc (length (kc_samples cd c)), c\<lparr>encoder := e\<rparr>) \<and> rel e (s # kc_samples cd c)"
proof -
  note f = inv_fields [OF inv]
  obtain e1 where e1: "cd_push cd s (cd_new cd (max_size c)) = Inr e1" "rel e1 [s]"
    using rel_push [OF rel_new, of s] ts by auto
  obtain e2 where "foldR (cd_push cd) (kc_samples cd c) e1 = Inr e2" "rel e2 (s # kc_samples cd c)"
    using push_all [OF e1(2), of "kc_samples cd c"] v by auto
  then show ?thesis using less e1 ne by (auto simp: kc_upsert_sample_def Let_def f(2,3) for_items_ok)
qed

lemma upsert_prefix_all:
  "rel e ys \<Longrightarrow> valid_samples (ys @ xs) \<Longrightarrow> \<forall>y\<in>set xs. timestamp y < ts \<Longrightarrow>
   \<exists>e'. kc_upsert_prefix cd ts (map Inr xs) cur e = Inr (if xs = [] then cur else List.last xs, e', []) \<and> rel e' (ys @ xs)"
proof (induction xs arbitrary: e ys cur)
  case (Cons y xs)
  have "valid_samples (ys @ [y])" using Cons.prems(2) by (simp add: valid_samples_append)
  then obtain e1 where "cd_push cd y e = Inr e1" "rel e1 (ys @ [y])" using rel_push Cons.prems(1) by blast
  then show ?case using Cons.IH [of e1 "ys @ [y]" y] Cons.prems by auto
qed simp

lemma upsert_at_end:
  assumes inv: "kc_inv cd rel c" and ts: "valid_ts (timestamp s)" and ne: "kc_samples cd c \<noteq> []"
    and less: "timestamp (List.last (kc_samples cd c)) < timestamp s"
  shows "\<exists>e. kc_upsert_sample cd c s p = Inr (Suc (length (kc_samples cd c)), c\<lparr>encoder := e\<rparr>) \<and> rel e (kc_samples cd c @ [s])"
    "list_insert p s (kc_samples cd c) = Inr (kc_samples cd c @ [s])"
proof -
  note f = inv_fields [OF inv]
  have below: "\<forall>y\<in>set (kc_samples cd c). timestamp y < timestamp s"
    using ksorted_last [OF valid_samples_tsorted [OF f(4)]] less by force
  then show "list_insert p s (kc_samples cd c) = Inr (kc_samples cd c @ [s])" by (rule list_insert_snoc)
  obtain e1 where e1: "kc_upsert_prefix cd (timestamp s) (map Inr (kc_samples cd c)) (sample_new 0 0) (cd_new cd (max_size c)) =
      Inr (List.last (kc_samples cd c), e1, [])" "rel e1 (kc_samples cd c)"
    using upsert_prefix_all [OF rel_new _ below, of "sample_new 0 0" "max_size c"] f(4) ne by auto
  have "valid_samples (kc_samples cd c @ [s])" using f(4) ts less by (intro valid_samples_snoc)
  then obtain e2 where "cd_push cd s e1 = Inr e2" "rel e2 (kc_samples cd c @ [s])" using rel_push [OF e1(2)] by blast
  moreover have "\<not> timestamp s < kc_first_timestamp cd c" unfolding first_last(1) [OF inv ne]
    using bspec [OF below hd_in_set [OF ne]] by linarith
  ultimately show "\<exists>e. kc_upsert_sample cd c s p = Inr (Suc (length (kc_samples cd c)), c\<lparr>encoder := e\<rparr>) \<and> rel e (kc_samples cd c @ [s])"
    using less ne e1 by (intro exI [of _ e2]) (simp add: kc_upsert_sample_def Let_def f(2,3) for_items_def)
qed

lemma upsert_inside:
  assumes inv: "kc_inv cd rel c" and ts: "valid_ts (timestamp s)" and ne: "kc_samples cd c \<noteq> []"
    and le: "timestamp s \<le> timestamp (List.last (kc_samples cd c))"
  shows "case list_insert p s (kc_samples cd c) of
      Inl e \<Rightarrow> kc_upsert_sample cd c s p = Inl e
    | Inr xs \<Rightarrow> \<exists>e. kc_upsert_sample cd c s p = Inr (length xs, c\<lparr>encoder := e\<rparr>) \<and> rel e xs"
proof -
  let ?xs = "kc_samples cd c" and ?e0 = "cd_new cd (max_size c)"
  note f = inv_fields [OF inv]
  obtain pre x rest where xs: "?xs = pre @ x # rest" and pre: "\<forall>y\<in>set pre. timestamp y < timestamp s"
    and x: "timestamp s \<le> timestamp x"
    using split_at_timestamp [OF f(4) ne le] by blast
  have ins: "valid_samples ys" if "list_insert p s ?xs = Inr ys" for ys
    using list_insert_valid [OF f(4) ts that] .
  have fst: "kc_first_timestamp cd c = timestamp (hd (pre @ [x]))" using first_last(1) [OF inv ne] xs by (cases pre) auto
  show ?thesis
  proof (cases "timestamp s < kc_first_timestamp cd c")
    case True
    then have "pre = []" using pre fst by (cases pre) auto
    then have li: "list_insert p s ?xs = Inr (s # ?xs)" using xs True fst by simp
    then show ?thesis using upsert_in_front [OF inv ne ts True, of p] ins [OF li] by simp
  next
    case False
    obtain e1 where pl: "kc_upsert_prefix cd (timestamp s) (map Inr ?xs) (sample_new 0 0) ?e0 = Inr (x, e1, map Inr rest)"
      and e1: "rel e1 pre"
      using upsert_prefix_ok [OF rel_new _ pre x, of rest "sample_new 0 0" "max_size c"] f(4) xs
      by (auto simp: valid_samples_append)
    note up = kc_upsert_sample_def Let_def f(2,3) pl for_items_ok
    show ?thesis
    proof (cases "timestamp s = timestamp x")
      case True
      then have t: "timestamp x = timestamp s" by simp
      show ?thesis
      proof (cases "duplicate_value p (timestamp s) (val x) (val s)")
        case (Inl err)
        then have "list_insert p s ?xs = Inl err" using list_insert_split [OF pre x, of p rest] True xs by simp
        then show ?thesis using False ne t Inl by (simp add: up)
      next
        case (Inr v)
        then have li: "list_insert p s ?xs = Inr (pre @ x\<lparr>val := v\<rparr> # rest)"
          using list_insert_split [OF pre x, of p rest] True xs by simp
        have v: "valid_samples (pre @ [x\<lparr>val := v\<rparr>])" using ins [OF li] by (simp add: valid_samples_append)
        obtain e2 where e2: "cd_push cd (x\<lparr>val := v\<rparr>) e1 = Inr e2" "rel e2 (pre @ [x\<lparr>val := v\<rparr>])"
          using rel_push [OF e1 v] by blast
        obtain e3 where "foldR (cd_push cd) rest e2 = Inr e3" "rel e3 (pre @ x\<lparr>val := v\<rparr> # rest)"
          using push_all [OF e2(2), of rest] ins [OF li] by auto
        then show ?thesis using False ne t Inr e2 li by (simp add: up) (auto simp: xs)
      qed
    next
      case neq: False
      have li: "list_insert p s ?xs = Inr (pre @ s # x # rest)"
        using list_insert_split [OF pre x, of p rest] neq xs by simp
      have v: "valid_samples (pre @ [s])" "valid_samples ((pre @ [s]) @ [x])"
        using ins [OF li] by (auto simp: valid_samples_append)
      obtain e2 where e2: "cd_push cd s e1 = Inr e2" "rel e2 (pre @ [s])" using rel_push [OF e1 v(1)] by blast
      obtain e3 where e3: "cd_push cd x e2 = Inr e3" "rel e3 ((pre @ [s]) @ [x])" using rel_push [OF e2(2) v(2)] by blast
      obtain e4 where "foldR (cd_push cd) rest e3 = Inr e4" "rel e4 (pre @ s # x # rest)"
        using push_all [OF e3(2), of rest] ins [OF li] by auto
      then show ?thesis using False ne neq x e2 e3 li by (simp add: up) (auto simp: xs)
    qed
  qed
qed

lemma upsert_eq:
  assumes inv: "kc_inv cd rel c" and ts: "valid_ts (timestamp s)" and ne: "kc_samples cd c \<noteq> []"
  shows "case list_insert p s (kc_samples cd c) of
      Inl e \<Rightarrow> kc_upsert_sample cd c s p = Inl e
    | Inr xs \<Rightarrow> \<exists>e. kc_upsert_sample cd c s p = Inr (length xs, c\<lparr>encoder := e\<rparr>) \<and> rel e xs"
proof (cases "timestamp s \<le> timestamp (List.last (kc_samples cd c))")
  case True
  then show ?thesis by (rule upsert_inside [OF assms])
next
  case False
  then show ?thesis using upsert_at_end [OF assms, of p] by simp
qed

lemma append_ok:
  "kc_inv cd rel c \<Longrightarrow> valid_samples (kc_samples cd c @ ys) \<Longrightarrow>
   \<exists>c'. append_samples_loop (kc_add_sample cd) ys rs c = (Inr (rs @ map AddOk ys), c') \<and>
     kc_inv cd rel c' \<and> kc_samples cd c' = kc_samples cd c @ ys"
proof (induction ys arbitrary: c rs)
  case (Cons y ys)
  have "valid_samples (kc_samples cd c @ [y])" using Cons.prems(2) by (simp add: valid_samples_append)
  then obtain c1 where "kc_add_sample cd y c = Inr c1" "kc_inv cd rel c1" "kc_samples cd c1 = kc_samples cd c @ [y]"
    using add_sample_ok Cons.prems(1) by blast
  then show ?case using Cons.IH [of c1 "rs @ [AddOk y]"] Cons.prems(2) by simp
qed simp

lemma merge_ok:
  assumes inv: "kc_inv cd rel c" and ys: "valid_samples ys"
    and p: "p = (case dp of None \<Rightarrow> KeepLast | Some q \<Rightarrow> q)"
  shows "\<exists>c'. kc_merge_samples cd c ys dp = (Inr (map (merge_outcome p (smap (kc_samples cd c))) ys), c') \<and>
     kc_inv cd rel c' \<and> kc_samples cd c' = list_merge p (kc_samples cd c) ys"
proof -
  let ?xs = "kc_samples cd c"
  note f = inv_fields [OF inv]
  consider "ys = []" | (app) "ys \<noteq> []" "kc_len cd c = 0 \<or> kc_last_timestamp cd c < timestamp (ys ! 0)"
    | (rebuild) "ys \<noteq> []" "\<not> (kc_len cd c = 0 \<or> kc_last_timestamp cd c < timestamp (ys ! 0))" by blast
  then show ?thesis
  proof cases
    case 1
    then show ?thesis using inv by (simp add: kc_merge_samples_def list_merge_def merge_stream_Nil_right comp_def)
  next
    case app
    have after: "\<forall>x\<in>set ?xs. \<forall>y\<in>set ys. timestamp x < timestamp y"
    proof (intro ballI)
      fix x y assume x: "x \<in> set ?xs" and y: "y \<in> set ys"
      have "timestamp (ys ! 0) \<le> timestamp y"
        using ksorted_hd [OF valid_samples_tsorted [OF ys] y] app(1) by (simp add: hd_conv_nth)
      then show "timestamp x < timestamp y" using app(2) between_first_last(2) [OF inv x] x f(3) by auto
    qed
    then have "valid_samples (?xs @ ys)" using f(4) ys by (simp add: valid_samples_append)
    then show ?thesis
      using append_ok [OF inv, of ys "[]"] app after
      by (auto simp: kc_merge_samples_def append_samples_def list_merge_after merge_outcome_after)
  next
    case rebuild
    have m: "map fst (merge_stream p ?xs ys) = list_merge p ?xs ys" by (simp add: list_merge_def)
    obtain e where e: "foldR (cd_push cd) (list_merge p ?xs ys) (cd_new cd (max_size c)) = Inr e" "rel e (list_merge p ?xs ys)"
      using push_fresh list_merge_valid [OF f(4) ys] by blast
    then have "merge_chunk_samples (kc_iter cd c) ys dp (cd_push cd) (cd_new cd (max_size c)) =
        Inr (map (merge_outcome p (smap ?xs)) ys, e)"
      by (subst merge_chunk_samples_spec [OF _ _ p]) (simp_all add: iter_eq [OF inv] f(4) ys m)
    then show ?thesis using rebuild inv_of_rel [OF e(2), of c] by (simp add: kc_merge_samples_def)
  qed
qed

lemma split_loop_ok:
  "rel l xs \<Longrightarrow> rel r ys \<Longrightarrow> valid_samples (xs @ take (mid - i) zs) \<Longrightarrow> valid_samples (ys @ drop (mid - i) zs) \<Longrightarrow>
   (i < mid \<longrightarrow> ys = []) \<Longrightarrow>
   \<exists>l' r'. kc_split_loop cd mid i (map Inr zs) l r = Inr (l', r') \<and>
     rel l' (xs @ take (mid - i) zs) \<and> rel r' (ys @ drop (mid - i) zs)"
proof (induction zs arbitrary: i l r xs ys)
  case (Cons z zs)
  show ?case
  proof (cases "i < mid")
    case True
    then have m: "mid - i = Suc (mid - (i + 1))" by simp
    have "valid_samples (xs @ [z])" using Cons.prems(3) unfolding m by (simp add: valid_samples_append)
    then obtain l1 where "cd_push cd z l = Inr l1" "rel l1 (xs @ [z])" using rel_push Cons.prems(1) by blast
    then show ?thesis using Cons.IH [of l1 "xs @ [z]" r ys "i + 1"] Cons.prems True unfolding m by simp
  next
    case False
    have "valid_samples (ys @ [z])" using Cons.prems(4) False by (simp add: valid_samples_append)
    then obtain r1 where "cd_push cd z r = Inr r1" "rel r1 (ys @ [z])" using rel_push Cons.prems(2) by blast
    then show ?thesis using Cons.IH [of l xs r1 "ys @ [z]" "i + 1"] Cons.prems False by simp
  qed
qed simp

lemma split_ok:
  assumes inv: "kc_inv cd rel c"
  shows "\<exists>c' d. kc_split cd c = Inr (c', d) \<and> kc_inv cd rel c' \<and> kc_inv cd rel d \<and>
    (kc_samples cd c \<noteq> [] \<longrightarrow> kc_samples cd c' = take (length (kc_samples cd c) div 2) (kc_samples cd c) \<and>
      kc_samples cd d = drop (length (kc_samples cd c) div 2) (kc_samples cd c)) \<and>
    (kc_samples cd c = [] \<longrightarrow> kc_samples cd c' = [] \<and> kc_samples cd d = [])"
proof (cases "kc_samples cd c = []")
  case True
  then show ?thesis using inv inv_fields(3) [OF inv] by (simp add: kc_split_def)
next
  case False
  let ?xs = "kc_samples cd c" and ?mid = "length (kc_samples cd c) div 2"
  note f = inv_fields [OF inv]
  have v: "valid_samples (take ?mid ?xs)" "valid_samples (drop ?mid ?xs)"
    using f(4) append_take_drop_id [of ?mid ?xs] by (metis valid_samples_append)+
  obtain l r where lr: "kc_split_loop cd ?mid 0 (map Inr ?xs) (cd_new cd (max_size c)) (cd_new cd (max_size c)) = Inr (l, r)"
    "rel l (take ?mid ?xs)" "rel r (drop ?mid ?xs)"
    using split_loop_ok [OF rel_new rel_new, of ?mid 0 ?xs "max_size c" "max_size c"] v by auto
  then show ?thesis using False inv_of_rel [OF lr(2), of c] inv_of_rel [OF lr(3), of "kc_with_max_size cd (max_size c)"]
    by (simp add: kc_split_def Let_def f(2,3) kc_with_max_size_def)
qed

end

sublocale seq_codec \<subseteq> chunk_contract "kc_inv cd rel" "kc_samples cd" "kc_len cd" "kc_first_timestamp cd"
  "kc_last_timestamp cd" "kc_last_value cd" "kc_is_full cd" "kc_remove_range cd" "kc_add_sample cd" "kc_get_range cd"
  "kc_upsert_sample cd" "kc_merge_samples cd" "kc_clear cd" "kc_set_data cd" "kc_split cd"
proof (unfold_locales, goal_cases)
  case (9 c s p xs)
  then show ?case using upsert_eq [of c s p] inv_of_rel by fastforce
next
  case (10 c s p e)
  then show ?case using upsert_eq [of c s p] by simp
next
  case (11 c s p n c')
  then show ?case using upsert_eq [of c s p] inv_of_rel by (fastforce split: sum.splits)
next
  case (12 c ys p dp)
  then show ?case using merge_ok [of c ys p dp] by auto
next
  case (13 c)
  then show ?case using inv_of_rel [OF rel_clear [OF inv_fields(1)], of c c] by (simp add: kc_clear_def)
next
  case (14 c ys)
  then obtain e where "foldR (cd_push cd) ys (cd_new cd (max_size c)) = Inr e" "rel e ys" using push_fresh by blast
  then show ?case using inv_of_rel [of e ys c] by (simp add: kc_set_data_def kc_compress_def)
next
  case (15 c)
  then obtain c' d where "kc_split cd c = Inr (c', d)" "kc_inv cd rel c'" "kc_inv cd rel d"
    "kc_samples cd c \<noteq> [] \<longrightarrow> kc_samples cd c' = take (length (kc_samples cd c) div 2) (kc_samples cd c) \<and>
      kc_samples cd d = drop (length (kc_samples cd c) div 2) (kc_samples cd c)"
    "kc_samples cd c = [] \<longrightarrow> kc_samples cd c' = [] \<and> kc_samples cd d = []"
    using split_ok by blast
  then show ?case by (cases "kc_samples cd c = []") auto
qed (simp_all add: inv_fields first_last remove_range_ok add_sample_ok get_range_eq)

end
