(* ===== verification/Gorilla.thy ===== *)
theory Gorilla
  imports Varbit Codec_Chunk
begin

text \<open>
  \<open>src/series/chunks/gorilla/\<close>: the encoder and its iterator. The stream holds the
  first sample whole, the second with its delta, and the others as delta-of-delta and XOR; the
  iterator reads it back, taking the last sample from the encoder's fields. A bit list per
  sample list (\<open>gorilla_bits\<close>) is what the encoder writes and what the iterator decodes; with it
  the encoder is a \<open>seq_codec\<close>.
\<close>

section \<open>The encoder\<close>

record gorilla_encoder =
  ge_writer :: bitstream
  ge_leading_bits :: nat
  ge_trailing_bits :: nat
  ge_timestamp_delta :: int
  ge_num_samples :: nat
  ge_first_ts :: timestamp
  ge_last_ts :: timestamp
  ge_last_value :: f64

definition ge_new :: gorilla_encoder where
  "ge_new = \<lparr>ge_writer = bs_new, ge_leading_bits = 0, ge_trailing_bits = 0, ge_timestamp_delta = 0,
     ge_num_samples = 0, ge_first_ts = 0, ge_last_ts = 0, ge_last_value = 0\<rparr>"

definition ge_clear :: "gorilla_encoder \<Rightarrow> gorilla_encoder" where
  "ge_clear e = e\<lparr>ge_writer := bs_clear (ge_writer e), ge_num_samples := 0, ge_last_ts := 0, ge_last_value := 0,
     ge_leading_bits := 0, ge_trailing_bits := 0, ge_timestamp_delta := 0, ge_first_ts := 0\<rparr>"

definition ge_set_soft_cap :: "nat \<Rightarrow> gorilla_encoder \<Rightarrow> gorilla_encoder" where
  "ge_set_soft_cap sz e = e\<lparr>ge_writer := bs_set_soft_cap sz (ge_writer e)\<rparr>"

definition ge_with_soft_cap :: "nat \<Rightarrow> gorilla_encoder" where
  "ge_with_soft_cap sz = ge_set_soft_cap sz ge_new"

definition ge_write_first_sample :: "sample \<Rightarrow> gorilla_encoder \<Rightarrow> io_error + gorilla_encoder" where
  "ge_write_first_sample s e =
     bindR (bs_write_varint (timestamp s) (ge_writer e)) (\<lambda>w.
       Inr (e\<lparr>ge_writer := bs_write_f64 (val s) w, ge_first_ts := timestamp s, ge_last_ts := timestamp s,
         ge_last_value := val s, ge_num_samples := ge_num_samples e + 1\<rparr>))"

definition ge_write_second_sample :: "sample \<Rightarrow> gorilla_encoder \<Rightarrow> io_error + gorilla_encoder" where
  "ge_write_second_sample s e =
     (let delta = i64 (timestamp s - ge_last_ts e) in
      if delta < 0 then Inl (InvalidData ''samples aren't sorted by timestamp ascending'')
      else
        bindR (bs_write_uvarint (as_u64 delta) (ge_writer e)) (\<lambda>w1.
        bindR (write_varbit_xor bs_write_bit bs_write_bits (val s) (ge_last_value e) 255 0 w1) (\<lambda>((l, t), w2).
          Inr (e\<lparr>ge_writer := w2, ge_last_ts := timestamp s, ge_last_value := val s, ge_leading_bits := l,
            ge_trailing_bits := t, ge_timestamp_delta := delta, ge_num_samples := ge_num_samples e + 1\<rparr>))))"

definition ge_write_nth_sample :: "sample \<Rightarrow> gorilla_encoder \<Rightarrow> io_error + gorilla_encoder" where
  "ge_write_nth_sample s e =
     (let delta = i64 (timestamp s - ge_last_ts e) in
      if delta < 0 then Inl (InvalidData ''samples aren't sorted by timestamp ascending'')
      else
        let delta_of_delta = i64 (delta - ge_timestamp_delta e) in
        bindR (write_varbit bs_write_bit bs_write_bits delta_of_delta (ge_writer e)) (\<lambda>w1.
        bindR (write_varbit_xor bs_write_bit bs_write_bits (val s) (ge_last_value e)
            (ge_leading_bits e) (ge_trailing_bits e) w1) (\<lambda>((l, t), w2).
          Inr (e\<lparr>ge_writer := w2, ge_last_ts := timestamp s, ge_last_value := val s, ge_leading_bits := l,
            ge_trailing_bits := t, ge_timestamp_delta := delta, ge_num_samples := ge_num_samples e + 1\<rparr>))))"

definition ge_add_sample :: "sample \<Rightarrow> gorilla_encoder \<Rightarrow> io_error + gorilla_encoder" where
  "ge_add_sample s e =
     (if ge_num_samples e = 0 then ge_write_first_sample s e
      else if ge_num_samples e = 1 then ge_write_second_sample s e
      else ge_write_nth_sample s e)"

definition ge_buf :: "gorilla_encoder \<Rightarrow> u8 list" where
  "ge_buf e = stream (ge_writer e)"

text \<open>The fields of the encoder as bytes, with \<open>as u64\<close> of the timestamps and \<open>u8\<close> bit counts.\<close>

definition ge_serialize :: "gorilla_encoder \<Rightarrow> u8 list \<Rightarrow> u8 list" where
  "ge_serialize e buf =
     (let b1 = write_uvarint buf (word_of_nat (ge_num_samples e));
          b2 = write_uvarint b1 (as_u64 (ge_first_ts e));
          b3 = write_uvarint b2 (as_u64 (ge_last_ts e));
          b4 = write_f64_le b3 (ge_last_value e);
          b5 = write_uvarint b4 (as_u64 (ge_timestamp_delta e))
      in bs_serialize (ge_writer e) (b5 @ [word_of_nat (ge_leading_bits e), word_of_nat (ge_trailing_bits e)]))"

definition read_unsigned_varint :: "u8 list \<Rightarrow> (u64 \<times> u8 list) tsdb_result" where
  "read_unsigned_varint buf = map_err (\<lambda>_. ChunkDecoding) (try_read_uvarint buf)"

definition read_timestamp :: "u8 list \<Rightarrow> (timestamp \<times> u8 list) tsdb_result" where
  "read_timestamp buf = map_ok (\<lambda>(d, b). (as_i64 d, b)) (read_unsigned_varint buf)"

definition read_usize :: "u8 list \<Rightarrow> (nat \<times> u8 list) tsdb_result" where
  "read_usize buf = map_ok (\<lambda>(v, b). (unat v, b)) (read_unsigned_varint buf)"

definition ge_deserialize :: "u8 list \<Rightarrow> gorilla_encoder tsdb_result" where
  "ge_deserialize buf =
     bindR (read_usize buf) (\<lambda>(n, b1).
     bindR (read_timestamp b1) (\<lambda>(first, b2).
     bindR (read_timestamp b2) (\<lambda>(lst, b3).
     bindR (map_err (\<lambda>_. ChunkDecoding) (try_read_f64_le b3)) (\<lambda>(v, b4).
     bindR (read_unsigned_varint b4) (\<lambda>(delta, b5).
       if length b5 < 2 then Inl ChunkDecoding
       else
         bindR (map_err (\<lambda>_. ChunkDecoding) (bs_deserialize (drop 2 b5))) (\<lambda>(w, b6).
           Inr \<lparr>ge_writer = w, ge_leading_bits = unat (b5 ! 0), ge_trailing_bits = unat (b5 ! 1),
             ge_timestamp_delta = as_i64 delta, ge_num_samples = n, ge_first_ts = first, ge_last_ts = lst,
             ge_last_value = v\<rparr>))))))"

definition ge_eq :: "gorilla_encoder \<Rightarrow> gorilla_encoder \<Rightarrow> bool" where
  "ge_eq a b \<longleftrightarrow> ge_num_samples a = ge_num_samples b \<and> ge_last_ts a = ge_last_ts b \<and>
     f64_eq (ge_last_value a) (ge_last_value b) \<and> ge_leading_bits a = ge_leading_bits b \<and>
     ge_trailing_bits a = ge_trailing_bits b \<and> ge_timestamp_delta a = ge_timestamp_delta b \<and>
     bs_eq (ge_writer a) (ge_writer b)"

section \<open>The iterator\<close>

record gorilla_iterator =
  gi_reader :: bitreader
  gi_idx :: nat
  gi_num_samples :: nat
  gi_leading_bits :: nat
  gi_trailing_bits :: nat
  gi_timestamp_delta :: u64
  gi_timestamp :: timestamp
  gi_value :: f64
  gi_last_timestamp :: timestamp
  gi_last_value :: f64
  gi_last_idx :: nat

definition gi_new :: "gorilla_encoder \<Rightarrow> gorilla_iterator" where
  "gi_new e = \<lparr>gi_reader = br_new (ge_buf e), gi_idx = 0, gi_num_samples = ge_num_samples e, gi_leading_bits = 0,
     gi_trailing_bits = 0, gi_timestamp_delta = 0, gi_timestamp = 0, gi_value = 0, gi_last_timestamp = ge_last_ts e,
     gi_last_value = ge_last_value e, gi_last_idx = ge_num_samples e - 1\<rparr>"

definition decoding_error :: "string \<Rightarrow> io_error + 'a \<Rightarrow> 'a tsdb_result" where
  "decoding_error msg r = map_err (\<lambda>_. DecodingError msg) r"

definition gi_read_first_sample :: "gorilla_iterator \<Rightarrow> (sample \<times> gorilla_iterator) tsdb_result" where
  "gi_read_first_sample it =
     bindR (decoding_error ''Error decoding timestamp'' (br_read_varint (gi_reader it))) (\<lambda>(ts, r1).
     bindR (decoding_error ''Error decoding value'' (br_read_f64 r1)) (\<lambda>(v, r2).
       Inr (sample_new ts v,
         it\<lparr>gi_reader := r2, gi_timestamp := ts, gi_value := v, gi_idx := gi_idx it + 1\<rparr>)))"

definition gi_read_value :: "gorilla_iterator \<Rightarrow> bitreader \<Rightarrow> ((f64 \<times> nat \<times> nat) \<times> bitreader) tsdb_result" where
  "gi_read_value it r =
     decoding_error ''Error reading value''
       (read_varbit_xor br_read_bit bit_read_bits r (gi_value it) (gi_leading_bits it) (gi_trailing_bits it))"

definition gi_read_second_sample :: "gorilla_iterator \<Rightarrow> (sample \<times> gorilla_iterator) tsdb_result" where
  "gi_read_second_sample it =
     bindR (decoding_error ''Eof reading delta-of-delta'' (br_read_uvarint (gi_reader it))) (\<lambda>(delta, r1).
     bindR (gi_read_value it r1) (\<lambda>((v, l, t), r2).
       if 2 ^ 63 \<le> unat delta then Inl (DecodingError ''Timestamp delta too large'')
       else
         let ts = i64 (gi_timestamp it + int (unat delta)) in
         Inr (sample_new ts v,
           it\<lparr>gi_reader := r2, gi_timestamp := ts, gi_value := v, gi_leading_bits := l, gi_trailing_bits := t,
             gi_timestamp_delta := delta, gi_idx := gi_idx it + 1\<rparr>)))"

definition gi_read_nth_sample :: "gorilla_iterator \<Rightarrow> (sample \<times> gorilla_iterator) tsdb_result" where
  "gi_read_nth_sample it =
     bindR (decoding_error ''XOR encoder'' (read_varbit_int br_read_bit bit_read_bits (gi_reader it))) (\<lambda>(dod, r1).
     bindR (gi_read_value it r1) (\<lambda>((v, l, t), r2).
       let delta = as_u64 (i64 (as_i64 (gi_timestamp_delta it) + dod));
           ts = i64 (gi_timestamp it + as_i64 delta)
       in Inr (sample_new ts v,
           it\<lparr>gi_reader := r2, gi_timestamp_delta := delta, gi_timestamp := ts, gi_leading_bits := l,
             gi_trailing_bits := t, gi_value := v, gi_idx := gi_idx it + 1\<rparr>)))"

definition gi_read_last_sample :: "gorilla_iterator \<Rightarrow> (sample \<times> gorilla_iterator) tsdb_result" where
  "gi_read_last_sample it =
     Inr (sample_new (gi_last_timestamp it) (gi_last_value it), it\<lparr>gi_idx := gi_idx it + 1\<rparr>)"

text \<open>\<open>Iterator::next\<close>.\<close>

definition gi_next :: "gorilla_iterator \<Rightarrow> (sample \<times> gorilla_iterator) tsdb_result option" where
  "gi_next it =
     (if gi_num_samples it \<le> gi_idx it then None
      else Some
        (if gi_idx it = 0 then gi_read_first_sample it
         else if gi_idx it = 1 then gi_read_second_sample it
         else if gi_idx it = gi_last_idx it then gi_read_last_sample it
         else gi_read_nth_sample it))"

lemma gi_next_advances:
  assumes "gi_next it = Some (Inr (s, it'))"
  shows "gi_num_samples it' - gi_idx it' < gi_num_samples it - gi_idx it"
proof -
  have "gi_idx it' = gi_idx it + 1 \<and> gi_num_samples it' = gi_num_samples it \<and> gi_idx it < gi_num_samples it"
    using assms unfolding gi_next_def
    by (auto simp: gi_read_first_sample_def gi_read_second_sample_def gi_read_last_sample_def gi_read_nth_sample_def
        result_iffs Let_def split: if_splits)
  then show ?thesis by linarith
qed

text \<open>The items of one pass, up to the first error.\<close>

function gi_items :: "gorilla_iterator \<Rightarrow> sample tsdb_result list" where
  "gi_items it =
     (case gi_next it of None \<Rightarrow> []
      | Some (Inl e) \<Rightarrow> [Inl e]
      | Some (Inr (s, it')) \<Rightarrow> Inr s # gi_items it')"
  by pat_completeness auto
termination
  by (relation "measure (\<lambda>it. gi_num_samples it - gi_idx it)") (auto simp: gi_next_advances)

declare gi_items.simps [simp del]

definition ge_iter :: "gorilla_encoder \<Rightarrow> sample tsdb_result list" where
  "ge_iter e = gi_items (gi_new e)"

section \<open>The bits of a sample list\<close>

text \<open>The state both sides carry: the last delta, the last sample and the value window.\<close>

type_synonym gorilla_state = "int \<times> sample \<times> nat \<times> nat"

definition gs_next :: "gorilla_state \<Rightarrow> sample \<Rightarrow> gorilla_state" where
  "gs_next = (\<lambda>(d, p, l, t) s. (timestamp s - timestamp p, s, next_window (val s XOR val p) l t))"

definition gs_bits :: "gorilla_state \<Rightarrow> sample \<Rightarrow> bool list" where
  "gs_bits = (\<lambda>(d, p, l, t) s. varbit_bits (timestamp s - timestamp p - d) @ xor_bits (val s XOR val p) l t)"

fun gorilla_tail :: "gorilla_state \<Rightarrow> sample list \<Rightarrow> bool list" where
  "gorilla_tail st [] = []"
| "gorilla_tail st (s # ss) = gs_bits st s @ gorilla_tail (gs_next st s) ss"

definition uvarint_bits :: "u64 \<Rightarrow> bool list" where
  "uvarint_bits v = stream_bits (write_uvarint [] v)"

definition gs_start :: "sample \<Rightarrow> sample \<Rightarrow> gorilla_state" where
  "gs_start a b = (timestamp b - timestamp a, b, next_window (val b XOR val a) 255 0)"

fun gorilla_bits :: "sample list \<Rightarrow> bool list" where
  "gorilla_bits [] = []"
| "gorilla_bits [a] = uvarint_bits (zigzag_encode (timestamp a)) @ bits_of 64 (val a)"
| "gorilla_bits (a # b # ss) =
     uvarint_bits (zigzag_encode (timestamp a)) @ bits_of 64 (val a) @
     uvarint_bits (as_u64 (timestamp b - timestamp a)) @ xor_bits (val b XOR val a) 255 0 @
     gorilla_tail (gs_start a b) ss"

text \<open>The encoder's state after a sample list.\<close>

fun gorilla_window :: "sample list \<Rightarrow> int \<times> nat \<times> nat" where
  "gorilla_window (a # b # ss) = (case foldl gs_next (gs_start a b) ss of (d, p, w) \<Rightarrow> (d, w))"
| "gorilla_window _ = (0, 0, 0)"

definition gorilla_rel :: "gorilla_encoder \<Rightarrow> sample list \<Rightarrow> bool" where
  "gorilla_rel e xs \<longleftrightarrow> valid_samples xs \<and> ge_num_samples e = length xs \<and> bs_rel (ge_writer e) (gorilla_bits xs) \<and>
     (xs \<noteq> [] \<longrightarrow> ge_first_ts e = timestamp (hd xs) \<and> ge_last_ts e = timestamp (List.last xs) \<and>
        ge_last_value e = val (List.last xs)) \<and>
     (xs = [] \<longrightarrow> ge_first_ts e = 0 \<and> ge_last_ts e = 0) \<and>
     gorilla_window xs = (ge_timestamp_delta e, ge_leading_bits e, ge_trailing_bits e)"

lemma gorilla_tail_snoc: "gorilla_tail st (ss @ [s]) = gorilla_tail st ss @ gs_bits (foldl gs_next st ss) s"
  by (induction ss arbitrary: st) auto

lemma gs_next_pair: "gs_next (d, p, w) s = (timestamp s - timestamp p, s, next_window (val s XOR val p) (fst w) (snd w))"
  by (simp add: gs_next_def split: prod.split)

lemma foldl_gs_next:
  "valid_samples (p # ss) \<Longrightarrow> 0 < d \<Longrightarrow> d \<le> i64_max \<Longrightarrow>
   \<exists>d' w'. foldl gs_next (d, p, w) ss = (d', List.last (p # ss), w') \<and> 0 < d' \<and> d' \<le> i64_max"
proof (induction ss arbitrary: d p w)
  case (Cons s ss)
  have "valid_samples (s # ss)" "0 < timestamp s - timestamp p" "timestamp s - timestamp p \<le> i64_max"
    using Cons.prems(1) by (auto simp: valid_ts_def)
  from Cons.IH [OF this] show ?case by (simp add: gs_next_pair)
qed simp

lemma gorilla_state:
  assumes "valid_samples (a # b # ss)"
  shows "\<exists>d l t. foldl gs_next (gs_start a b) ss = (d, List.last (b # ss), l, t) \<and> 0 < d \<and> d \<le> i64_max"
proof -
  have "valid_samples (b # ss)" "0 < timestamp b - timestamp a" "timestamp b - timestamp a \<le> i64_max"
    using assms by (auto simp: valid_ts_def)
  from foldl_gs_next [OF this] show ?thesis unfolding gs_start_def by (metis surj_pair)
qed

lemma valid_delta:
  assumes "valid_samples (xs @ [s])" "xs \<noteq> []"
  shows "0 < timestamp s - timestamp (List.last xs)" "is_i64 (timestamp s - timestamp (List.last xs))"
    "is_i64 (timestamp s)" "is_i64 (timestamp (List.last xs))"
proof -
  have "List.last xs \<in> set xs" using assms(2) by simp
  then have "valid_ts (timestamp (List.last xs))" "valid_ts (timestamp s)" "timestamp (List.last xs) < timestamp s"
    using assms(1) by (auto simp: valid_samples_def ksorted_append)
  then show "0 < timestamp s - timestamp (List.last xs)" "is_i64 (timestamp s - timestamp (List.last xs))"
    "is_i64 (timestamp s)" "is_i64 (timestamp (List.last xs))"
    by (auto simp: valid_ts_def is_i64_def i64_min_def i64_max_def)
qed

section \<open>Writing\<close>

lemma gorilla_rel_new: "gorilla_rel (ge_with_soft_cap sz) []"
  by (simp add: gorilla_rel_def ge_with_soft_cap_def ge_set_soft_cap_def ge_new_def)

lemma gorilla_rel_clear: "gorilla_rel (ge_clear e) []"
  by (simp add: gorilla_rel_def ge_clear_def)

lemma write_first:
  assumes "gorilla_rel e []" "valid_samples [s]"
  shows "\<exists>e'. ge_add_sample s e = Inr e' \<and> gorilla_rel e' [s]"
proof -
  have rel: "bs_rel (ge_writer e) []" "ge_num_samples e = 0"
    "ge_timestamp_delta e = 0" "ge_leading_bits e = 0" "ge_trailing_bits e = 0"
    using assms(1) by (simp_all add: gorilla_rel_def)
  obtain w where w: "bs_write_varint (timestamp s) (ge_writer e) = Inr w"
    "bs_rel w (uvarint_bits (zigzag_encode (timestamp s)))"
    using bs_write_varint_rel [OF rel(1), of "timestamp s"] by (auto simp: uvarint_bits_def)
  then show ?thesis using rel assms(2) bs_write_f64_rel [OF w(2), of "val s"]
    by (simp add: ge_add_sample_def ge_write_first_sample_def gorilla_rel_def)
qed

lemma write_second:
  assumes e: "gorilla_rel e [a]" and v: "valid_samples [a, s]"
  shows "\<exists>e'. ge_add_sample s e = Inr e' \<and> gorilla_rel e' [a, s]"
proof -
  have f: "bs_rel (ge_writer e) (gorilla_bits [a])" "ge_num_samples e = 1" "ge_last_ts e = timestamp a"
    "ge_last_value e = val a" "ge_first_ts e = timestamp a" using e by (simp_all add: gorilla_rel_def)
  define d where "d = timestamp s - timestamp a"
  have d: "i64 (timestamp s - ge_last_ts e) = d" "\<not> d < 0"
    using valid_delta [of "[a]" s] v f(3) by (simp_all add: d_def)
  define w1 where "w1 = bs_write_uvarint_loop (as_u64 d) (ge_writer e)"
  have w1: "bs_rel w1 (gorilla_bits [a] @ uvarint_bits (as_u64 d))"
    unfolding w1_def uvarint_bits_def by (rule bs_write_uvarint_loop_rel [OF f(1)])
  obtain l t w2 where w2: "next_window (val s XOR val a) 255 0 = (l, t)"
    "write_varbit_xor bs_write_bit bs_write_bits (val s) (val a) 255 0 w1 = Inr ((l, t), w2)"
    "bs_rel w2 ((gorilla_bits [a] @ uvarint_bits (as_u64 d)) @ xor_bits (val s XOR val a) 255 0)"
    using bsw.write_varbit_xor_spec [OF w1 refl, of "val s" "val a" 255 0]
    by (cases "next_window (val s XOR val a) 255 0") auto
  have "ge_add_sample s e = Inr (e\<lparr>ge_writer := w2, ge_last_ts := timestamp s, ge_last_value := val s,
      ge_leading_bits := l, ge_trailing_bits := t, ge_timestamp_delta := d, ge_num_samples := 2\<rparr>)"
    using f d w2(2) by (simp add: ge_add_sample_def ge_write_second_sample_def bs_write_uvarint_def w1_def [symmetric])
  then show ?thesis using f w2 v by (simp add: gorilla_rel_def gs_start_def d_def)
qed

lemma write_nth:
  assumes e: "gorilla_rel e (a # b # ss)" and v: "valid_samples (a # b # ss @ [s])"
  shows "\<exists>e'. ge_add_sample s e = Inr e' \<and> gorilla_rel e' (a # b # ss @ [s])"
proof -
  let ?xs = "a # b # ss"
  have v': "valid_samples ?xs" "valid_samples (?xs @ [s])" using v by (auto simp: valid_samples_append)
  define p where "p = List.last (b # ss)"
  obtain d l t where st: "foldl gs_next (gs_start a b) ss = (d, p, l, t)" and d: "0 < d" "d \<le> i64_max"
    using gorilla_state [OF v'(1)] unfolding p_def by blast
  have f: "bs_rel (ge_writer e) (gorilla_bits ?xs)" "ge_num_samples e = length ss + 2" "ge_last_ts e = timestamp p"
    "ge_last_value e = val p" "ge_first_ts e = timestamp a" "ge_timestamp_delta e = d"
    "ge_leading_bits e = l" "ge_trailing_bits e = t" using e st by (simp_all add: gorilla_rel_def p_def)
  define d' where "d' = timestamp s - timestamp p"
  have d': "i64 (timestamp s - ge_last_ts e) = d'" "\<not> d' < 0" "i64 (d' - d) = d' - d"
    using valid_delta [OF v'(2)] f(3) d by (auto simp: d'_def p_def is_i64_def i64_min_def i64_max_def intro!: i64_id)
  obtain w1 where w1: "write_varbit bs_write_bit bs_write_bits (d' - d) (ge_writer e) = Inr w1"
    "bs_rel w1 (gorilla_bits ?xs @ varbit_bits (d' - d))"
    using bsw.write_varbit_spec [OF f(1)] by blast
  obtain l' t' w2 where w2: "next_window (val s XOR val p) l t = (l', t')"
    "write_varbit_xor bs_write_bit bs_write_bits (val s) (val p) l t w1 = Inr ((l', t'), w2)"
    "bs_rel w2 ((gorilla_bits ?xs @ varbit_bits (d' - d)) @ xor_bits (val s XOR val p) l t)"
    using bsw.write_varbit_xor_spec [OF w1(2) refl, of "val s" "val p" l t]
    by (cases "next_window (val s XOR val p) l t") auto
  have "ge_add_sample s e = Inr (e\<lparr>ge_writer := w2, ge_last_ts := timestamp s, ge_last_value := val s,
      ge_leading_bits := l', ge_trailing_bits := t', ge_timestamp_delta := d', ge_num_samples := length ss + 3\<rparr>)"
    using f d' w1(1) w2(2) by (simp add: ge_add_sample_def ge_write_nth_sample_def Let_def)
  moreover have "gorilla_bits (a # b # ss @ [s]) = (gorilla_bits ?xs @ varbit_bits (d' - d)) @ xor_bits (val s XOR val p) l t"
    by (simp add: gorilla_tail_snoc st gs_bits_def d'_def)
  moreover have "gorilla_window (a # b # ss @ [s]) = (d', l', t')"
    by (simp add: st gs_next_pair w2(1) d'_def)
  ultimately show ?thesis using f w2(3) v by (simp add: gorilla_rel_def del: gorilla_bits.simps gorilla_window.simps)
qed

lemma gorilla_rel_push:
  assumes e: "gorilla_rel e xs" and v: "valid_samples (xs @ [s])"
  shows "\<exists>e'. ge_add_sample s e = Inr e' \<and> gorilla_rel e' (xs @ [s])"
proof -
  consider "xs = []" | a where "xs = [a]" | a b ss where "xs = a # b # ss" by (metis neq_Nil_conv)
  then show ?thesis
  proof cases
    case 1
    then show ?thesis using write_first e v by simp
  next
    case 2
    then show ?thesis using write_second e v by simp
  next
    case 3
    then show ?thesis using write_nth e v by simp
  qed
qed

section \<open>Reading\<close>

lemma gi_items_done: "gi_num_samples it \<le> gi_idx it \<Longrightarrow> gi_items it = []"
  by (subst gi_items.simps) (simp add: gi_next_def)

lemma gi_items_step: "gi_next it = Some (Inr (s, it')) \<Longrightarrow> gi_items it = Inr s # gi_items it'"
  by (subst gi_items.simps) simp

text \<open>The reader's side of the state.\<close>

definition gi_at :: "gorilla_iterator \<Rightarrow> gorilla_state \<Rightarrow> bool list \<Rightarrow> bool" where
  "gi_at it = (\<lambda>(d, p, w) bs. br_inv (gi_reader it) \<and> br_bits (gi_reader it) = bs \<and> gi_timestamp it = timestamp p \<and>
     gi_value it = val p \<and> gi_timestamp_delta it = as_u64 d \<and>
     window_rel w (gi_leading_bits it, gi_trailing_bits it))"

lemma read_value_spec:
  assumes "br_inv r" "br_bits r = xor_bits (x XOR gi_value it) l t @ ys"
    "window_rel (l, t) (gi_leading_bits it, gi_trailing_bits it)"
  shows "\<exists>rl rt r'. gi_read_value it r = Inr ((x, rl, rt), r') \<and> br_inv r' \<and> br_bits r' = ys \<and>
     window_rel (next_window (x XOR gi_value it) l t) (rl, rt)"
  using brr.read_varbit_xor_spec [OF assms(1,2) refl assms(3)] by (fastforce simp: gi_read_value_def decoding_error_def)

lemma read_nth_spec:
  assumes at: "gi_at it (d, p, l, t) (gs_bits (d, p, l, t) s @ ys)" and v: "valid_samples [p, s]"
    and d: "0 < d" "d \<le> i64_max"
  shows "\<exists>it'. gi_read_nth_sample it = Inr (s, it') \<and> gi_at it' (gs_next (d, p, l, t) s) ys \<and>
     gi_idx it' = gi_idx it + 1 \<and> gi_num_samples it' = gi_num_samples it \<and> gi_last_idx it' = gi_last_idx it \<and>
     gi_last_timestamp it' = gi_last_timestamp it \<and> gi_last_value it' = gi_last_value it"
proof -
  let ?dod = "timestamp s - timestamp p - d"
  have f: "br_inv (gi_reader it)" "br_bits (gi_reader it) = varbit_bits ?dod @ xor_bits (val s XOR val p) l t @ ys"
    "gi_timestamp it = timestamp p" "gi_value it = val p" "gi_timestamp_delta it = as_u64 d"
    "window_rel (l, t) (gi_leading_bits it, gi_trailing_bits it)"
    using at by (simp_all add: gi_at_def gs_bits_def)
  have r: "is_i64 ?dod" "is_i64 d" "is_i64 (timestamp s - timestamp p)" "is_i64 (timestamp s)"
    using v d by (auto simp: valid_ts_def is_i64_def i64_min_def i64_max_def)
  obtain r1 where r1: "read_varbit_int br_read_bit bit_read_bits (gi_reader it) = Inr (?dod, r1)" "br_inv r1"
    "br_bits r1 = xor_bits (val s XOR gi_value it) l t @ ys"
    using brr.read_varbit_int_spec [OF f(1,2) r(1)] unfolding f(4) by blast
  obtain rl rt r2 where r2: "gi_read_value it r1 = Inr ((val s, rl, rt), r2)" "br_inv r2" "br_bits r2 = ys"
    "window_rel (next_window (val s XOR val p) l t) (rl, rt)"
    using read_value_spec [OF r1(2,3) f(6)] unfolding f(4) by blast
  have "i64 (as_i64 (gi_timestamp_delta it) + ?dod) = timestamp s - timestamp p"
    "i64 (gi_timestamp it + as_i64 (as_u64 (timestamp s - timestamp p))) = timestamp s"
    using r f(3,5) by (simp_all add: as_i64_as_u64)
  then show ?thesis using r1(1) r2
    by (simp add: gi_read_nth_sample_def decoding_error_def gi_at_def gs_next_pair sample_collapse Let_def)
qed

lemma gi_items_tail:
  assumes "gi_at it (d, p, l, t) (gorilla_tail (d, p, l, t) ss @ ys)" "valid_samples (p # ss)" "0 < d" "d \<le> i64_max"
    "2 \<le> gi_idx it" "gi_num_samples it = gi_idx it + length ss" "gi_last_idx it = gi_num_samples it - 1"
    "ss \<noteq> [] \<longrightarrow> gi_last_timestamp it = timestamp (List.last ss) \<and> gi_last_value it = val (List.last ss)"
  shows "gi_items it = map Inr ss"
  using assms
proof (induction ss arbitrary: it d p l t)
  case Nil
  then show ?case by (simp add: gi_items_done)
next
  case (Cons s ss)
  show ?case
  proof (cases "ss = []")
    case True
    then have "gi_next it = Some (Inr (s, it\<lparr>gi_idx := gi_idx it + 1\<rparr>))"
      using Cons.prems by (simp add: gi_next_def gi_read_last_sample_def sample_collapse)
    then show ?thesis using Cons.prems(6) True by (simp add: gi_items_step gi_items_done)
  next
    case False
    then have idx: "gi_idx it \<noteq> gi_last_idx it" using Cons.prems by (cases ss) auto
    have v: "valid_samples [p, s]" "valid_samples (s # ss)" using Cons.prems(2) by auto
    obtain it' where it': "gi_read_nth_sample it = Inr (s, it')"
      "gi_at it' (gs_next (d, p, l, t) s) (gorilla_tail (gs_next (d, p, l, t) s) ss @ ys)"
      "gi_idx it' = gi_idx it + 1" "gi_num_samples it' = gi_num_samples it" "gi_last_idx it' = gi_last_idx it"
      "gi_last_timestamp it' = gi_last_timestamp it" "gi_last_value it' = gi_last_value it"
      using read_nth_spec [OF _ v(1) Cons.prems(3,4), of it l t "gorilla_tail (gs_next (d, p, l, t) s) ss @ ys"]
        Cons.prems(1) by auto
    obtain l' t' where st: "gs_next (d, p, l, t) s = (timestamp s - timestamp p, s, l', t')"
      by (metis gs_next_pair surj_pair)
    have "0 < timestamp s - timestamp p" "timestamp s - timestamp p \<le> i64_max" using v(1) by (auto simp: valid_ts_def)
    then have "gi_items it' = map Inr ss"
      using Cons.IH [OF it'(2) [unfolded st] v(2)] it'(3-) Cons.prems False by simp
    moreover have "gi_next it = Some (Inr (s, it'))" using it'(1) Cons.prems idx by (simp add: gi_next_def)
    ultimately show ?thesis by (simp add: gi_items_step)
  qed
qed

lemma read_first_spec:
  assumes "br_inv (gi_reader it)" "br_bits (gi_reader it) = uvarint_bits (zigzag_encode (timestamp a)) @ bits_of 64 (val a) @ ys"
    "is_i64 (timestamp a)"
  shows "\<exists>r. gi_read_first_sample it =
      Inr (a, it\<lparr>gi_reader := r, gi_timestamp := timestamp a, gi_value := val a, gi_idx := gi_idx it + 1\<rparr>) \<and>
      br_inv r \<and> br_bits r = ys"
proof -
  obtain r1 where r1: "br_read_varint (gi_reader it) = Inr (timestamp a, r1)" "br_inv r1" "br_bits r1 = bits_of 64 (val a) @ ys"
    using br_read_varint_spec [OF assms(1) assms(2) [unfolded uvarint_bits_def] assms(3)] by blast
  then show ?thesis using br_read_f64_spec [OF r1(2,3)]
    by (auto simp: gi_read_first_sample_def decoding_error_def sample_collapse)
qed

lemma read_second_spec:
  assumes inv: "br_inv (gi_reader it)"
    and bits: "br_bits (gi_reader it) = uvarint_bits (as_u64 (timestamp b - timestamp a)) @ xor_bits (val b XOR val a) 255 0 @ ys"
    and it: "gi_timestamp it = timestamp a" "gi_value it = val a" "gi_leading_bits it = 0" "gi_trailing_bits it = 0"
    and v: "valid_samples [a, b]"
  shows "\<exists>it'. gi_read_second_sample it = Inr (b, it') \<and> gi_at it' (gs_start a b) ys \<and>
     gi_idx it' = gi_idx it + 1 \<and> gi_num_samples it' = gi_num_samples it \<and> gi_last_idx it' = gi_last_idx it \<and>
     gi_last_timestamp it' = gi_last_timestamp it \<and> gi_last_value it' = gi_last_value it"
proof -
  let ?d = "timestamp b - timestamp a"
  have d: "0 < ?d" "?d \<le> i64_max" using v by (auto simp: valid_ts_def)
  then have u: "unat (as_u64 ?d) = nat ?d" by (intro unat_as_u64) simp_all
  have b: "is_i64 (timestamp b)" using v by (simp add: valid_ts_is_i64)
  obtain r1 where r1: "br_read_uvarint (gi_reader it) = Inr (as_u64 ?d, r1)" "br_inv r1"
    "br_bits r1 = xor_bits (val b XOR gi_value it) 255 0 @ ys"
    using br_read_uvarint_spec [OF inv bits [unfolded uvarint_bits_def]] it(2) by auto
  obtain rl rt r2 where r2: "gi_read_value it r1 = Inr ((val b, rl, rt), r2)" "br_inv r2" "br_bits r2 = ys"
    "window_rel (next_window (val b XOR val a) 255 0) (rl, rt)"
    using read_value_spec [OF r1(2,3)] it by (auto simp: window_rel_def)
  have "\<not> 2 ^ 63 \<le> unat (as_u64 ?d)" "i64 (gi_timestamp it + int (unat (as_u64 ?d))) = timestamp b"
    using u d it(1) b by (simp_all add: i64_max_def nat_le_iff)
  then show ?thesis using r1(1) r2
    by (simp add: gi_read_second_sample_def decoding_error_def gi_at_def gs_start_def sample_collapse Let_def)
qed

lemma gi_items_first:
  assumes "gi_next it = Some (Inr (a, it1))" "gi_items it1 = map Inr ss" shows "gi_items it = map Inr (a # ss)"
  using assms by (simp add: gi_items_step)

lemma gorilla_rel_iter:
  assumes "gorilla_rel e xs" shows "ge_iter e = map Inr xs"
proof -
  define it where "it = gi_new e"
  note it = gi_new_def [of e, folded it_def]
  have f: "valid_samples xs" "ge_num_samples e = length xs" "bs_rel (ge_writer e) (gorilla_bits xs)"
    "xs \<noteq> [] \<Longrightarrow> ge_last_ts e = timestamp (List.last xs)" "xs \<noteq> [] \<Longrightarrow> ge_last_value e = val (List.last xs)"
    using assms by (simp_all add: gorilla_rel_def)
  obtain pad where bits: "br_bits (gi_reader it) = gorilla_bits xs @ pad" and inv: "br_inv (gi_reader it)"
    using f(3) by (simp add: it ge_buf_def bs_rel_def)
  have "gi_items it = map Inr xs"
  proof (cases xs rule: gorilla_bits.cases)
    case 1
    then show ?thesis using f(2) by (simp add: gi_items_done it)
  next
    case (2 a)
    have "is_i64 (timestamp a)" using f(1) 2 by simp
    then obtain r where "gi_read_first_sample it =
        Inr (a, it\<lparr>gi_reader := r, gi_timestamp := timestamp a, gi_value := val a, gi_idx := gi_idx it + 1\<rparr>)"
      using read_first_spec [OF inv, of a pad] bits 2 by auto
    then have "gi_next it = Some (Inr (a, it\<lparr>gi_reader := r, gi_timestamp := timestamp a, gi_value := val a, gi_idx := 1\<rparr>))"
      using f(2) 2 by (simp add: gi_next_def it)
    then show ?thesis using gi_items_first [of it a _ "[]"] f(2) 2 by (simp add: gi_items_done it)
  next
    case (3 a b ss)
    let ?rest = "uvarint_bits (as_u64 (timestamp b - timestamp a)) @ xor_bits (val b XOR val a) 255 0 @
      gorilla_tail (gs_start a b) ss @ pad"
    have v: "is_i64 (timestamp a)" "valid_samples [a, b]" "valid_samples (b # ss)" using f(1) 3 by auto
    obtain r where first: "gi_read_first_sample it =
        Inr (a, it\<lparr>gi_reader := r, gi_timestamp := timestamp a, gi_value := val a, gi_idx := gi_idx it + 1\<rparr>)"
      and r: "br_inv r" "br_bits r = ?rest"
      using read_first_spec [OF inv _ v(1), of ?rest] bits 3 by auto
    define it1 where "it1 = it\<lparr>gi_reader := r, gi_timestamp := timestamp a, gi_value := val a, gi_idx := 1\<rparr>"
    have n0: "gi_next it = Some (Inr (a, it1))" using first f(2) 3 by (simp add: gi_next_def it it1_def)
    obtain it2 where it2: "gi_read_second_sample it1 = Inr (b, it2)" "gi_at it2 (gs_start a b) (gorilla_tail (gs_start a b) ss @ pad)"
      "gi_idx it2 = 2" "gi_num_samples it2 = length xs" "gi_last_idx it2 = length xs - 1"
      "gi_last_timestamp it2 = ge_last_ts e" "gi_last_value it2 = ge_last_value e"
      using read_second_spec [of it1 b a "gorilla_tail (gs_start a b) ss @ pad"] r v(2) f(2)
      by (auto simp: it1_def it)
    have n1: "gi_next it1 = Some (Inr (b, it2))" using it2(1) f(2) 3 by (simp add: gi_next_def it1_def it)
    obtain l t where st: "gs_start a b = (timestamp b - timestamp a, b, l, t)" unfolding gs_start_def by (metis surj_pair)
    have "0 < timestamp b - timestamp a" "timestamp b - timestamp a \<le> i64_max" using v(2) by (auto simp: valid_ts_def)
    then have "gi_items it2 = map Inr ss"
      using gi_items_tail [OF it2(2) [unfolded st] v(3)] it2(3-) f(4,5) 3 by auto
    then show ?thesis using gi_items_first [OF n0 gi_items_first [OF n1]] 3 by simp
  qed
  then show ?thesis by (simp add: ge_iter_def it_def)
qed

section \<open>The codec\<close>

definition ge_push_sample :: "sample \<Rightarrow> gorilla_encoder \<Rightarrow> gorilla_encoder tsdb_result" where
  "ge_push_sample s e = map_err (\<lambda>_. CannotAddSample s) (ge_add_sample s e)"

definition gorilla_codec :: "gorilla_encoder codec" where
  "gorilla_codec = \<lparr>cd_new = ge_with_soft_cap, cd_push = ge_push_sample, cd_iter = ge_iter, cd_count = ge_num_samples,
     cd_first = ge_first_ts, cd_last = ge_last_ts, cd_last_value = ge_last_value, cd_data_size = length \<circ> ge_buf,
     cd_clear = ge_clear\<rparr>"

interpretation gor: seq_codec gorilla_codec gorilla_rel
proof (unfold_locales, goal_cases)
  case (2 e xs s)
  then show ?case using gorilla_rel_push [of e xs s] by (auto simp: gorilla_codec_def ge_push_sample_def)
next
  case (3 e xs)
  then show ?case by (simp add: gorilla_codec_def gorilla_rel_iter)
qed (simp_all add: gorilla_codec_def gorilla_rel_new gorilla_rel_clear, simp_all add: gorilla_rel_def)

end
