(* ===== verification/Gorilla_Chunk.thy ===== *)
theory Gorilla_Chunk
  imports Gorilla
begin

text \<open>
  \<open>src/series/chunks/gorilla/gorilla_chunk.rs\<close>: the chunk over the Gorilla encoder, its contract,
  and the round trip of its serialized form.
\<close>

section \<open>Definitions\<close>

type_synonym gorilla_chunk = "gorilla_encoder codec_chunk"

definition gc_with_max_size :: "nat \<Rightarrow> gorilla_chunk" where
  "gc_with_max_size = kc_with_max_size gorilla_codec"

definition gc_compress :: "gorilla_chunk \<Rightarrow> sample list \<Rightarrow> gorilla_chunk tsdb_result" where
  "gc_compress = kc_compress gorilla_codec"

definition gc_first_timestamp :: "gorilla_chunk \<Rightarrow> timestamp" where
  "gc_first_timestamp = kc_first_timestamp gorilla_codec"

definition gc_last_timestamp :: "gorilla_chunk \<Rightarrow> timestamp" where
  "gc_last_timestamp = kc_last_timestamp gorilla_codec"

definition gc_len :: "gorilla_chunk \<Rightarrow> nat" where
  "gc_len = kc_len gorilla_codec"

definition gc_last_value :: "gorilla_chunk \<Rightarrow> f64" where
  "gc_last_value = kc_last_value gorilla_codec"

definition gc_data_size :: "gorilla_chunk \<Rightarrow> nat" where
  "gc_data_size = kc_data_size gorilla_codec"

definition gc_remaining_capacity :: "gorilla_chunk \<Rightarrow> nat" where
  "gc_remaining_capacity = kc_remaining_capacity gorilla_codec"

definition gc_remaining_samples :: "gorilla_chunk \<Rightarrow> nat" where
  "gc_remaining_samples = kc_remaining_samples gorilla_codec"

definition gc_bytes_per_sample :: "gorilla_chunk \<Rightarrow> nat" where
  "gc_bytes_per_sample = kc_bytes_per_sample gorilla_codec"

definition gc_is_full :: "gorilla_chunk \<Rightarrow> bool" where
  "gc_is_full = kc_is_full gorilla_codec"

definition gc_range_iter :: "gorilla_chunk \<Rightarrow> timestamp \<Rightarrow> timestamp \<Rightarrow> sample list" where
  "gc_range_iter = kc_range_iter gorilla_codec"

definition gc_iter :: "gorilla_chunk \<Rightarrow> sample list" where
  "gc_iter = kc_iter gorilla_codec"

definition gc_remove_range :: "gorilla_chunk \<Rightarrow> timestamp \<Rightarrow> timestamp \<Rightarrow> (nat \<times> gorilla_chunk) tsdb_result" where
  "gc_remove_range = kc_remove_range gorilla_codec"

definition gc_add_sample :: "sample \<Rightarrow> gorilla_chunk \<Rightarrow> gorilla_chunk tsdb_result" where
  "gc_add_sample = kc_add_sample gorilla_codec"

definition gc_upsert_sample :: "gorilla_chunk \<Rightarrow> sample \<Rightarrow> duplicate_policy \<Rightarrow> (nat \<times> gorilla_chunk) tsdb_result" where
  "gc_upsert_sample = kc_upsert_sample gorilla_codec"

definition gc_merge_samples ::
  "gorilla_chunk \<Rightarrow> sample list \<Rightarrow> duplicate_policy option \<Rightarrow> sample_add_result list tsdb_result \<times> gorilla_chunk" where
  "gc_merge_samples = kc_merge_samples gorilla_codec"

definition gc_clear :: "gorilla_chunk \<Rightarrow> gorilla_chunk" where
  "gc_clear = kc_clear gorilla_codec"

definition gc_set_data :: "gorilla_chunk \<Rightarrow> sample list \<Rightarrow> gorilla_chunk tsdb_result" where
  "gc_set_data = kc_set_data gorilla_codec"

definition gc_split :: "gorilla_chunk \<Rightarrow> (gorilla_chunk \<times> gorilla_chunk) tsdb_result" where
  "gc_split = kc_split gorilla_codec"

text \<open>A \<open>None\<close> is the panic of the integer division by an empty stream.\<close>

definition gc_compression_ratio :: "gorilla_chunk \<Rightarrow> f64 option" where
  "gc_compression_ratio c =
     (if gc_len c = 0 then Some 0
      else
        let compressed_size = gc_data_size c; uncompressed_size = gc_len c * (8 + 8) in
        if compressed_size = 0 then None else Some (f64_of_int (int (uncompressed_size div compressed_size))))"

text \<open>The arithmetic on \<open>i64\<close> (\<open>saturating_sub\<close>) and on \<open>u128\<close>.\<close>

definition i64_saturating_sub :: "int \<Rightarrow> int \<Rightarrow> int" where
  "i64_saturating_sub a b = max i64_min (min i64_max (a - b))"

definition gc_estimate_samples_in :: "gorilla_chunk \<Rightarrow> timestamp \<Rightarrow> timestamp \<Rightarrow> nat" where
  "gc_estimate_samples_in c start_ts end_ts =
     (let len = gc_len c; first = gc_first_timestamp c; lst = gc_last_timestamp c in
      if start_ts \<le> first \<and> lst \<le> end_ts then len
      else
        let lo = max start_ts first; hi = min end_ts lst in
        if hi < lo then 0
        else
          let span = max (i64_saturating_sub lst first) 1;
              part = i64 (hi - lo) mod 2 ^ 128 + 1;
              share = (int len * part) mod 2 ^ 128 div span
          in min (nat (share mod 2 ^ 64) + 1) len)"

text \<open>\<open>reserve n\<close> tells whether \<open>try_reserve_exact\<close> gets room for \<open>n\<close> samples.\<close>

definition gc_get_range ::
  "(nat \<Rightarrow> bool) \<Rightarrow> gorilla_chunk \<Rightarrow> timestamp \<Rightarrow> timestamp \<Rightarrow> sample list tsdb_result" where
  "gc_get_range reserve c start_ts end_ts =
     (if gc_len c = 0 then Inr []
      else if \<not> reserve (gc_estimate_samples_in c start_ts end_ts)
        then Inl (DecodingError ''cannot reserve samples for gorilla chunk range'')
      else Inr (gc_range_iter c start_ts end_ts))"

definition gc_serialize :: "gorilla_chunk \<Rightarrow> u8 list \<Rightarrow> u8 list" where
  "gc_serialize c dest = ge_serialize (encoder c) (write_uvarint dest (word_of_nat (max_size c)))"

definition gc_deserialize :: "u8 list \<Rightarrow> gorilla_chunk tsdb_result" where
  "gc_deserialize buf =
     bindR (map_err (\<lambda>_. ChunkDecoding) (try_read_uvarint buf)) (\<lambda>(sz, buf1).
     bindR (ge_deserialize buf1) (\<lambda>e.
       Inr \<lparr>encoder = ge_set_soft_cap (unat sz) e, max_size = unat sz\<rparr>))"

lemmas gc_defs = gc_first_timestamp_def gc_last_timestamp_def gc_len_def gc_last_value_def gc_is_full_def
  gc_range_iter_def gc_remove_range_def gc_add_sample_def gc_upsert_sample_def gc_merge_samples_def gc_clear_def
  gc_set_data_def gc_split_def gc_data_size_def gc_iter_def

definition gc_inv :: "gorilla_chunk \<Rightarrow> bool" where
  "gc_inv = kc_inv gorilla_codec gorilla_rel"

definition gc_samples :: "gorilla_chunk \<Rightarrow> sample list" where
  "gc_samples = kc_samples gorilla_codec"

lemma gc_get_range_eq: "(\<And>n. reserve n) \<Longrightarrow> gc_get_range reserve = kc_get_range gorilla_codec"
  by (simp add: fun_eq_iff gc_get_range_def kc_get_range_def gc_defs)

interpretation gcc: chunk_contract gc_inv gc_samples gc_len gc_first_timestamp gc_last_timestamp gc_last_value gc_is_full
  gc_remove_range gc_add_sample "gc_get_range (\<lambda>_. True)" gc_upsert_sample gc_merge_samples gc_clear gc_set_data gc_split
  unfolding gc_defs gc_inv_def gc_samples_def gc_get_range_eq [OF TrueI]
  by (rule gor.chunk_contract_axioms)

lemma gc_inv_new: "gc_inv (gc_with_max_size sz)" "gc_samples (gc_with_max_size sz) = []"
  using gor.inv_of_rel [OF gorilla_rel_new, of sz "gc_with_max_size sz"]
  by (simp_all add: gc_inv_def gc_samples_def gc_with_max_size_def kc_with_max_size_def gorilla_codec_def)

lemma gc_estimate_le: "gc_estimate_samples_in c a b \<le> gc_len c"
  unfolding gc_estimate_samples_in_def Let_def
  by (simp only: min.cobounded2 order_refl le0 if_True if_False split: if_split) blast

section \<open>Serialization\<close>

lemma next_window_bounds:
  assumes "l \<le> 255" "t \<le> 64" "next_window delta l t = (l', t')" shows "l' \<le> 255" "t' \<le> 64"
proof -
  have "trailing_zeros delta \<le> 64"
    unfolding trailing_zeros_def using length_takeWhile_le [of Not "rev (bits_of 64 delta)"] by simp
  then show "l' \<le> 255" "t' \<le> 64" using assms by (auto simp: next_window_def split: if_splits)
qed

lemma foldl_window_bounds:
  "fst w \<le> 255 \<Longrightarrow> snd w \<le> 64 \<Longrightarrow> foldl gs_next (d, p, w) ss = (d', p', w') \<Longrightarrow> fst w' \<le> 255 \<and> snd w' \<le> 64"
proof (induction ss arbitrary: d p w)
  case (Cons s ss)
  let ?w = "next_window (val s XOR val p) (fst w) (snd w)"
  have "fst ?w \<le> 255" "snd ?w \<le> 64"
    using next_window_bounds [OF Cons.prems(1,2), of "val s XOR val p" "fst ?w" "snd ?w"] by simp_all
  then show ?case using Cons by (simp add: gs_next_pair)
qed simp

lemma gorilla_window_bounds:
  assumes "gorilla_rel e xs"
  shows "ge_leading_bits e < 256" "ge_trailing_bits e < 256" "is_i64 (ge_timestamp_delta e)"
proof -
  have v: "valid_samples xs" and w: "gorilla_window xs = (ge_timestamp_delta e, ge_leading_bits e, ge_trailing_bits e)"
    using assms by (simp_all add: gorilla_rel_def)
  have "ge_leading_bits e < 256 \<and> ge_trailing_bits e < 256 \<and> is_i64 (ge_timestamp_delta e)"
  proof (cases xs rule: gorilla_window.cases)
    case (1 a b ss)
    obtain d l t where st: "foldl gs_next (gs_start a b) ss = (d, List.last (b # ss), l, t)" "0 < d" "d \<le> i64_max"
      using gorilla_state v 1 by blast
    let ?w = "next_window (val b XOR val a) 255 0"
    have "fst ?w \<le> 255" "snd ?w \<le> 64"
      using next_window_bounds [of 255 0 "val b XOR val a" "fst ?w" "snd ?w"] by simp_all
    then have "l \<le> 255 \<and> t \<le> 64" using foldl_window_bounds [OF _ _ st(1) [unfolded gs_start_def]] by simp
    then show ?thesis using w st 1 by (auto simp: is_i64_def i64_min_def)
  qed (use w in \<open>auto simp: is_i64_def i64_min_def i64_max_def\<close>)
  then show "ge_leading_bits e < 256" "ge_trailing_bits e < 256" "is_i64 (ge_timestamp_delta e)" by simp_all
qed

lemma unat_word_of_nat_8: "n < 256 \<Longrightarrow> unat (word_of_nat n :: u8) = n"
  by (simp add: unsigned_of_nat take_bit_nat_eq_self)

lemma read_fields:
  "n < 2 ^ 64 \<Longrightarrow> read_usize (write_uvarint [] (word_of_nat n) @ rest) = Inr (n, rest)"
  "is_i64 t \<Longrightarrow> read_timestamp (write_uvarint [] (as_u64 t) @ rest) = Inr (t, rest)"
  "read_unsigned_varint (write_uvarint [] u @ rest) = Inr (u, rest)"
  "try_read_f64_le (to_le_bytes v @ rest) = Inr (v, rest)"
  using try_read_write_u64_le [of v rest]
  by (simp_all add: read_usize_def read_timestamp_def read_unsigned_varint_def unat_word_of_nat_64 as_i64_as_u64
      try_read_f64_le_def)

lemma ge_serialize_bytes:
  "ge_serialize e buf = buf @ write_uvarint [] (word_of_nat (ge_num_samples e)) @ write_uvarint [] (as_u64 (ge_first_ts e))
     @ write_uvarint [] (as_u64 (ge_last_ts e)) @ to_le_bytes (ge_last_value e)
     @ write_uvarint [] (as_u64 (ge_timestamp_delta e))
     @ [word_of_nat (ge_leading_bits e), word_of_nat (ge_trailing_bits e)] @ bs_serialize (ge_writer e) []"
  unfolding ge_serialize_def Let_def write_f64_le_def write_u64_le_def
  by (subst bs_serialize_append) (simp add: write_uvarint_normal)

lemma ge_deserialize_serialize:
  assumes rel: "gorilla_rel e xs" and n: "ge_num_samples e < 2 ^ 64" "length (ge_buf e) < 2 ^ 64"
  shows "\<exists>w. ge_deserialize (ge_serialize e []) = Inr (e\<lparr>ge_writer := w\<rparr>) \<and> bs_eq w (ge_writer e)"
proof -
  have "valid_ts 0" by (simp add: valid_ts_def i64_max_def)
  then have "valid_ts (ge_first_ts e) \<and> valid_ts (ge_last_ts e)"
    using rel by (cases "xs = []") (simp_all add: gorilla_rel_def valid_samples_def)
  then have ts: "is_i64 (ge_first_ts e)" "is_i64 (ge_last_ts e)" by simp_all
  note win = gorilla_window_bounds [OF rel]
  have "bs_rel (ge_writer e) (gorilla_bits xs)" using rel by (simp add: gorilla_rel_def)
  from bs_rel_wf [OF this] obtain w where w: "bs_deserialize (bs_serialize (ge_writer e) []) = Inr (w, [])" "bs_eq w (ge_writer e)"
    using bs_deserialize_serialize [of "ge_writer e" "[]"] n(2) by (auto simp: ge_buf_def)
  have "ge_deserialize (ge_serialize e []) = Inr (e\<lparr>ge_writer := w\<rparr>)"
    unfolding ge_serialize_bytes ge_deserialize_def
    by (simp add: read_fields(1) [OF n(1)] read_fields(2-) ts w(1) win unat_word_of_nat_8 as_i64_as_u64)
  then show ?thesis using w(2) by blast
qed

lemma gc_deserialize_serialize:
  assumes inv: "gc_inv c" and sizes: "max_size c < 2 ^ 64" "gc_len c < 2 ^ 64" "gc_data_size c < 2 ^ 64"
  shows "gc_deserialize (gc_serialize c []) = Inr (c\<lparr>encoder := ge_set_soft_cap (max_size c) (encoder c)\<rparr>)"
proof -
  have rel: "gorilla_rel (encoder c) (gc_samples c)" using inv by (simp add: gc_inv_def kc_inv_def gc_samples_def)
  have n: "ge_num_samples (encoder c) < 2 ^ 64" "length (ge_buf (encoder c)) < 2 ^ 64"
    using sizes(2,3) by (simp_all add: gc_defs kc_len_def kc_data_size_def gorilla_codec_def)
  obtain w where w: "ge_deserialize (ge_serialize (encoder c) []) = Inr ((encoder c)\<lparr>ge_writer := w\<rparr>)" "bs_eq w (ge_writer (encoder c))"
    using ge_deserialize_serialize [OF rel n] by blast
  have "gc_serialize c [] = write_uvarint [] (word_of_nat (max_size c)) @ ge_serialize (encoder c) []"
    by (simp add: gc_serialize_def ge_serialize_bytes)
  moreover have "unat (word_of_nat (max_size c) :: u64) = max_size c" using sizes(1) by (rule unat_word_of_nat_64)
  moreover have "ge_set_soft_cap (max_size c) ((encoder c)\<lparr>ge_writer := w\<rparr>) = ge_set_soft_cap (max_size c) (encoder c)"
    using w(2) by (simp add: ge_set_soft_cap_def bs_set_soft_cap_def bs_eq_def)
  ultimately show ?thesis using w(1) by (simp add: gc_deserialize_def)
qed

section \<open>Properties\<close>

lemma gc_filled:
  assumes "valid_samples xs"
  shows "\<exists>c. gc_set_data (gc_with_max_size sz) xs = Inr c \<and> gc_inv c \<and> gc_samples c = xs"
  using gcc.set_data [OF gc_inv_new(1) assms] .

text \<open>A chunk for the examples.\<close>

definition gc_example :: gorilla_chunk where
  "gc_example = projr (gc_set_data (gc_with_max_size 4096)
     [sample_new 1000 0x4024000000000000, sample_new 2000 0x4024000000000000, sample_new 3500 0x4028000000000000])"

lemma gc_example_ok:
  "gc_inv gc_example"
  "gc_samples gc_example =
     [sample_new 1000 0x4024000000000000, sample_new 2000 0x4024000000000000, sample_new 3500 0x4028000000000000]"
  using gc_filled [of "[sample_new 1000 0x4024000000000000, sample_new 2000 0x4024000000000000, sample_new 3500 0x4028000000000000]" 4096]
  by (auto simp: gc_example_def valid_ts_def i64_max_def)

lemma gc_iter_samples: "gc_inv c \<Longrightarrow> gc_iter c = gc_samples c"
  by (simp add: gc_inv_def gc_iter_def gc_samples_def gor.iter_eq)

text \<open>C6: Compressing any strictly increasing list of samples with valid timestamps succeeds, and
  iterating the Gorilla chunk gives back every sample bit for bit, in order.\<close>

theorem gorilla_roundtrip:
  assumes "valid_samples xs"
  shows "\<exists>c. gc_set_data (gc_with_max_size sz) xs = Inr c \<and> gc_iter c = xs \<and> gc_len c = length xs"
  using gc_filled [OF assms, of sz] gc_iter_samples gcc.len by auto

theorem gorilla_roundtrip_witness:
  "\<exists>c. gc_set_data (gc_with_max_size 4096) [sample_new 5 0x7FF8000000000000, sample_new 6 0, sample_new 90 1] = Inr c \<and>
     gc_iter c = [sample_new 5 0x7FF8000000000000, sample_new 6 0, sample_new 90 1] \<and> gc_len c = 3"
  using gorilla_roundtrip [of "[sample_new 5 0x7FF8000000000000, sample_new 6 0, sample_new 90 1]" 4096]
  by (auto simp: valid_ts_def i64_max_def)

lemma gc_upsert_eq:
  assumes "gc_inv c" "valid_ts (timestamp s)" "gc_samples c \<noteq> []"
  shows "case list_insert p s (gc_samples c) of
      Inl e \<Rightarrow> gc_upsert_sample c s p = Inl e
    | Inr xs \<Rightarrow> \<exists>c'. gc_upsert_sample c s p = Inr (length xs, c') \<and> gc_inv c' \<and> gc_samples c' = xs"
  using assms gor.upsert_eq [of c s p] gor.inv_of_rel
  by (fastforce simp: gc_inv_def gc_samples_def gc_upsert_sample_def split: sum.split)

text \<open>C20: An upsert into a non-empty Gorilla chunk inserts the sample in timestamp
  order, or resolves it against the sample with the same timestamp by the duplicate policy; when the
  policy refuses, the error is returned. The reported size is the new number of samples.\<close>

theorem gorilla_upsert:
  assumes "gc_inv c" "valid_ts (timestamp s)" "gc_samples c \<noteq> []"
  shows "case list_insert p s (gc_samples c) of
      Inl e \<Rightarrow> gc_upsert_sample c s p = Inl e
    | Inr xs \<Rightarrow> \<exists>c'. gc_upsert_sample c s p = Inr (length xs, c') \<and> gc_inv c' \<and> gc_samples c' = xs"
  using assms by (rule gc_upsert_eq)

theorem gorilla_upsert_witness:
  "\<exists>c'. gc_upsert_sample gc_example (sample_new 1500 7) Block = Inr (4, c') \<and> gc_inv c' \<and>
     gc_samples c' = [sample_new 1000 0x4024000000000000, sample_new 1500 7, sample_new 2000 0x4024000000000000,
       sample_new 3500 0x4028000000000000]"
  using gorilla_upsert [of gc_example "sample_new 1500 7" Block]
  by (simp add: gc_example_ok valid_ts_def i64_max_def eval_nat_numeral)

text \<open>C22: Splitting a Gorilla chunk keeps every sample: the two halves in order are the old contents,
  both are well-formed, and neither is empty when there were two samples or more.\<close>

theorem gorilla_split:
  assumes "gc_inv c"
  shows "\<exists>l r. gc_split c = Inr (l, r) \<and> gc_inv l \<and> gc_inv r \<and> gc_samples l @ gc_samples r = gc_samples c \<and>
    (2 \<le> length (gc_samples c) \<longrightarrow> gc_samples l \<noteq> [] \<and> gc_samples r \<noteq> [])"
  using gcc.split [OF assms] .

theorem gorilla_split_witness:
  "\<exists>l r. gc_split gc_example = Inr (l, r) \<and> gc_samples l \<noteq> [] \<and> gc_samples r \<noteq> [] \<and>
     gc_samples l @ gc_samples r = gc_samples gc_example"
  using gorilla_split [OF gc_example_ok(1)] by (auto simp: gc_example_ok(2))

text \<open>C23: Serializing a well-formed Gorilla chunk and deserializing the bytes gives the same chunk, with
  its growth limit set from the stored maximum size.\<close>

theorem gorilla_chunk_serialize:
  assumes "gc_inv c" "max_size c < 2 ^ 64" "gc_len c < 2 ^ 64" "gc_data_size c < 2 ^ 64"
  shows "gc_deserialize (gc_serialize c []) = Inr (c\<lparr>encoder := ge_set_soft_cap (max_size c) (encoder c)\<rparr>)"
  using assms by (rule gc_deserialize_serialize)

lemma gc_new_sizes: "gc_len (gc_with_max_size sz) = 0" "gc_data_size (gc_with_max_size sz) = 0" "max_size (gc_with_max_size sz) = sz"
  by (simp_all add: gc_defs kc_len_def kc_data_size_def gorilla_codec_def gc_with_max_size_def kc_with_max_size_def
      ge_with_soft_cap_def ge_set_soft_cap_def bs_set_soft_cap_def ge_new_def ge_buf_def bs_new_def)

theorem gorilla_chunk_serialize_witness:
  "gc_deserialize (gc_serialize (gc_with_max_size 4096) []) =
     Inr ((gc_with_max_size 4096)\<lparr>encoder := ge_set_soft_cap 4096 (encoder (gc_with_max_size 4096))\<rparr>)"
  using gorilla_chunk_serialize [of "gc_with_max_size 4096"] by (simp add: gc_inv_new gc_new_sizes)

end
