(* ===== verification/Chimp_Codec.thy ===== *)
theory Chimp_Codec
  imports Varbit
begin

text \<open>
  \<open>src/series/chunks/chimp/encoder.rs\<close>: the streaming XOR codec \<open>ChimpEnc\<close> and \<open>ChimpDec\<close>. The
  codec of one value is specified by the bits it takes (\<open>chimp_code\<close>) and the state it leaves
  (\<open>ce_next\<close>); the encoder writes those bits after the caller's prefix, and the decoder, in a
  state that matches the encoder's, reads the value back.
\<close>

section \<open>Tables\<close>

definition THRESHOLD :: int where
  "THRESHOLD = 6"

definition LEADING_REPR_ENC :: "u64 list" where
  "LEADING_REPR_ENC =
     [0, 0, 0, 0, 0, 0, 0, 0, 1, 1, 1, 1, 2, 2, 2, 2, 3, 3, 4, 4, 5, 5, 6, 6, 7, 7, 7, 7, 7, 7, 7, 7,
      7, 7, 7, 7, 7, 7, 7, 7, 7, 7, 7, 7, 7, 7, 7, 7, 7, 7, 7, 7, 7, 7, 7, 7, 7, 7, 7, 7, 7, 7, 7, 7]"

definition LEADING_ROUND_ENC :: "int list" where
  "LEADING_ROUND_ENC =
     [0, 0, 0, 0, 0, 0, 0, 0,
      8, 8, 8, 8, 12, 12, 12, 12,
      16, 16, 18, 18, 20, 20, 22, 22,
      24, 24, 24, 24, 24, 24, 24, 24, 24, 24, 24, 24, 24, 24, 24, 24, 24, 24, 24, 24, 24, 24, 24, 24,
      24, 24, 24, 24, 24, 24, 24, 24, 24, 24, 24, 24, 24, 24, 24, 24]"

definition LEADING_REPR_DEC :: "int list" where
  "LEADING_REPR_DEC = [0, 8, 12, 16, 18, 20, 22, 24]"

section \<open>The encoder\<close>

record chimp_enc =
  ce_stored_lz :: int
  ce_stored_val :: u64
  ce_first :: bool

definition ce_new :: chimp_enc where
  "ce_new = \<lparr>ce_stored_lz = i32_max, ce_stored_val = 0, ce_first = True\<rparr>"

definition ce_emit :: "u64 \<Rightarrow> nat \<Rightarrow> u64 \<Rightarrow> nat \<Rightarrow> bitstream \<Rightarrow> io_error + bitstream" where
  "ce_emit header header_len payload sig out =
     (if header_len + sig \<le> 64 then bs_write_bits (header_len + sig) (push_bit sig header OR payload) out
      else bindR (bs_write_bits header_len header out) (bs_write_bits sig payload))"

definition ce_compress_value :: "chimp_enc \<Rightarrow> bitstream \<Rightarrow> u64 \<Rightarrow> nat \<Rightarrow> u64 \<Rightarrow> io_error + (chimp_enc \<times> bitstream)" where
  "ce_compress_value e out prefix prefix_len v =
     (let xor = ce_stored_val e XOR v in
      map_ok (\<lambda>(e, out). (e\<lparr>ce_stored_val := v\<rparr>, out))
       (if xor = 0 then map_ok (\<lambda>out. (e\<lparr>ce_stored_lz := 65\<rparr>, out)) (bs_write_bits (prefix_len + 2) (push_bit 2 prefix) out)
        else
          let lz = LEADING_ROUND_ENC ! leading_zeros xor; tz = int (trailing_zeros xor) in
          if THRESHOLD < tz then
            let sig = nat (64 - lz - tz);
                header = push_bit 11 prefix OR push_bit 9 1 OR push_bit 6 (LEADING_REPR_ENC ! nat lz) OR word_of_nat sig
            in map_ok (\<lambda>out. (e\<lparr>ce_stored_lz := 65\<rparr>, out)) (ce_emit header (prefix_len + 11) (drop_bit (nat tz) xor) sig out)
          else if lz = ce_stored_lz e then
            let sig = nat (64 - lz); header = push_bit 2 prefix OR 2
            in map_ok (\<lambda>out. (e, out)) (ce_emit header (prefix_len + 2) xor sig out)
          else
            let sig = nat (64 - lz); header = push_bit 5 prefix OR push_bit 3 3 OR (LEADING_REPR_ENC ! nat lz)
            in map_ok (\<lambda>out. (e\<lparr>ce_stored_lz := lz\<rparr>, out)) (ce_emit header (prefix_len + 5) xor sig out)))"

definition ce_add_value_prefixed ::
  "chimp_enc \<Rightarrow> bitstream \<Rightarrow> u64 \<Rightarrow> nat \<Rightarrow> u64 \<Rightarrow> io_error + (chimp_enc \<times> bitstream)" where
  "ce_add_value_prefixed e out prefix prefix_len v =
     (if ce_first e then
        bindR (if 0 < prefix_len then bs_write_bits prefix_len prefix out else Inr out) (\<lambda>out.
        map_ok (\<lambda>out. (e\<lparr>ce_first := False, ce_stored_val := v\<rparr>, out)) (bs_write_bits 64 v out))
      else ce_compress_value e out prefix prefix_len v)"

definition ce_add_value :: "chimp_enc \<Rightarrow> bitstream \<Rightarrow> u64 \<Rightarrow> io_error + (chimp_enc \<times> bitstream)" where
  "ce_add_value e out v = ce_add_value_prefixed e out 0 0 v"

definition ce_add_repeat_prefixed :: "chimp_enc \<Rightarrow> bitstream \<Rightarrow> u64 \<Rightarrow> nat \<Rightarrow> io_error + (chimp_enc \<times> bitstream)" where
  "ce_add_repeat_prefixed e out prefix prefix_len =
     map_ok (\<lambda>out. (e\<lparr>ce_stored_lz := 65\<rparr>, out)) (bs_write_bits (prefix_len + 2) (push_bit 2 prefix) out)"

definition ce_add_repeat :: "chimp_enc \<Rightarrow> bitstream \<Rightarrow> io_error + (chimp_enc \<times> bitstream)" where
  "ce_add_repeat e out = ce_add_repeat_prefixed e out 0 0"

section \<open>The decoder\<close>

record chimp_dec =
  cx_stored_lz :: int
  cx_stored_tz :: int
  cx_stored_val :: u64
  cx_first :: bool

definition cx_new :: chimp_dec where
  "cx_new = \<lparr>cx_stored_lz = i32_max, cx_stored_tz = 0, cx_stored_val = 0, cx_first = True\<rparr>"

text \<open>The cast of a bit count to \<open>u8\<close>, and the shift by one, which takes it modulo 64.\<close>

definition as_u8_count :: "int \<Rightarrow> nat" where
  "as_u8_count n = nat (n mod 256)"

definition cx_next_value :: "chimp_dec \<Rightarrow> bitreader \<Rightarrow> io_error + (bool \<times> chimp_dec \<times> bitreader)" where
  "cx_next_value d r0 =
     (let (head, r) = peek_upto 11 r0; flag = unat (drop_bit 9 head);
          code_lz = LEADING_REPR_DEC ! unat (drop_bit 6 head AND 7)
      in if flag = 3 then
           bindR (br_skip 5 r) (\<lambda>r1.
           bindR (br_read_bits (as_u8_count (64 - code_lz)) r1) (\<lambda>(v, r2).
             Inr (False, d\<lparr>cx_stored_lz := code_lz, cx_stored_val := cx_stored_val d XOR v\<rparr>, r2)))
         else if flag = 2 then
           bindR (br_skip 2 r) (\<lambda>r1.
           bindR (br_read_bits (as_u8_count (64 - cx_stored_lz d)) r1) (\<lambda>(v, r2).
             Inr (False, d\<lparr>cx_stored_val := cx_stored_val d XOR v\<rparr>, r2)))
         else if flag = 1 then
           let sig0 = int (unat (head AND 63)); sig = (if sig0 = 0 then 64 else sig0) in
           bindR (br_skip 11 r) (\<lambda>r1.
             let tz = 64 - sig - code_lz in
             bindR (br_read_bits (as_u8_count (64 - code_lz - tz)) r1) (\<lambda>(v, r2).
               Inr (False, d\<lparr>cx_stored_lz := code_lz, cx_stored_tz := tz,
                 cx_stored_val := cx_stored_val d XOR push_bit (as_u8_count tz mod 64) v\<rparr>, r2)))
         else map_ok (\<lambda>r1. (True, d, r1)) (br_skip 2 r))"

definition cx_next :: "chimp_dec \<Rightarrow> bitreader \<Rightarrow> io_error + (bool \<times> chimp_dec \<times> bitreader)" where
  "cx_next d r =
     (if cx_first d then
        bindR (br_read_bits 64 r) (\<lambda>(v, r1). Inr (False, d\<lparr>cx_first := False, cx_stored_val := v\<rparr>, r1))
      else cx_next_value d r)"

definition cx_read_value :: "chimp_dec \<Rightarrow> bitreader \<Rightarrow> io_error + (u64 \<times> chimp_dec \<times> bitreader)" where
  "cx_read_value d r = map_ok (\<lambda>(_, d1, r1). (cx_stored_val d1, d1, r1)) (cx_next d r)"

definition cx_read_value_flagged :: "chimp_dec \<Rightarrow> bitreader \<Rightarrow> io_error + ((u64 \<times> bool) \<times> chimp_dec \<times> bitreader)" where
  "cx_read_value_flagged d r = map_ok (\<lambda>(rep, d1, r1). ((cx_stored_val d1, rep), d1, r1)) (cx_next d r)"

section \<open>The bits of a value\<close>

definition chimp_lz :: "u64 \<Rightarrow> nat" where
  "chimp_lz x = nat (LEADING_ROUND_ENC ! leading_zeros x)"

definition chimp_code :: "chimp_enc \<Rightarrow> u64 \<Rightarrow> bool list" where
  "chimp_code e v =
     (if ce_first e then bits_of 64 v
      else
        let x = ce_stored_val e XOR v; lz = chimp_lz x; tz = trailing_zeros x; sig = 64 - lz - tz in
        if x = 0 then [False, False]
        else if 6 < tz then [False, True] @ bits_of 3 (LEADING_REPR_ENC ! lz) @ bits_of 6 (word_of_nat sig :: u64) @ bits_of sig (drop_bit tz x)
        else if int lz = ce_stored_lz e then [True, False] @ bits_of (64 - lz) x
        else [True, True] @ bits_of 3 (LEADING_REPR_ENC ! lz) @ bits_of (64 - lz) x)"

definition ce_next :: "chimp_enc \<Rightarrow> u64 \<Rightarrow> chimp_enc" where
  "ce_next e v =
     (let x = ce_stored_val e XOR v; lz = chimp_lz x in
      e\<lparr>ce_first := False, ce_stored_val := v,
        ce_stored_lz := (if ce_first e then ce_stored_lz e else if x = 0 \<or> 6 < trailing_zeros x then 65 else int lz)\<rparr>)"

text \<open>The decoder agrees with the encoder, and knows the leading zeros whenever the encoder would reuse them.\<close>

definition chimp_sync :: "chimp_enc \<Rightarrow> chimp_dec \<Rightarrow> bool" where
  "chimp_sync e d \<longleftrightarrow> ce_first e = cx_first d \<and> (\<not> ce_first e \<longrightarrow> ce_stored_val e = cx_stored_val d) \<and>
     (ce_stored_lz e \<le> 24 \<longrightarrow> cx_stored_lz d = ce_stored_lz e)"

lemma chimp_sync_new: "chimp_sync ce_new cx_new"
  by (simp add: chimp_sync_def ce_new_def cx_new_def i32_max_def)

lemma leading_tables:
  assumes "n < 64" "lz = LEADING_ROUND_ENC ! n"
  shows "0 \<le> lz" "lz \<le> int n" "lz \<le> 24" "unat (LEADING_REPR_ENC ! nat lz) < 8"
    "LEADING_REPR_DEC ! unat (LEADING_REPR_ENC ! nat lz) = lz"
proof -
  have "list_all (\<lambda>n. let lz = LEADING_ROUND_ENC ! n in 0 \<le> lz \<and> lz \<le> int n \<and> lz \<le> 24 \<and>
    unat (LEADING_REPR_ENC ! nat lz) < 8 \<and> LEADING_REPR_DEC ! unat (LEADING_REPR_ENC ! nat lz) = lz) [0..<64]"
    by code_simp
  then show "0 \<le> lz" "lz \<le> int n" "lz \<le> 24" "unat (LEADING_REPR_ENC ! nat lz) < 8"
    "LEADING_REPR_DEC ! unat (LEADING_REPR_ENC ! nat lz) = lz"
    using assms by (simp_all add: list_all_iff Let_def)
qed

lemma chimp_lz_facts:
  assumes "x \<noteq> 0"
  shows "chimp_lz x \<le> leading_zeros x" "chimp_lz x \<le> 24" "int (chimp_lz x) = LEADING_ROUND_ENC ! leading_zeros x"
    "unat (LEADING_REPR_ENC ! chimp_lz x) < 8" "LEADING_REPR_DEC ! unat (LEADING_REPR_ENC ! chimp_lz x) = int (chimp_lz x)"
    "chimp_lz x + trailing_zeros x < 64"
proof -
  have "leading_zeros x < 64" using zeros_less [OF assms] by simp
  note t = leading_tables [OF this refl]
  show "chimp_lz x \<le> leading_zeros x" "chimp_lz x \<le> 24" "int (chimp_lz x) = LEADING_ROUND_ENC ! leading_zeros x"
    "unat (LEADING_REPR_ENC ! chimp_lz x) < 8" "LEADING_REPR_DEC ! unat (LEADING_REPR_ENC ! chimp_lz x) = int (chimp_lz x)"
    using t by (simp_all add: chimp_lz_def)
  then show "chimp_lz x + trailing_zeros x < 64" using zeros_less [OF assms] by linarith
qed

section \<open>Writing\<close>

lemma ce_emit_rel:
  assumes "bs_rel s bl" "take_bit sig payload = payload" "hl \<le> 64" "sig \<le> 64"
  shows "\<exists>s'. ce_emit header hl payload sig s = Inr s' \<and> bs_rel s' (bl @ bits_of hl header @ bits_of sig payload)"
proof (cases "hl + sig \<le> 64")
  case True
  then show ?thesis
    using bsw.wr_bits [OF assms(1) True, of "push_bit sig header OR payload"] bits_of_prefix_payload [OF True assms(2)]
    by (simp add: ce_emit_def)
next
  case False
  then show ?thesis using bsw.wr_bits_two [OF assms(1,3,4)] by (simp add: ce_emit_def)
qed

lemma small_word_take_bit: "unat w < 2 ^ n \<Longrightarrow> take_bit n w = w" for w :: u64
  by (rule word_unat_eq_iff [THEN iffD2]) (simp add: unsigned_take_bit_eq take_bit_nat_eq_self)

lemma fields_take_bit:
  fixes a b :: u64
  assumes a: "take_bit m a = a" and b: "take_bit n b = b"
  shows "take_bit (m + n) (push_bit n a OR b) = push_bit n a OR b"
proof (rule bit_word_eqI)
  fix i
  have "bit a j \<Longrightarrow> j < m" "bit b j \<Longrightarrow> j < n" for j using a b by (metis bit_take_bit_iff)+
  from this(1) [of "i - n"] this(2) [of i]
  show "bit (take_bit (m + n) (push_bit n a OR b)) i = bit (push_bit n a OR b) i"
    by (auto simp: bit_simps)
qed

lemma bits_of_2: "bits_of 2 (0 :: u64) = [False, False]" "bits_of 2 (1 :: u64) = [False, True]"
    "bits_of 2 (2 :: u64) = [True, False]" "bits_of 2 (3 :: u64) = [True, True]"
  by (simp_all add: bits_of_def upt_rec)

lemma header_2: "unat f < 4 \<Longrightarrow> pl + 2 \<le> 64 \<Longrightarrow> bits_of (pl + 2) (push_bit 2 p OR f) = bits_of pl p @ bits_of 2 f" for f p :: u64
  by (intro bits_of_prefix_payload small_word_take_bit) simp_all

lemma header_5:
  fixes p a :: u64
  assumes "unat a < 8" "pl + 5 \<le> 64"
  shows "bits_of (pl + 5) (push_bit 5 p OR push_bit 3 3 OR a) = bits_of pl p @ [True, True] @ bits_of 3 a"
proof -
  have a: "take_bit 3 a = a" "take_bit 2 (3 :: u64) = 3" using assms by (simp_all add: small_word_take_bit)
  have "take_bit 5 (push_bit 3 3 OR a) = push_bit 3 3 OR a" using fields_take_bit [OF a(2,1)] by simp
  then show ?thesis using bits_of_prefix_payload [OF assms(2), of "push_bit 3 3 OR a" p]
      bits_of_prefix_payload [of 2 3 a 3] a by (simp add: or.assoc bits_of_2)
qed

lemma header_11:
  fixes p a b :: u64
  assumes "unat a < 8" "unat b < 64" "pl + 11 \<le> 64"
  shows "bits_of (pl + 11) (push_bit 11 p OR push_bit 9 1 OR push_bit 6 a OR b) =
    bits_of pl p @ [False, True] @ bits_of 3 a @ bits_of 6 b"
proof -
  have w: "take_bit 3 a = a" "take_bit 6 b = b" "take_bit 2 (1 :: u64) = 1"
    using assms by (simp_all add: small_word_take_bit)
  define c where "c = push_bit 6 a OR b"
  have c: "take_bit 9 c = c" "bits_of 9 c = bits_of 3 a @ bits_of 6 b"
    using fields_take_bit [OF w(1,2)] bits_of_prefix_payload [of 3 6 b a] w by (simp_all add: c_def)
  define d where "d = push_bit 9 1 OR c"
  have d: "take_bit 11 d = d" "bits_of 11 d = [False, True] @ bits_of 9 c"
    using fields_take_bit [OF w(3) c(1)] bits_of_prefix_payload [of 2 9 c 1] c by (simp_all add: d_def bits_of_2)
  show ?thesis using bits_of_prefix_payload [OF assms(3) d(1), of p] c d by (simp add: or.assoc c_def d_def)
qed

lemma ce_compress_value_rel:
  assumes rel: "bs_rel s bl" and pl: "pl \<le> 6" and e: "\<not> ce_first e"
  shows "\<exists>s'. ce_compress_value e s p pl v = Inr (ce_next e v, s') \<and> bs_rel s' (bl @ bits_of pl p @ chimp_code e v)"
proof -
  define x where "x = ce_stored_val e XOR v"
  note defs = ce_compress_value_def chimp_code_def ce_next_def x_def [symmetric]
  show ?thesis
  proof (cases "x = 0")
    case True
    obtain s' where "bs_write_bits (pl + 2) (push_bit 2 p) s = Inr s'" "bs_rel s' (bl @ bits_of (pl + 2) (push_bit 2 p))"
      using bsw.wr_bits [OF rel, of "pl + 2"] pl by force
    then show ?thesis using True e pl header_2 [of 0 pl p] by (simp add: defs bits_of_2 numeral_2_eq_2)
  next
    case False
    define l t where "l = chimp_lz x" and "t = trailing_zeros x"
    note l = chimp_lz_facts [OF False, folded l_def t_def]
    note win = window_word [OF l(1), of t, folded t_def]
    have lt: "LEADING_ROUND_ENC ! leading_zeros x = int l" using l(3) by simp
    have sig: "nat (64 - int l - int t) = 64 - l - t" "nat (64 - int l) = 64 - l" using l(6) by linarith+
    have payload: "take_bit (64 - l) x = x" using window_word(1) [OF l(1), of 0] by simp
    show ?thesis
    proof (cases "6 < t")
      case True
      let ?sig = "64 - l - t"
      have s64: "unat (word_of_nat ?sig :: u64) < 64" using True small_word_of_nat [of ?sig 6] by simp
      obtain s' where "ce_emit (push_bit 11 p OR push_bit 9 1 OR push_bit 6 (LEADING_REPR_ENC ! l) OR word_of_nat ?sig)
          (pl + 11) (drop_bit t x) ?sig s = Inr s'"
        "bs_rel s' (bl @ bits_of pl p @ [False, True] @ bits_of 3 (LEADING_REPR_ENC ! l) @ bits_of 6 (word_of_nat ?sig :: u64) @ bits_of ?sig (drop_bit t x))"
        using ce_emit_rel [OF rel, of ?sig "drop_bit t x" "pl + 11"] header_11 [OF l(4) s64, of pl p] win(1) pl by fastforce
      then show ?thesis using True False e
        by (simp add: defs lt Let_def THRESHOLD_def sig l_def [symmetric] t_def [symmetric])
    next
      case small: False
      show ?thesis
      proof (cases "int l = ce_stored_lz e")
        case True
        obtain s' where "ce_emit (push_bit 2 p OR 2) (pl + 2) x (64 - l) s = Inr s'"
          "bs_rel s' (bl @ bits_of pl p @ [True, False] @ bits_of (64 - l) x)"
          using ce_emit_rel [OF rel payload, of "pl + 2"] header_2 [of 2 pl p] pl by (fastforce simp: bits_of_2)
        moreover have "e\<lparr>ce_stored_val := v\<rparr> = ce_next e v"
          using True small False e by (cases e) (simp add: ce_next_def Let_def l_def t_def x_def)
        ultimately show ?thesis using True [symmetric] small False e
          by (simp add: ce_compress_value_def chimp_code_def x_def [symmetric] lt Let_def THRESHOLD_def sig l_def [symmetric] t_def [symmetric])
      next
        case new: False
        obtain s' where "ce_emit (push_bit 5 p OR push_bit 3 3 OR LEADING_REPR_ENC ! l) (pl + 5) x (64 - l) s = Inr s'"
          "bs_rel s' (bl @ bits_of pl p @ [True, True] @ bits_of 3 (LEADING_REPR_ENC ! l) @ bits_of (64 - l) x)"
          using ce_emit_rel [OF rel payload, of "pl + 5"] header_5 [OF l(4), of pl p] pl by fastforce
        then show ?thesis using new small False e
          by (simp add: defs lt Let_def THRESHOLD_def sig l_def [symmetric] t_def [symmetric])
      qed
    qed
  qed
qed

text \<open>The encoder appends the prefix and the bits of the value.\<close>

lemma ce_add_value_rel:
  assumes rel: "bs_rel s bl" and pl: "0 < pl" "pl \<le> 6"
  shows "\<exists>s'. ce_add_value_prefixed e s p pl v = Inr (ce_next e v, s') \<and> bs_rel s' (bl @ bits_of pl p @ chimp_code e v)"
proof (cases "ce_first e")
  case True
  obtain s1 where s1: "bs_write_bits pl p s = Inr s1" "bs_rel s1 (bl @ bits_of pl p)" using bsw.wr_bits [OF rel, of pl] pl by force
  obtain s2 where "bs_write_bits 64 v s1 = Inr s2" "bs_rel s2 ((bl @ bits_of pl p) @ bits_of 64 v)"
    using bsw.wr_bits [OF s1(2), of 64] by force
  then show ?thesis using s1 True pl by (simp add: ce_add_value_prefixed_def chimp_code_def ce_next_def Let_def)
next
  case False
  then show ?thesis using ce_compress_value_rel [OF rel pl(2)] by (simp add: ce_add_value_prefixed_def)
qed

lemma ce_add_repeat_rel:
  assumes rel: "bs_rel s bl" and pl: "pl \<le> 6"
  shows "\<exists>s'. ce_add_repeat_prefixed e s p pl = Inr (e\<lparr>ce_stored_lz := 65\<rparr>, s') \<and>
    bs_rel s' (bl @ bits_of pl p @ [False, False])"
proof -
  obtain s' where "bs_write_bits (pl + 2) (push_bit 2 p) s = Inr s'" "bs_rel s' (bl @ bits_of (pl + 2) (push_bit 2 p))"
    using bsw.wr_bits [OF rel, of "pl + 2"] pl by force
  then show ?thesis using pl header_2 [of 0 pl p] by (simp add: ce_add_repeat_prefixed_def bits_of_2 numeral_2_eq_2)
qed

section \<open>Reading\<close>

lemma drop_bit_of_bits:
  assumes "length bs \<le> 64" shows "drop_bit k (of_bits bs) = of_bits (take (length bs - k) bs)"
proof (rule bit_word_eqI)
  fix i
  show "bit (drop_bit k (of_bits bs)) i = bit (of_bits (take (length bs - k) bs)) i"
  proof (cases "i + k < length bs")
    case True
    then have "length bs - 1 - (k + i) = length bs - k - 1 - i" "i < length bs - k" "length bs - k - 1 - i < length bs - k" by linarith+
    moreover have "i < 64" "k + i < 64" using True assms by linarith+
    ultimately show ?thesis using True by (simp add: bit_drop_bit_eq bit_of_bits add.commute)
  qed (auto simp: bit_drop_bit_eq bit_of_bits)
qed

lemma head_fields:
  assumes "length bs = 11"
  shows "drop_bit 9 (of_bits bs) = of_bits (take 2 bs)"
    "drop_bit 6 (of_bits bs) AND 7 = of_bits (take 3 (drop 2 bs))"
    "of_bits bs AND 63 = of_bits (drop 5 bs)"
proof -
  have m: "(7 :: u64) = mask 3" "(63 :: u64) = mask 6" by (simp_all add: mask_eq_exp_minus_1)
  show "drop_bit 9 (of_bits bs) = of_bits (take 2 bs)" using assms by (simp add: drop_bit_of_bits)
  show "drop_bit 6 (of_bits bs) AND 7 = of_bits (take 3 (drop 2 bs))"
    using assms of_bits_drop [of 2 "take 5 bs"]
    by (simp add: drop_bit_of_bits m take_bit_eq_mask [symmetric] drop_take)
  show "of_bits bs AND 63 = of_bits (drop 5 bs)"
    using assms by (simp add: m take_bit_eq_mask [symmetric] of_bits_drop)
qed

lemma unat_of_bits_2: "unat (of_bits [False, False]) = 0" "unat (of_bits [False, True]) = 1"
    "unat (of_bits [True, False]) = 2" "unat (of_bits [True, True]) = 3"
  by (simp_all add: of_bits_def)

lemma br_read_bits_app:
  assumes "br_inv r" "br_bits r = xs @ ys" "length xs = n" "n \<le> 64"
  shows "\<exists>r'. br_read_bits n r = Inr (of_bits xs, r') \<and> br_inv r' \<and> br_bits r' = ys"
  using br_read_bits_spec [OF assms(1,4)] assms by simp

text \<open>One peek at the header and the skip over the part of it that is there.\<close>

lemma peek_header:
  assumes "br_inv r" "br_bits r = fl @ hs @ ys" "length fl = 2" "length hs \<le> 9"
  shows "\<exists>head r1. peek_upto 11 r = (head, r1) \<and> drop_bit 9 head = of_bits fl \<and>
    (3 \<le> length hs \<longrightarrow> drop_bit 6 head AND 7 = of_bits (take 3 hs)) \<and>
    (length hs = 9 \<longrightarrow> head AND 63 = of_bits (drop 3 hs)) \<and>
    (\<exists>r2. br_skip (2 + length hs) r1 = Inr r2 \<and> br_inv r2 \<and> br_bits r2 = ys)"
proof -
  obtain r1 where r1: "peek_upto 11 r = (of_bits (take 11 (br_bits r @ replicate 11 False)), r1)"
    "br_inv r1" "br_bits r1 = br_bits r" "min 11 (length (br_bits r)) \<le> valid r1"
    using peek_upto_spec [OF assms(1), of 11] by force
  define bs where "bs = take 11 (br_bits r @ replicate 11 False)"
  have len: "length bs = 11" by (simp add: bs_def)
  have fl: "take 2 bs = fl" using assms(2,3) by (simp add: bs_def)
  have hs: "take (length hs) (drop 2 bs) = hs" using assms(2-4) by (simp add: bs_def drop_take take_drop min_def)
  have h3: "take 3 (drop 2 bs) = take 3 hs" if "3 \<le> length hs" using hs that by (metis min.absorb1 take_take)
  have h9: "drop 5 bs = drop 3 hs" if "length hs = 9" using hs that len drop_drop [of 3 2 bs] by simp
  have "2 + length hs \<le> valid r1" using r1(4) assms(2-4) by simp
  from br_skip_spec [OF r1(2) this] obtain r2 where "br_skip (2 + length hs) r1 = Inr r2" "br_inv r2" "br_bits r2 = ys"
    using r1(3) assms(2,3) by auto
  then show ?thesis using r1(1) head_fields [OF len] fl h3 h9 unfolding bs_def [symmetric] by auto
qed

lemma chimp_code_first: "ce_first e \<Longrightarrow> chimp_code e v = bits_of 64 v"
  by (simp add: chimp_code_def)

text \<open>The decoder in step with the encoder reads the value, and reports a repeat exactly for an unchanged one.\<close>

lemma cx_next_spec:
  assumes sync: "chimp_sync e d" and r: "br_inv r" "br_bits r = chimp_code e v @ ys"
  shows "\<exists>d' r'. cx_next d r = Inr (\<not> ce_first e \<and> ce_stored_val e = v, d', r') \<and> br_inv r' \<and> br_bits r' = ys \<and>
    chimp_sync (ce_next e v) d' \<and> cx_stored_val d' = v"
proof (cases "ce_first e")
  case True
  then obtain r' where r': "br_read_bits 64 r = Inr (v, r')" "br_inv r'" "br_bits r' = ys"
    using br_read_bits_app [OF r(1), of "bits_of 64 v" ys] r(2) by (auto simp: chimp_code_first)
  then show ?thesis using sync True
    by (simp add: cx_next_def chimp_sync_def ce_next_def Let_def)
next
  case first: False
  define x where "x = ce_stored_val e XOR v"
  have d: "\<not> cx_first d" "cx_stored_val d = ce_stored_val e" "ce_stored_lz e \<le> 24 \<Longrightarrow> cx_stored_lz d = ce_stored_lz e"
    using sync first by (simp_all add: chimp_sync_def)
  have v: "ce_stored_val e XOR x = v" by (simp add: x_def xor.assoc [symmetric])
  have x0: "x = 0 \<longleftrightarrow> ce_stored_val e = v" by (simp add: x_def xor_self_eq) (metis v x_def xor.right_neutral xor_self_eq)
  show ?thesis
  proof (cases "x = 0")
    case True
    then have b: "br_bits r = [False, False] @ [] @ ys" using r first by (simp add: chimp_code_def x_def [symmetric])
    obtain head r1 r2 where "peek_upto 11 r = (head, r1)" "drop_bit 9 head = of_bits [False, False]"
      "br_skip 2 r1 = Inr r2" "br_inv r2" "br_bits r2 = ys"
      using peek_header [OF r(1) b] by auto
    then show ?thesis using True first d x0
      by (simp add: cx_next_def cx_next_value_def chimp_sync_def ce_next_def x_def [symmetric] unat_of_bits_2)
  next
    case False
    define l t where "l = chimp_lz x" and "t = trailing_zeros x"
    note l = chimp_lz_facts [OF False, folded l_def t_def]
    let ?a = "LEADING_REPR_ENC ! l"
    have a: "take_bit 3 ?a = ?a" using l(4) by (simp add: small_word_take_bit)
    have payload: "take_bit (64 - l) x = x" using window_word(1) [OF l(1), of 0] by simp
    have cnt: "as_u8_count (64 - int l) = 64 - l" using l(2) by (simp add: as_u8_count_def)
    note defs = cx_next_def cx_next_value_def chimp_sync_def ce_next_def x_def [symmetric] l_def [symmetric] t_def [symmetric]
      unat_of_bits_2 x0 [symmetric]
    show ?thesis
    proof (cases "6 < t")
      case True
      let ?sig = "64 - l - t"
      have s64: "unat (word_of_nat ?sig :: u64) = ?sig" "take_bit 6 (word_of_nat ?sig :: u64) = word_of_nat ?sig"
        using True small_word_of_nat [of ?sig 6] by simp_all
      note win = window_word [OF l(1), of t, folded t_def]
      have b: "br_bits r = [False, True] @ (bits_of 3 ?a @ bits_of 6 (word_of_nat ?sig :: u64)) @ (bits_of ?sig (drop_bit t x) @ ys)"
        using r first False True by (simp add: chimp_code_def Let_def x_def [symmetric] l_def [symmetric] t_def [symmetric])
      obtain head r1 r2 where h: "peek_upto 11 r = (head, r1)" "drop_bit 9 head = of_bits [False, True]"
        "drop_bit 6 head AND 7 = ?a" "head AND 63 = word_of_nat ?sig" "br_skip 11 r1 = Inr r2" "br_inv r2"
        "br_bits r2 = bits_of ?sig (drop_bit t x) @ ys"
        using peek_header [OF r(1) b] a s64(2) by auto
      obtain r3 where r3: "br_read_bits ?sig r2 = Inr (drop_bit t x, r3)" "br_inv r3" "br_bits r3 = ys"
        using br_read_bits_app [OF h(6,7), of ?sig] win(1) by auto
      have n: "as_u8_count (int ?sig) = ?sig" "int ?sig \<noteq> 0" "64 - int ?sig - int l = int t"
        "as_u8_count (int t) mod 64 = t" using l(6) by (simp_all add: as_u8_count_def)
      have t: "64 - int l - int t = int ?sig" using l(6) by simp
      have "unat (head AND 63) = ?sig" using h(4) s64(1) by simp
      then have "cx_next_value d r = Inr (False, d\<lparr>cx_stored_lz := int l, cx_stored_tz := int t,
          cx_stored_val := cx_stored_val d XOR push_bit t (drop_bit t x)\<rparr>, r3)"
        unfolding cx_next_value_def h(1) using h(2,3,5) l(5) n t r3(1) by (simp add: unat_of_bits_2 Let_def)
      then show ?thesis using r3 d win(2) v False True first by (simp add: defs)
    next
      case small: False
      show ?thesis
      proof (cases "int l = ce_stored_lz e")
        case True
        have b: "br_bits r = [True, False] @ [] @ (bits_of (64 - l) x @ ys)"
          using r first False True small by (simp add: chimp_code_def Let_def x_def [symmetric] l_def [symmetric] t_def [symmetric])
        obtain head r1 r2 where h: "peek_upto 11 r = (head, r1)" "drop_bit 9 head = of_bits [True, False]"
          "br_skip 2 r1 = Inr r2" "br_inv r2" "br_bits r2 = bits_of (64 - l) x @ ys"
          using peek_header [OF r(1) b] by auto
        obtain r3 where r3: "br_read_bits (64 - l) r2 = Inr (x, r3)" "br_inv r3" "br_bits r3 = ys"
          using br_read_bits_app [OF h(4,5), of "64 - l"] payload by auto
        have "cx_stored_lz d = int l" using d(3) l(2) True by simp
        then show ?thesis using h r3 d v cnt False True small first by (simp add: defs)
      next
        case new: False
        have b: "br_bits r = [True, True] @ bits_of 3 ?a @ (bits_of (64 - l) x @ ys)"
          using r first False new small by (simp add: chimp_code_def Let_def x_def [symmetric] l_def [symmetric] t_def [symmetric])
        obtain head r1 r2 where h: "peek_upto 11 r = (head, r1)" "drop_bit 9 head = of_bits [True, True]"
          "drop_bit 6 head AND 7 = ?a" "br_skip 5 r1 = Inr r2" "br_inv r2" "br_bits r2 = bits_of (64 - l) x @ ys"
          using peek_header [OF r(1) b] a by auto
        obtain r3 where r3: "br_read_bits (64 - l) r2 = Inr (x, r3)" "br_inv r3" "br_bits r3 = ys"
          using br_read_bits_app [OF h(5,6), of "64 - l"] payload by auto
        show ?thesis using h r3 d v cnt l(5) False new small first by (simp add: defs)
      qed
    qed
  qed
qed

end
