(* ===== verification/F64_Real.thy ===== *)
theory F64_Real
  imports Complex_Main F64
begin

text \<open>
  The real value of a double's magnitude, and what the rounding of \<open>f64_round_pack\<close> does to it.
\<close>

section \<open>Values\<close>

definition fv :: "f64 \<Rightarrow> real" where
  "fv x = real (f64_sig x) * 2 powi f64_exp2 x"

text \<open>The fields as parts of the magnitude.\<close>

lemma magnitude_fields:
  "f64_exponent x = f64_magnitude x div 2 ^ 52" "f64_mantissa x = f64_magnitude x mod 2 ^ 52"
proof -
  have masks: "(0x7FF :: f64) = mask 11" "(0xFFFFFFFFFFFFF :: f64) = mask 52" "(0x7FFFFFFFFFFFFFFF :: f64) = mask 63"
    by (simp_all add: mask_eq_exp_minus_1)
  have "f64_exponent x = unat (take_bit 11 (drop_bit 52 x))" "f64_mantissa x = unat (take_bit 52 x)"
    "f64_magnitude x = unat (take_bit 63 x)"
    unfolding f64_exponent_def f64_mantissa_def f64_magnitude_def masks by (simp_all add: take_bit_eq_mask)
  moreover have "take_bit 11 (drop_bit 52 (unat x)) = take_bit 63 (unat x) div 2 ^ 52"
    unfolding take_bit_drop_bit by (simp add: drop_bit_eq_div)
  moreover have "take_bit 52 (unat x) = take_bit 63 (unat x) mod 2 ^ 52"
  proof -
    have "take_bit 52 (unat x) = take_bit 52 (take_bit 63 (unat x))" by simp
    then show ?thesis by (simp only: take_bit_eq_mod [of 52])
  qed
  moreover have "take_bit 64 (unat x) = unat x" by (simp add: take_bit_nat_eq_self)
  ultimately show "f64_exponent x = f64_magnitude x div 2 ^ 52" "f64_mantissa x = f64_magnitude x mod 2 ^ 52"
    by (simp_all add: unsigned_take_bit_eq unsigned_drop_bit_eq)
qed

definition mag_value :: "nat \<Rightarrow> real" where
  "mag_value m = (if m div 2 ^ 52 = 0 then real (m mod 2 ^ 52) * 2 powi (- 1074)
     else real (m mod 2 ^ 52 + 2 ^ 52) * 2 powi (int (m div 2 ^ 52) - 1075))"

lemma fv_mag_value: "fv x = mag_value (f64_magnitude x)"
  by (simp add: fv_def mag_value_def f64_sig_def f64_exp2_def magnitude_fields)

lemma mag_value_Suc: "mag_value m \<le> mag_value (Suc m)"
proof (cases "Suc (m mod 2 ^ 52) < 2 ^ 52")
  case True
  then have "Suc m mod 2 ^ 52 = Suc (m mod 2 ^ 52)" "Suc m div 2 ^ 52 = m div 2 ^ 52"
    by (simp_all add: mod_Suc div_Suc)
  then show ?thesis by (simp add: mag_value_def mult_right_mono)
next
  case False
  then have m: "m mod 2 ^ 52 = 2 ^ 52 - 1" using mod_less_divisor [of "2 ^ 52" m] by simp
  then have S: "Suc m mod 2 ^ 52 = 0" "Suc m div 2 ^ 52 = Suc (m div 2 ^ 52)" by (simp_all add: mod_Suc div_Suc)
  show ?thesis
  proof (cases "m div 2 ^ 52 = 0")
    case True
    then show ?thesis using m S by (simp add: mag_value_def mult_right_mono)
  next
    case False
    have "2 powi (int (Suc (m div 2 ^ 52)) - 1075) = (2::real) * 2 powi (int (m div 2 ^ 52) - 1075)"
      using power_int_add [of "2::real" 1 "int (m div 2 ^ 52) - 1075"] by (simp add: algebra_simps)
    then show ?thesis using False m S by (simp add: mag_value_def algebra_simps)
  qed
qed

lemma mag_value_mono: "m \<le> n \<Longrightarrow> mag_value m \<le> mag_value n"
  using lift_Suc_mono_le [of mag_value] mag_value_Suc by blast

lemma fv_mono: "f64_magnitude a \<le> f64_magnitude b \<Longrightarrow> fv a \<le> fv b"
  by (simp add: fv_mag_value mag_value_mono)

lemma fv_nonneg [simp]: "0 \<le> fv x"
  by (simp add: fv_def)

section \<open>Bit lengths\<close>

lemma bit_length_bounds: "0 < n \<Longrightarrow> 2 ^ (bit_length n - 1) \<le> n \<and> n < 2 ^ bit_length n \<and> 0 < bit_length n"
proof (induction n rule: bit_length.induct)
  case (1 n)
  show ?case
  proof (cases "n div 2 = 0")
    case True
    then have "n = 1" using "1.prems" by linarith
    then show ?thesis by (simp add: bit_length.simps)
  next
    case False
    have bl: "bit_length n = Suc (bit_length (n div 2))" using "1.prems" by (simp add: bit_length.simps)
    have IH: "2 ^ (bit_length (n div 2) - 1) \<le> n div 2" "n div 2 < 2 ^ bit_length (n div 2)" "0 < bit_length (n div 2)"
      using "1.IH" "1.prems" False by auto
    have "(2::nat) ^ bit_length (n div 2) = 2 * 2 ^ (bit_length (n div 2) - 1)"
      using IH(3) by (cases "bit_length (n div 2)") simp_all
    then show ?thesis using IH bl by simp linarith
  qed
qed

lemma bit_length_le: "n < 2 ^ k \<Longrightarrow> bit_length n \<le> k"
proof (cases "n = 0")
  case False
  assume "n < 2 ^ k"
  then have "(2::nat) ^ (bit_length n - 1) < 2 ^ k" using bit_length_bounds [of n] False by linarith
  then show ?thesis using power_less_imp_less_exp [of "2::nat" "bit_length n - 1" k] by simp
qed (simp add: bit_length.simps)

lemma bit_length_ge: "2 ^ k \<le> n \<Longrightarrow> k < bit_length n"
proof -
  assume k: "2 ^ k \<le> n"
  then have "0 < n" by (metis gr0I not_one_le_zero one_le_numeral one_le_power order_trans)
  then have "(2::nat) ^ k < 2 ^ bit_length n" using bit_length_bounds [of n] k by linarith
  then show ?thesis by simp
qed

lemma powi_le_iff [simp]: "(2::real) powi a \<le> 2 powi b \<longleftrightarrow> a \<le> b"
  using power_int_increasing [of a b "2::real"] power_int_strict_increasing [of b a "2::real"] by (auto simp: not_le [symmetric])

lemma powi_less_iff [simp]: "(2::real) powi a < 2 powi b \<longleftrightarrow> a < b"
  by (simp add: less_le_not_le)

lemma bit_length_value:
  assumes "0 < m"
  shows "2 powi (int (bit_length m) + e - 1) \<le> real m * 2 powi e" "real m * 2 powi e < 2 powi (int (bit_length m) + e)"
proof -
  note b = bit_length_bounds [OF assms]
  obtain k where k: "bit_length m = Suc k" using b by (cases "bit_length m") auto
  have "2 powi (int (bit_length m) + e - 1) = (2::real) ^ k * 2 powi e"
    using power_int_add [of "2::real" "int k" e] k by simp
  moreover have "(2::real) powi (int (bit_length m) + e) = 2 ^ bit_length m * 2 powi e"
    using power_int_add [of "2::real" "int (bit_length m)" e] by simp
  moreover have "(2::real) ^ k \<le> real m" using b k by simp
  moreover have "real m < 2 ^ bit_length m" using b by simp
  ultimately show "2 powi (int (bit_length m) + e - 1) \<le> real m * 2 powi e" "real m * 2 powi e < 2 powi (int (bit_length m) + e)"
    by simp_all
qed

text \<open>The position of the leading bit of the value.\<close>

definition f64_lead :: "f64 \<Rightarrow> int" where
  "f64_lead x = int (bit_length (f64_sig x)) + f64_exp2 x"

lemma fv_lead: "0 < f64_sig x \<Longrightarrow> 2 powi (f64_lead x - 1) \<le> fv x \<and> fv x < 2 powi f64_lead x"
  using bit_length_value [of "f64_sig x" "f64_exp2 x"] by (simp add: f64_lead_def fv_def)

lemma f64_lead_le: "f64_lead x \<le> int (f64_exponent x) - 1022"
proof -
  have "f64_mantissa x < 2 ^ 52" by (simp add: magnitude_fields)
  then have "bit_length (f64_sig x) \<le> (if f64_exponent x = 0 then 52 else 53)"
    by (auto simp: f64_sig_def intro!: bit_length_le)
  then show ?thesis by (auto simp: f64_lead_def f64_exp2_def split: if_splits)
qed

section \<open>Rounding\<close>

text \<open>The weight of the last place and the rounded significand of \<open>m * 2^e\<close>.\<close>

definition round_exp :: "nat \<Rightarrow> int \<Rightarrow> int" where
  "round_exp m e = max (int (bit_length m) + e - 53) (- 1074)"

definition round_sig :: "nat \<Rightarrow> int \<Rightarrow> nat" where
  "round_sig m e = (let q = round_exp m e in
     if q \<le> e then m * 2 ^ nat (e - q)
     else let sh = nat (q - e); d = m div 2 ^ sh; rm = m mod 2 ^ sh; half = 2 ^ (sh - 1)
          in if half < rm \<or> (rm = half \<and> odd d) then d + 1 else d)"

definition round_bits :: "nat \<Rightarrow> int \<Rightarrow> nat" where
  "round_bits m e = nat (round_exp m e + 1074) * 2 ^ 52 + round_sig m e"

lemma f64_round_pack_eq:
  "0 < m \<Longrightarrow> f64_round_pack s m e =
    (if 0x7FF0000000000000 \<le> round_bits m e then (if s then 0x8000000000000000 else 0) OR f64_infinity
     else (if s then 0x8000000000000000 else 0) OR word_of_nat (round_bits m e))"
  unfolding f64_round_pack_def round_bits_def round_sig_def round_exp_def Let_def by simp

lemma round_sig_le:
  assumes "0 < m" shows "round_sig m e \<le> 2 ^ 53"
proof -
  define q b where "q = round_exp m e" and "b = bit_length m"
  have q: "int b + e - 53 \<le> q" by (simp add: q_def b_def round_exp_def)
  have m: "m < 2 ^ b" using bit_length_bounds [OF assms] by (simp add: b_def)
  show ?thesis
  proof (cases "q \<le> e")
    case True
    then have "m * 2 ^ nat (e - q) < 2 ^ b * 2 ^ nat (e - q)" using m by simp
    also have "\<dots> = 2 ^ (b + nat (e - q))" by (simp add: power_add)
    also have "\<dots> \<le> (2::nat) ^ 53" by (rule power_increasing) (use q True in linarith, simp)
    finally show ?thesis using True by (simp add: round_sig_def q_def [symmetric] Let_def del: power_numeral)
  next
    case False
    have "b \<le> nat (q - e) + 53" using q False by linarith
    then have "m < 2 ^ (nat (q - e) + 53)" using m power_increasing [of b "nat (q - e) + 53" "2::nat"] by linarith
    then have "m div 2 ^ nat (q - e) < 2 ^ 53" by (simp add: less_mult_imp_div_less power_add mult.commute)
    then show ?thesis using False by (simp add: round_sig_def q_def [symmetric] Let_def)
  qed
qed

lemma round_sig_ge:
  assumes "0 < m" "- 1074 < round_exp m e" shows "2 ^ 52 \<le> round_sig m e"
proof -
  define q b where "q = round_exp m e" and "b = bit_length m"
  have q: "q = int b + e - 53" using assms(2) by (simp add: q_def b_def round_exp_def)
  have m: "2 ^ (b - 1) \<le> m" "0 < b" using bit_length_bounds [OF assms(1)] by (simp_all add: b_def)
  show ?thesis
  proof (cases "q \<le> e")
    case True
    have "(2::nat) ^ 52 = 2 ^ (b - 1) * 2 ^ nat (e - q)"
      using m(2) q True by (subst power_add [symmetric]) (simp add: nat_diff_distrib')
    also have "\<dots> \<le> m * 2 ^ nat (e - q)" using m(1) by simp
    finally show ?thesis using True by (simp add: round_sig_def q_def [symmetric] Let_def del: power_numeral)
  next
    case False
    have "b - 1 = nat (q - e) + 52" using q False by linarith
    then have "2 ^ 52 * 2 ^ nat (q - e) \<le> m" using m(1) by (simp add: power_add mult.commute)
    then have "2 ^ 52 \<le> m div 2 ^ nat (q - e)" by (simp add: less_eq_div_iff_mult_less_eq)
    then show ?thesis using False by (simp add: round_sig_def q_def [symmetric] Let_def)
  qed
qed

lemma div_mod_sum: "s < n \<Longrightarrow> (k * n + s) div n = k \<and> (k * n + s) mod n = s" for k n s :: nat
  by simp

lemma mag_value_round:
  assumes "0 < m" shows "mag_value (round_bits m e) = real (round_sig m e) * 2 powi round_exp m e"
proof -
  define q r where "q = round_exp m e" and "r = round_sig m e"
  have q: "- 1074 \<le> q" by (simp add: q_def round_exp_def)
  have rb: "round_bits m e = nat (q + 1074) * 2 ^ 52 + r" by (simp add: round_bits_def q_def r_def)
  consider (sub) "r < 2 ^ 52" "q = - 1074" | (norm) "2 ^ 52 \<le> r" "r < 2 ^ 53" | (carry) "r = 2 ^ 53"
    using round_sig_le [OF assms, of e] round_sig_ge [OF assms, of e] q
    by (cases "q = - 1074"; cases "r = 2 ^ 53"; cases "r < 2 ^ 52") (auto simp: q_def [symmetric] r_def [symmetric])
  then have "mag_value (round_bits m e) = real r * 2 powi q"
  proof cases
    case sub
    then show ?thesis by (simp add: rb mag_value_def)
  next
    case norm
    have "round_bits m e = (nat (q + 1074) + 1) * 2 ^ 52 + (r - 2 ^ 52)" using norm(1) rb by simp
    moreover have "r - 2 ^ 52 < 2 ^ 52" using norm by simp
    ultimately have "round_bits m e div 2 ^ 52 = nat (q + 1074) + 1" "round_bits m e mod 2 ^ 52 = r - 2 ^ 52"
      using div_mod_sum [of "r - 2 ^ 52" "2 ^ 52" "nat (q + 1074) + 1"] by metis+
    then show ?thesis using norm(1) q by (simp add: mag_value_def of_nat_diff algebra_simps)
  next
    case carry
    then have "round_bits m e = (nat (q + 1074) + 2) * 2 ^ 52" using rb by simp
    then have "round_bits m e div 2 ^ 52 = nat (q + 1074) + 2" "round_bits m e mod 2 ^ 52 = 0" by simp_all
    moreover have "(2::real) powi (q + 1) = 2 * 2 powi q" by (simp add: power_int_add)
    ultimately show ?thesis using carry q by (simp add: mag_value_def algebra_simps)
  qed
  then show ?thesis by (simp add: q_def r_def)
qed

lemma round_error:
  assumes "0 < m" shows "\<bar>real (round_sig m e) * 2 powi round_exp m e - real m * 2 powi e\<bar> \<le> 2 powi (round_exp m e - 1)"
proof -
  define q where "q = round_exp m e"
  show ?thesis
  proof (cases "q \<le> e")
    case True
    then obtain k where k: "e = q + int k" by (metis zle_iff_zadd)
    have "real (m * 2 ^ nat (e - q)) * 2 powi q = real m * 2 powi e"
      using power_int_add [of "2::real" q "int k"] by (simp add: k)
    moreover have "round_sig m e = m * 2 ^ nat (e - q)" using True by (simp add: round_sig_def q_def [symmetric])
    ultimately show ?thesis unfolding q_def [symmetric] by (simp only:) simp
  next
    case False
    define sh where "sh = nat (q - e)"
    define d rm where "d = m div 2 ^ sh" and "rm = m mod 2 ^ sh"
    have sh: "0 < sh" "e = q - int sh" using False by (simp_all add: sh_def)
    have "m = d * 2 ^ sh + rm" unfolding d_def rm_def by (rule div_mult_mod_eq [symmetric])
    then have m: "real m = real d * 2 ^ sh + real rm" by simp
    define half :: real where "half = 2 ^ (sh - 1)"
    have half: "2 ^ sh = 2 * half" using sh(1) by (cases sh) (simp_all add: half_def)
    have "rm < 2 ^ sh" by (simp add: rm_def)
    then have rm: "real rm < 2 * half" unfolding half [symmetric] by simp
    define r where "r = round_sig m e"
    have r: "r = (if 2 ^ (sh - 1) < rm \<or> rm = 2 ^ (sh - 1) \<and> odd d then d + 1 else d)"
      using False by (simp add: r_def round_sig_def q_def [symmetric] Let_def sh_def [symmetric] d_def [symmetric] rm_def [symmetric])
    have cmp: "(2 ^ (sh - 1) < rm) = (half < real rm)" "(rm = 2 ^ (sh - 1)) = (real rm = half)"
      by (simp_all add: half_def)
    have "\<bar>real r * 2 ^ sh - real m\<bar> \<le> half"
      using rm unfolding m r cmp half by (auto simp: algebra_simps not_less)
    then have "\<bar>real r * 2 ^ sh - real m\<bar> * 2 powi e \<le> half * 2 powi e" by (rule mult_right_mono) simp
    moreover have "half * 2 powi e = 2 powi (q - 1)"
    proof -
      obtain k where k: "sh = Suc k" using sh(1) by (cases sh) auto
      show ?thesis using power_int_add [of "2::real" "int k" e] sh(2) by (simp add: half_def k)
    qed
    moreover have "2 ^ sh * 2 powi e = (2::real) powi q"
      using power_int_add [of "2::real" "int sh" e] sh(2) by simp
    then have "\<bar>real r * 2 ^ sh - real m\<bar> * 2 powi e = \<bar>real r * 2 powi q - real m * 2 powi e\<bar>"
      using abs_mult_pos [of "2 powi e" "real r * 2 ^ sh - real m"] by (simp add: left_diff_distrib mult.assoc)
    ultimately show ?thesis by (simp add: r_def q_def)
  qed
qed

lemma magnitude_word_of_nat:
  assumes "n < 2 ^ 63" shows "f64_magnitude (word_of_nat n) = n" "\<not> f64_sign (word_of_nat n)"
proof -
  have mask: "(0x7FFFFFFFFFFFFFFF :: f64) = mask 63" by (simp add: mask_eq_exp_minus_1)
  have u: "unat (word_of_nat n :: f64) = n" using assms by (intro unat_word_of_nat_64) simp
  then show "\<not> f64_sign (word_of_nat n)"
    using bit_unat_less [of "word_of_nat n :: f64" 63 63] assms by (auto simp: f64_sign_def)
  show "f64_magnitude (word_of_nat n) = n"
    unfolding f64_magnitude_def mask take_bit_eq_mask [symmetric] unsigned_take_bit_eq u
    using assms by (simp add: take_bit_nat_eq_self)
qed

lemma round_pack_finite:
  assumes "0 < m" "round_bits m e < 0x7FF0000000000000"
  shows "f64_magnitude (f64_round_pack False m e) = round_bits m e" "is_finite (f64_round_pack False m e)"
    "\<not> f64_sign (f64_round_pack False m e)" "\<not> is_nan (f64_round_pack False m e)"
    "fv (f64_round_pack False m e) = real (round_sig m e) * 2 powi round_exp m e"
proof -
  have e: "f64_round_pack False m e = word_of_nat (round_bits m e)" using assms by (simp add: f64_round_pack_eq)
  have b: "round_bits m e < 2 ^ 63" using assms(2) by simp
  note mw = magnitude_word_of_nat [OF b]
  show m: "f64_magnitude (f64_round_pack False m e) = round_bits m e" unfolding e by (rule mw(1))
  show "is_finite (f64_round_pack False m e)" "\<not> is_nan (f64_round_pack False m e)"
    using assms(2) by (simp_all add: is_finite_def is_nan_def m)
  show "\<not> f64_sign (f64_round_pack False m e)" unfolding e by (rule mw(2))
  show "fv (f64_round_pack False m e) = real (round_sig m e) * 2 powi round_exp m e"
    using mag_value_round [OF assms(1)] by (simp add: fv_mag_value m)
qed

text \<open>A value that fits 53 bits is kept.\<close>

lemma round_exact:
  assumes "0 < m" "bit_length m \<le> 53" "- 1074 \<le> e"
  shows "real (round_sig m e) * 2 powi round_exp m e = real m * 2 powi e"
proof -
  have q: "round_exp m e \<le> e" using assms(2,3) by (simp add: round_exp_def)
  then obtain k where k: "e = round_exp m e + int k" by (metis zle_iff_zadd)
  then have "nat (e - round_exp m e) = k" by linarith
  then have "round_sig m e = m * 2 ^ k" using q by (simp add: round_sig_def)
  then have "real (round_sig m e) * 2 powi round_exp m e = real m * (2 powi round_exp m e * 2 powi int k)" by simp
  also have "\<dots> = real m * 2 powi e" by (subst k) (simp add: power_int_add)
  finally show ?thesis .
qed

lemma round_bits_less:
  assumes "0 < m" "int (bit_length m) + e \<le> k" "- 1021 \<le> k"
  shows "round_bits m e \<le> nat (k + 1023) * 2 ^ 52"
proof -
  have "nat (round_exp m e + 1074) \<le> nat (k + 1021)" using assms(2,3) by (simp add: round_exp_def)
  then have "round_bits m e \<le> nat (k + 1021) * 2 ^ 52 + 2 ^ 53"
    unfolding round_bits_def using round_sig_le [OF assms(1), of e] by (intro add_mono mult_right_mono) simp_all
  also have "\<dots> = nat (k + 1023) * 2 ^ 52" using assms(3) by (simp add: nat_add_distrib)
  finally show ?thesis .
qed

text \<open>The rounding error relative to the value, away from the subnormals.\<close>

lemma round_relative:
  assumes m: "0 < m" and big: "- 1021 \<le> int (bit_length m) + e"
  shows "\<bar>real (round_sig m e) * 2 powi round_exp m e - real m * 2 powi e\<bar> \<le> real m * 2 powi e / 2 ^ 53"
proof -
  let ?b = "bit_length m"
  have q: "round_exp m e = int ?b + e - 53" using big by (simp add: round_exp_def)
  obtain k where k: "?b = Suc k" using bit_length_bounds [OF m] by (cases ?b) auto
  have "(2::real) ^ k \<le> real m" using bit_length_bounds [OF m] k by simp
  then have "2 ^ k * 2 powi e / 2 ^ 53 \<le> real m * 2 powi e / 2 ^ 53" by (intro divide_right_mono mult_right_mono) simp_all
  moreover have "2 powi (round_exp m e - 1) = (2::real) ^ k * 2 powi e / 2 ^ 53"
    using power_int_add [of "2::real" "int k" e] power_int_diff [of "2::real" "int k + e" 53] by (simp add: q k)
  ultimately show ?thesis using round_error [OF m, of e] by linarith
qed

lemma fv_of_nat:
  assumes "0 < n" "n < 2 ^ 53"
  shows "fv (f64_round_pack False n 0) = real n" "is_finite (f64_round_pack False n 0)"
    "\<not> f64_sign (f64_round_pack False n 0)" "\<not> is_nan (f64_round_pack False n 0)"
proof -
  have bl: "bit_length n \<le> 53" using bit_length_le [OF assms(2)] .
  have "round_bits n 0 \<le> nat (53 + 1023) * 2 ^ 52" using bl by (intro round_bits_less assms(1)) simp_all
  then have "round_bits n 0 < 0x7FF0000000000000" by simp
  note r = round_pack_finite [OF assms(1) this]
  show "fv (f64_round_pack False n 0) = real n" using r(5) round_exact [OF assms(1) bl, of 0] by simp
  show "is_finite (f64_round_pack False n 0)" "\<not> f64_sign (f64_round_pack False n 0)" "\<not> is_nan (f64_round_pack False n 0)"
    using r by simp_all
qed

lemma int_part_floor: "int (f64_int_part x) = \<lfloor>fv x\<rfloor>"
proof (cases "0 \<le> f64_exp2 x")
  case True
  then have "fv x = real (f64_sig x * 2 ^ nat (f64_exp2 x))" by (simp add: fv_def power_int_def)
  then have "\<lfloor>fv x\<rfloor> = int (f64_sig x * 2 ^ nat (f64_exp2 x))" by (simp only: floor_of_nat)
  then show ?thesis using True by (simp add: f64_int_part_def)
next
  case False
  then have "fv x = real (f64_sig x) / real (2 ^ nat (- f64_exp2 x))" by (simp add: fv_def power_int_def field_simps)
  then show ?thesis using False by (simp only: floor_divide_of_nat_eq) (simp add: f64_int_part_def)
qed

lemma has_fract_iff: "f64_has_fract x \<longleftrightarrow> fv x \<noteq> of_int \<lfloor>fv x\<rfloor>"
proof (cases "0 \<le> f64_exp2 x")
  case True
  then have "fv x = of_int (int (f64_sig x * 2 ^ nat (f64_exp2 x)))" by (simp add: fv_def power_int_def)
  then show ?thesis using True by (metis floor_of_int f64_has_fract_def not_le)
next
  case False
  define p where "p = (2::nat) ^ nat (- f64_exp2 x)"
  have p: "0 < p" by (simp add: p_def)
  have "fv x = real (f64_sig x) / real p" using False by (simp add: fv_def power_int_def field_simps p_def)
  moreover have "real (f64_sig x) / real p = real (f64_sig x div p) \<longleftrightarrow> f64_sig x mod p = 0"
  proof -
    have "real (f64_sig x) = real (f64_sig x div p) * real p + real (f64_sig x mod p)"
      by (metis div_mult_mod_eq of_nat_add of_nat_mult)
    then show ?thesis using p by (auto simp: field_simps)
  qed
  ultimately show ?thesis
    using False by (simp add: f64_has_fract_def floor_divide_of_nat_eq flip: p_def)
qed

lemma bit_length_one [simp]: "bit_length (Suc 0) = 1"
  using bit_length_numeral(2) by simp

text \<open>Fields of a literal bit pattern.\<close>

lemma numeral_fields:
  assumes "(numeral k :: nat) < 2 ^ 63"
  shows "f64_magnitude (numeral k) = numeral k" "\<not> f64_sign (numeral k)"
    "f64_exponent (numeral k) = numeral k div 2 ^ 52" "f64_mantissa (numeral k) = numeral k mod 2 ^ 52"
proof -
  have w: "(numeral k :: f64) = word_of_nat (numeral k)" by simp
  show m: "f64_magnitude (numeral k) = numeral k" "\<not> f64_sign (numeral k)"
    using magnitude_word_of_nat [OF assms] unfolding w by simp_all
  show "f64_exponent (numeral k) = numeral k div 2 ^ 52" "f64_mantissa (numeral k) = numeral k mod 2 ^ 52"
    by (simp_all only: magnitude_fields m)
qed

text \<open>Positive operands.\<close>

definition f64_pos :: "f64 \<Rightarrow> bool" where
  "f64_pos x \<longleftrightarrow> is_finite x \<and> \<not> f64_sign x \<and> 0 < f64_magnitude x"

lemma f64_pos_facts:
  assumes "f64_pos x"
  shows "\<not> is_nan x" "\<not> is_infinite x" "f64_key x = int (f64_magnitude x)" "0 < f64_sig x" "0 < fv x"
proof -
  show "\<not> is_nan x" "\<not> is_infinite x" "f64_key x = int (f64_magnitude x)"
    using assms by (auto simp: f64_pos_def is_finite_def is_nan_def is_infinite_def f64_key_def)
  show s: "0 < f64_sig x"
  proof (rule ccontr)
    assume "\<not> 0 < f64_sig x"
    then have "f64_exponent x = 0" "f64_mantissa x = 0" by (auto simp: f64_sig_def split: if_splits)
    then have "f64_magnitude x = 0" using div_mult_mod_eq [of "f64_magnitude x" "2 ^ 52"] by (simp add: magnitude_fields)
    then show False using assms by (simp add: f64_pos_def)
  qed
  then show "0 < fv x" by (simp add: fv_def)
qed

lemma f64_pos_compare:
  assumes "f64_pos a" "f64_pos b"
  shows "f64_lt a b \<Longrightarrow> fv a \<le> fv b" "\<not> f64_lt a b \<Longrightarrow> fv b \<le> fv a"
    "f64_le a b \<Longrightarrow> fv a \<le> fv b" "\<not> f64_le a b \<Longrightarrow> fv b \<le> fv a"
  using f64_pos_facts [OF assms(1)] f64_pos_facts [OF assms(2)]
  by (auto simp: f64_lt_def f64_le_def intro!: fv_mono)

lemma f64_posI: "is_finite x \<Longrightarrow> \<not> f64_sign x \<Longrightarrow> 0 < fv x \<Longrightarrow> f64_pos x"
  by (auto simp: f64_pos_def fv_mag_value mag_value_def intro: gr0I)

lemma f64_mul_pos:
  assumes "f64_pos a" "f64_pos b"
  shows "f64_mul a b = f64_round_pack False (f64_sig a * f64_sig b) (f64_exp2 a + f64_exp2 b)"
    and "real (f64_sig a * f64_sig b) * 2 powi (f64_exp2 a + f64_exp2 b) = fv a * fv b"
  using assms f64_pos_facts [OF assms(1)] f64_pos_facts [OF assms(2)]
  by (simp_all add: f64_mul_def f64_pos_def fv_def power_int_add)

section \<open>Division\<close>

lemma f64_sig_less: "f64_sig x < 2 ^ 53"
proof -
  have "f64_mantissa x < 2 ^ 52" by (simp add: magnitude_fields)
  then show ?thesis by (simp add: f64_sig_def)
qed

lemma exp2_of_integer:
  assumes "1 \<le> fv x" "fv x < 2 ^ 53" shows "- 52 \<le> f64_exp2 x" "f64_exp2 x \<le> 0"
proof -
  have sig: "0 < f64_sig x" using assms(1) by (intro gr0I) (auto simp: fv_def)
  have len: "bit_length (f64_sig x) \<le> 53" using f64_sig_less by (rule bit_length_le)
  note lead = fv_lead [OF sig]
  have "(2::real) powi 0 < 2 powi f64_lead x" using lead assms(1) by simp
  then have "0 < f64_lead x" unfolding powi_less_iff .
  then show "- 52 \<le> f64_exp2 x" using len by (simp add: f64_lead_def)
  have "(2::real) powi (f64_lead x - 1) < 2 powi 53" using lead assms(2) by simp
  then have up: "f64_lead x - 1 < 53" unfolding powi_less_iff .
  show "f64_exp2 x \<le> 0"
  proof (cases "f64_exponent x = 0")
    case False
    then have "52 < bit_length (f64_sig x)" by (intro bit_length_ge) (simp add: f64_sig_def)
    then show ?thesis using up by (simp add: f64_lead_def)
  qed (simp add: f64_exp2_def)
qed

lemma f64_of_nat_pos:
  assumes "0 < n" "n < 2 ^ 53"
  shows "f64_pos (f64_of_int (int n))" "fv (f64_of_int (int n)) = real n"
proof -
  note f = fv_of_nat [OF assms]
  show v: "fv (f64_of_int (int n)) = real n" using f(1) by (simp add: f64_of_int_def)
  show "f64_pos (f64_of_int (int n))" using f v assms(1) by (intro f64_posI) (simp_all add: f64_of_int_def)
qed

text \<open>A quotient of two positive integers, before rounding, is the exact one up to \<open>2^-69\<close>.\<close>

lemma f64_div_pos:
  assumes "0 < a" "a < 2 ^ 53" "0 < b" "b < 2 ^ 53"
  obtains m e where "f64_div (f64_of_int (int a)) (f64_of_int (int b)) = f64_round_pack False m e" "0 < m"
    "real m * 2 powi e \<le> real a / real b + 2 powi (- 69)" "- 173 \<le> e"
proof -
  let ?a = "f64_of_int (int a)" and ?b = "f64_of_int (int b)"
  note pa = f64_of_nat_pos [OF assms(1,2)] and pb = f64_of_nat_pos [OF assms(3,4)]
  note fa = f64_pos_facts [OF pa(1)] and fb = f64_pos_facts [OF pb(1)]
  have ea: "- 52 \<le> f64_exp2 ?a" "f64_exp2 ?a \<le> 0" and eb: "- 52 \<le> f64_exp2 ?b" "f64_exp2 ?b \<le> 0"
    using exp2_of_integer [of ?a] exp2_of_integer [of ?b] pa(2) pb(2) assms by simp_all
  define n where "n = f64_sig ?a * 2 ^ 120"
  define m where "m = 2 * (n div f64_sig ?b) + (if n mod f64_sig ?b = 0 then 0 else 1)"
  define e where "e = f64_exp2 ?a - f64_exp2 ?b - 121"
  have nz: "f64_magnitude ?b \<noteq> 0" "\<not> f64_sign ?a" "\<not> f64_sign ?b" using pa(1) pb(1) by (auto simp: f64_pos_def)
  have "f64_div ?a ?b = f64_round_pack False m e"
    using fa(1,2) fb(1,2) nz by (simp add: f64_div_def Let_def m_def n_def e_def)
  moreover have "0 < m"
  proof -
    have "f64_sig ?b \<le> 2 ^ 120" using less_trans [OF f64_sig_less [of ?b], of "2 ^ 120"] by simp
    also have "\<dots> \<le> n" unfolding n_def using fa(4) mult_le_mono1 [of 1 "f64_sig ?a" "2 ^ 120"] by simp
    finally have "f64_sig ?b \<le> n" .
    then have "0 < n div f64_sig ?b" using fb(4) by (simp add: div_greater_zero_iff)
    then show ?thesis by (simp add: m_def)
  qed
  moreover have "real m * 2 powi e \<le> real a / real b + 2 powi (- 69)"
  proof -
    have "real m \<le> 2 * (real n / real (f64_sig ?b)) + 1"
      using of_nat_div_le_of_nat [of n "f64_sig ?b", where ?'a = real] by (simp add: m_def)
    then have "real m * 2 powi e \<le> (2 * (real n / real (f64_sig ?b)) + 1) * 2 powi e" by (rule mult_right_mono) simp
    also have "\<dots> = 2 * 2 ^ 120 * (real (f64_sig ?a) / real (f64_sig ?b)) * 2 powi e + 2 powi e"
      by (simp add: n_def algebra_simps)
    also have "2 * 2 ^ 120 * (real (f64_sig ?a) / real (f64_sig ?b)) * 2 powi e = fv ?a / fv ?b"
    proof -
      have "(2::real) powi e = 2 powi f64_exp2 ?a / 2 powi f64_exp2 ?b / 2 ^ 121"
        by (simp add: e_def power_int_diff power_int_numeral)
      then show ?thesis by (simp add: fv_def)
    qed
    also have "\<dots> + 2 powi e \<le> real a / real b + 2 powi (- 69)" unfolding pa(2) pb(2) add_le_cancel_left powi_le_iff
      using ea eb by (simp add: e_def)
    finally show ?thesis .
  qed
  moreover have "- 173 \<le> e" using ea eb by (simp add: e_def)
  ultimately show ?thesis using that by blast
qed

end
