(* ===== verification/Elf64.thy ===== *)
theory Elf64
  imports F64
begin

text \<open>
  \<open>src/series/chunks/chimp/elf64.rs\<close>: the decimal side of the ELF erasure. \<open>log10\<close> is a function
  of the C library with unspecified precision; the definitions that use it take it as the
  argument \<open>lg\<close>.
\<close>

section \<open>Tables\<close>

definition ELF_F :: "int list" where
  "ELF_F = [0, 4, 7, 10, 14, 17, 20, 24, 27, 30, 34, 37, 40, 44, 47, 50, 54, 57, 60, 64, 67]"

text \<open>A decimal literal \<open>n / d\<close> is its correctly rounded value; 1300 quotient bits are more than rounding looks at.\<close>

definition f64_ratio :: "nat \<Rightarrow> nat \<Rightarrow> f64" where
  "f64_ratio n d =
     (let q = n * 2 ^ 1300 in f64_round_pack False (2 * (q div d) + (if q mod d = 0 then 0 else 1)) (- 1301))"

definition MAP_10IP :: "nat \<Rightarrow> f64 option" where
  "MAP_10IP i = (if i < 309 then Some (f64_round_pack False (10 ^ i) 0) else None)"

definition MAP_10IN :: "nat \<Rightarrow> f64 option" where
  "MAP_10IN i = (if i < 324 then Some (f64_ratio 1 (10 ^ i)) else None)"

definition MAP_SP_GREATER_1 :: "f64 list" where
  "MAP_SP_GREATER_1 = map (\<lambda>i. f64_round_pack False (10 ^ i) 0) [0..<10]"

definition MAP_SP_LESS_1 :: "f64 list" where
  "MAP_SP_LESS_1 = map (\<lambda>i. f64_ratio 1 (10 ^ i)) [0..<11]"

text \<open>The constants \<open>LN_10\<close> and \<open>LN_2\<close> of \<open>std::f64::consts\<close>.\<close>

definition LOG_2_10 :: f64 where
  "LOG_2_10 = f64_div 0x40026BB1BBB55516 0x3FE62E42FEFA39EF"

section \<open>Definitions\<close>

text \<open>\<open>None\<close> is the panic on a negative argument.\<close>

definition get_f_alpha :: "int \<Rightarrow> int option" where
  "get_f_alpha alpha =
     (if alpha < 0 then None
      else if int (length ELF_F) \<le> alpha then Some (f64_as_i32 (f64_ceil (f64_mul (f64_of_int alpha) LOG_2_10)))
      else Some (ELF_F ! nat alpha))"

definition get_10ip :: "int \<Rightarrow> unit + f64" where
  "get_10ip i = (if i < 0 then Inl () else Inr (case MAP_10IP (nat i) of Some v \<Rightarrow> v | None \<Rightarrow> f64_infinity))"

definition get_10in :: "int \<Rightarrow> unit + f64" where
  "get_10in i = (if i < 0 then Inl () else Inr (case MAP_10IN (nat i) of Some v \<Rightarrow> v | None \<Rightarrow> 0))"

definition f64_one :: f64 where
  "f64_one = 0x3FF0000000000000"

text \<open>The two table scans; \<open>find\<close> gives the index at which the loop returns.\<close>

definition get_sp :: "(f64 \<Rightarrow> f64) \<Rightarrow> f64 \<Rightarrow> int" where
  "get_sp lg v =
     (case if f64_le f64_one v
           then map_option int (find (\<lambda>i. f64_lt v (MAP_SP_GREATER_1 ! (i + 1))) [0..<9])
           else map_option (\<lambda>i. - int i) (find (\<lambda>i. f64_le (MAP_SP_LESS_1 ! i) v) [1..<11])
      of Some sp \<Rightarrow> sp
       | None \<Rightarrow> f64_as_i32 (f64_floor (lg v)))"

definition get_sp_and_10in_flag :: "(f64 \<Rightarrow> f64) \<Rightarrow> f64 \<Rightarrow> int \<times> int" where
  "get_sp_and_10in_flag lg v =
     (case if f64_le f64_one v
           then map_option (\<lambda>i. (int i, 0)) (find (\<lambda>i. f64_lt v (MAP_SP_GREATER_1 ! (i + 1))) [0..<9])
           else map_option (\<lambda>i. (- int i, if f64_eq v (MAP_SP_LESS_1 ! i) then 1 else 0))
             (find (\<lambda>i. f64_le (MAP_SP_LESS_1 ! i) v) [1..<11])
      of Some r \<Rightarrow> r
       | None \<Rightarrow>
           let log10v = lg v in
           (f64_as_i32 (f64_floor log10v), if f64_eq log10v (f64_of_int (f64_as_i64 log10v)) then 1 else 0))"

text \<open>\<open>2^63\<close>.\<close>

definition SATURATES :: f64 where
  "SATURATES = 0x43E0000000000000"

text \<open>\<open>temp = v * get_10ip(i)?; if temp > SATURATES { return Err(()) }\<close>.\<close>

definition scaled :: "f64 \<Rightarrow> int \<Rightarrow> unit + f64" where
  "scaled v i = bindR (get_10ip i) (\<lambda>p. let temp = f64_mul v p in if f64_lt SATURATES temp then Inl () else Inr temp)"

text \<open>The search for a scale at which the value is an integer, with its guard.\<close>

function digit_search :: "nat \<Rightarrow> f64 \<Rightarrow> int \<Rightarrow> f64 \<Rightarrow> unit + (int \<times> f64)" where
  "digit_search guard v i temp =
     (if f64_eq (f64_of_int (f64_as_i64 temp)) temp then Inr (i, temp)
      else if 5000 < guard + 1 then Inl ()
      else bindR (scaled v (i + 1)) (digit_search (guard + 1) v (i + 1)))"
  by pat_completeness auto
termination
  by (relation "measure (\<lambda>(guard, v, i, temp). 5001 - guard)") auto

declare digit_search.simps [simp del]

text \<open>Dropping the trailing zeros of the integer.\<close>

function strip_zeros :: "int \<Rightarrow> int \<Rightarrow> int" where
  "strip_zeros i n = (if 0 < i \<and> n mod 10 = 0 then strip_zeros (i - 1) (n div 10) else i)"
  by pat_completeness auto
termination
  by (relation "measure (\<lambda>(i, n). nat i)") auto

declare strip_zeros.simps [simp del]

definition get_significant_count :: "f64 \<Rightarrow> int \<Rightarrow> int \<Rightarrow> unit + int" where
  "get_significant_count v sp last_beta_star =
     (let i0 = (if last_beta_star \<noteq> i32_max \<and> last_beta_star \<noteq> 0 then max (last_beta_star - sp - 1) 1
                else if last_beta_star = i32_max then 17 - sp - 1
                else if 0 \<le> sp then 1
                else - sp)
      in bindR (scaled v i0) (\<lambda>temp0.
         bindR (digit_search 0 v i0 temp0) (\<lambda>(i, temp).
         bindR (get_10ip i) (\<lambda>p.
           if \<not> f64_eq (f64_div temp p) v then Inr 17
           else Inr (sp + strip_zeros i (f64_as_i64 temp) + 1)))))"

definition get_alpha_and_beta_star :: "(f64 \<Rightarrow> f64) \<Rightarrow> f64 \<Rightarrow> int \<Rightarrow> unit + (int \<times> int)" where
  "get_alpha_and_beta_star lg v0 last_beta_star =
     (let v = (if f64_lt v0 0 then f64_neg v0 else v0);
          (sp, flag) = get_sp_and_10in_flag lg v
      in bindR (get_significant_count v sp last_beta_star) (\<lambda>beta.
           Inr (beta - sp - 1, if flag = 1 then 0 else beta)))"

definition round_up :: "f64 \<Rightarrow> int \<Rightarrow> unit + f64" where
  "round_up v alpha =
     bindR (get_10ip alpha) (\<lambda>scale.
       Inr (if f64_lt v 0 then f64_div (f64_floor (f64_mul v scale)) scale
            else f64_div (f64_ceil (f64_mul v scale)) scale))"

end
