(* ===== verification/Elf64_Bounds.thy ===== *)
theory Elf64_Bounds
  imports F64_Real Elf64
begin

text \<open>
  The numbers the ELF layer computes: the scale \<open>sp\<close> is the decimal exponent of the value, with
  the accuracy of \<open>log10\<close> as the named hypothesis \<open>log10_ok\<close>, and when the compressor erases bits
  the digit count fits the four bits it is written in.
\<close>

section \<open>The number of fraction bits\<close>

lemma as_i32_int_part:
  "f64_pos x \<Longrightarrow> fv x < 2 ^ 31 \<Longrightarrow> f64_as_i32 x = \<lfloor>fv x\<rfloor>"
proof -
  assume x: "f64_pos x" and "fv x < 2 ^ 31"
  then have "\<lfloor>fv x\<rfloor> < 2 ^ 31" "0 \<le> \<lfloor>fv x\<rfloor>" by (simp_all add: floor_less_iff)
  then show ?thesis using f64_pos_facts [OF x] int_part_floor [of x] x
    by (simp add: f64_as_i32_def f64_trunc_clamp_def f64_pos_def)
qed

lemma as_i32_ceil:
  assumes "f64_pos x" "fv x \<le> 2 ^ 30"
  shows "fv x \<le> of_int (f64_as_i32 (f64_ceil x))"
proof (cases "f64_has_fract x")
  case False
  then have "f64_ceil x = x" "fv x = of_int \<lfloor>fv x\<rfloor>" by (simp_all add: f64_ceil_def has_fract_iff)
  then show ?thesis using as_i32_int_part [OF assms(1)] assms(2) by simp
next
  case True
  define n where "n = f64_int_part x + 1"
  have n: "int n = \<lfloor>fv x\<rfloor> + 1" by (simp add: n_def int_part_floor)
  have fl: "\<lfloor>fv x\<rfloor> \<le> 1073741824" using assms(2) by (simp add: floor_le_iff)
  then have le: "n \<le> 1073741825" using n by linarith
  then have b: "0 < n" "n < 2 ^ 53" by (simp_all add: n_def)
  have "f64_ceil x = f64_round_pack False n 0" using True assms(1) by (simp add: f64_ceil_def f64_pos_def n_def)
  moreover note v = fv_of_nat [OF b]
  moreover have "f64_pos (f64_round_pack False n 0)" using v b by (intro f64_posI) simp_all
  moreover have "real n < 2 ^ 31" using le by simp
  ultimately have "f64_as_i32 (f64_ceil x) = int n" by (simp add: as_i32_int_part)
  then show ?thesis using n by linarith
qed

lemma LOG_2_10_value: "f64_pos LOG_2_10" "f64_sig LOG_2_10 = 0x1a934f0979a372" "f64_exp2 LOG_2_10 = - 51"
proof -
  define a b :: f64 where "a = 0x40026BB1BBB55516" and "b = 0x3FE62E42FEFA39EF"
  have "f64_magnitude a = 0x40026BB1BBB55516" "\<not> f64_sign a" "f64_sig a = 0x126BB1BBB55516" "f64_exp2 a = - 51"
    by (simp_all add: a_def numeral_fields f64_sig_def f64_exp2_def)
  moreover have "f64_magnitude b = 0x3FE62E42FEFA39EF" "\<not> f64_sign b" "f64_sig b = 0x162E42FEFA39EF" "f64_exp2 b = - 53"
    by (simp_all add: b_def numeral_fields f64_sig_def f64_exp2_def)
  ultimately have "LOG_2_10 = f64_round_pack False (2 * (0x126BB1BBB55516 * 2 ^ 120 div 0x162E42FEFA39EF) + 1) (- 119)"
    unfolding LOG_2_10_def a_def [symmetric] b_def [symmetric] f64_div_def by (simp add: is_nan_def is_infinite_def)
  also have "\<dots> = 0x400a934f0979a372" by (simp add: f64_round_pack_def)
  finally have log: "LOG_2_10 = 0x400a934f0979a372" .
  show "f64_pos LOG_2_10" "f64_sig LOG_2_10 = 0x1a934f0979a372" "f64_exp2 LOG_2_10 = - 51"
    by (simp_all add: log f64_pos_def is_finite_def numeral_fields f64_sig_def f64_exp2_def)
qed

lemma fv_LOG_2_10: "415241 / 125000 \<le> fv LOG_2_10" "fv LOG_2_10 \<le> 4"
  by (simp_all add: fv_def LOG_2_10_value power_int_def power_divide)

lemma get_f_alpha_large:
  assumes "21 \<le> alpha" "alpha \<le> 400"
  shows "\<exists>f. get_f_alpha alpha = Some f \<and> 196 * alpha - 3 \<le> 59 * f"
proof -
  define a where "a = f64_of_int alpha"
  define n where "n = nat alpha"
  have n: "0 < n" "n < 2 ^ 53" "real n = of_int alpha" using assms by (simp_all add: n_def)
  have an: "a = f64_round_pack False n 0" using assms by (simp add: a_def f64_of_int_def n_def)
  then have a: "fv a = of_int alpha" "f64_pos a" using fv_of_nat [OF n(1,2)] n by (auto intro: f64_posI)
  define m e where "m = f64_sig a * f64_sig LOG_2_10" and "e = f64_exp2 a + f64_exp2 LOG_2_10"
  have prod: "real m * 2 powi e = of_int alpha * fv LOG_2_10"
    using f64_mul_pos(2) [OF a(2) LOG_2_10_value(1)] by (simp add: m_def e_def a(1))
  have m: "0 < m" using f64_pos_facts(4) [OF a(2)] f64_pos_facts(4) [OF LOG_2_10_value(1)] by (simp add: m_def)
  have lo: "of_int alpha * fv LOG_2_10 \<ge> 21 * 3" and hi: "of_int alpha * fv LOG_2_10 \<le> 400 * 4"
    using assms fv_LOG_2_10 by (intro mult_mono; simp)+
  have "(2::real) powi 5 \<le> real m * 2 powi e" "real m * 2 powi e < 2 powi 11" using lo hi prod by simp_all
  then have "2 powi 5 < (2::real) powi (int (bit_length m) + e)" "2 powi (int (bit_length m) + e - 1) < (2::real) powi 11"
    using bit_length_value [OF m, of e] by linarith+
  then have bl: "5 < int (bit_length m) + e" "int (bit_length m) + e \<le> 11" by (simp_all only: powi_less_iff)
  have "round_bits m e \<le> nat (11 + 1023) * 2 ^ 52" using bl by (intro round_bits_less m) simp_all
  then have fin: "round_bits m e < 0x7FF0000000000000" by simp
  define x where "x = f64_mul a LOG_2_10"
  have x: "x = f64_round_pack False m e" using f64_mul_pos(1) [OF a(2) LOG_2_10_value(1)] by (simp add: x_def m_def e_def)
  note r = round_pack_finite [OF m fin, folded x]
  have err: "\<bar>fv x - of_int alpha * fv LOG_2_10\<bar> \<le> of_int alpha * fv LOG_2_10 / 2 ^ 53"
    using round_relative [OF m, of e] bl(1) unfolding r(5) [symmetric] prod by simp
  moreover have "y / 2 ^ 53 \<le> 1 / 1000" if "y \<le> 400 * 4" for y :: real using that by simp
  from this [OF hi] have "of_int alpha * fv LOG_2_10 / 2 ^ 53 \<le> 1 / 1000" .
  ultimately have "\<bar>fv x - of_int alpha * fv LOG_2_10\<bar> \<le> 1 / 1000" by linarith
  then have v: "of_int alpha * fv LOG_2_10 - 1 / 1000 \<le> fv x" "fv x \<le> 1073741824" using hi by linarith+
  have "f64_pos x" using r v(1) lo by (intro f64_posI) auto
  then have "fv x \<le> of_int (f64_as_i32 (f64_ceil x))" using v(2) by (intro as_i32_ceil) simp_all
  moreover have "of_int alpha * (415241 / 125000) \<le> of_int alpha * fv LOG_2_10" using fv_LOG_2_10(1) assms by (intro mult_left_mono) simp_all
  moreover have "real_of_int alpha \<le> 400" using assms by simp
  ultimately have "196 * real_of_int alpha - 3 \<le> 59 * of_int (f64_as_i32 (f64_ceil x))" using v(1) by linarith
  then have "196 * alpha - 3 \<le> 59 * f64_as_i32 (f64_ceil x)" by linarith
  moreover have "get_f_alpha alpha = Some (f64_as_i32 (f64_ceil x))"
    using assms by (simp add: get_f_alpha_def ELF_F_def x_def a_def)
  ultimately show ?thesis by blast
qed

lemma get_f_alpha_bound:
  assumes "0 \<le> alpha" "alpha \<le> 400"
  shows "\<exists>f. get_f_alpha alpha = Some f \<and> 0 \<le> f \<and> (10::real) ^ nat alpha \<le> 26 / 25 * 2 ^ nat f"
proof -
  have "\<exists>f. get_f_alpha alpha = Some f \<and> 196 * alpha - 3 \<le> 59 * f \<and> 0 \<le> f"
  proof (cases "alpha \<le> 20")
    case True
    have "\<forall>k\<in>set [0..<21]. 196 * int k - 3 \<le> 59 * ELF_F ! k \<and> 0 \<le> ELF_F ! k"
      by (simp add: ELF_F_def upt_rec)
    moreover have "nat alpha \<in> set [0..<21]" using True assms by auto
    ultimately have "196 * int (nat alpha) - 3 \<le> 59 * ELF_F ! nat alpha \<and> 0 \<le> ELF_F ! nat alpha" by blast
    then show ?thesis using True assms(1) by (simp add: get_f_alpha_def ELF_F_def)
  next
    case False
    then show ?thesis using get_f_alpha_large [of alpha] assms by force
  qed
  then obtain f where f: "get_f_alpha alpha = Some f" "196 * alpha - 3 \<le> 59 * f" "0 \<le> f" by blast
  define a b where "a = nat alpha" and "b = nat f"
  have ab: "196 * a \<le> 59 * b + 3" using f(2,3) assms(1) by (simp add: a_def b_def)
  have "((10::real) ^ a) ^ 59 = (10 ^ 59) ^ a" by (simp only: power_mult [symmetric] mult.commute)
  also have "\<dots> \<le> (2 ^ 196) ^ a" by (rule power_mono) simp_all
  also have "\<dots> = 2 ^ (196 * a)" by (simp only: power_mult)
  also have "\<dots> \<le> 2 ^ (59 * b + 3)" using ab by (intro power_increasing) simp_all
  also have "\<dots> = 8 * (2 ^ b) ^ 59" by (simp add: power_add power_mult mult.commute flip: power_mult)
  also have "\<dots> \<le> (26 / 25) ^ 59 * (2 ^ b) ^ 59"
  proof (rule mult_right_mono)
    show "(8::real) \<le> (26 / 25) ^ 59" by (simp add: power_divide)
  qed simp
  also have "\<dots> = (26 / 25 * 2 ^ b) ^ 59" by (simp only: power_mult_distrib)
  finally have "(10::real) ^ a \<le> 26 / 25 * 2 ^ b" by (rule power_le_imp_le_base [where n = 58, simplified]) simp
  then show ?thesis using f by (auto simp: a_def b_def)
qed

section \<open>The decimal scale\<close>

text \<open>\<open>sp\<close> is the decimal exponent of \<open>v\<close>, with a tolerance at the powers of ten.\<close>

definition sp_ok :: "f64 \<Rightarrow> int \<Rightarrow> bool" where
  "sp_ok v sp \<longleftrightarrow> 4 * 10 powi sp \<le> 5 * fv v \<and> 4 * fv v \<le> 5 * 10 powi (sp + 1)"

text \<open>What the code relies on from \<open>f64::log10\<close>: the floor of its result is that exponent.\<close>

definition log10_ok :: "(f64 \<Rightarrow> f64) \<Rightarrow> bool" where
  "log10_ok lg \<longleftrightarrow> (\<forall>v. f64_pos v \<longrightarrow> sp_ok v (f64_as_i32 (f64_floor (lg v))))"

lemma f64_one_value: "f64_pos f64_one" "fv f64_one = 1"
  by (simp_all add: f64_one_def f64_pos_def is_finite_def numeral_fields fv_def f64_sig_def f64_exp2_def power_int_def power_divide)

lemma sp_greater_value: "i < 10 \<Longrightarrow> f64_pos (MAP_SP_GREATER_1 ! i) \<and> fv (MAP_SP_GREATER_1 ! i) = 10 ^ i"
proof -
  assume i: "i < 10"
  then have "(10::nat) ^ i \<le> 10 ^ 9" by (intro power_increasing) simp_all
  then have b: "(0::nat) < 10 ^ i" "(10::nat) ^ i < 2 ^ 53" by simp_all
  have "MAP_SP_GREATER_1 ! i = f64_round_pack False (10 ^ i) 0" using i by (simp add: MAP_SP_GREATER_1_def)
  then show ?thesis using fv_of_nat [OF b] by (auto intro!: f64_posI)
qed

lemma ratio_value:
  assumes d: "0 < d" "d < 2 ^ 60"
  shows "f64_pos (f64_ratio 1 d)" "\<bar>fv (f64_ratio 1 d) - 1 / real d\<bar> \<le> 1 / real d / 2 ^ 40"
proof -
  define N where "N = (2::nat) ^ 1300"
  define m where "m = 2 * (N div d) + (if N mod d = 0 then 0 else 1)"
  have r: "f64_ratio 1 d = f64_round_pack False m (- 1301)" by (simp add: f64_ratio_def Let_def m_def N_def)
  define P where "P = (2::real) powi (- 1300)"
  have "(2::real) powi (- 1300) \<le> 2 powi (- 60 - 100)" by (simp only: powi_le_iff)
  then have P: "0 < P" "real N * P = 1" "P = 2 * 2 powi (- 1301)" "P \<le> 2 powi (- 60 - 100)"
    using power_int_add [of "2::real" 1 "- 1301"] by (simp_all add: P_def N_def power_int_minus)
  define X where "X = real m * 2 powi (- 1301)"
  have N: "real N = real (N div d) * real d + real (N mod d)" by (metis div_mult_mod_eq of_nat_add of_nat_mult)
  have "real N / real d - 1 \<le> real m / 2" "real m / 2 \<le> real N / real d + 1"
    unfolding m_def N using d mod_less_divisor [OF d(1), of N] by (auto simp: field_simps)
  then have "\<bar>real m / 2 - real N / real d\<bar> \<le> 1" by linarith
  then have m2: "\<bar>real m / 2 - real N / real d\<bar> * P \<le> 1 * P" using P(1) by (intro mult_right_mono) simp_all
  have "(real m / 2 - n / k) * p = real m * h - 1 / k" if "n * p = 1" "p = 2 * h" "k \<noteq> 0" for n p h k :: real
    using that by (simp add: field_simps)
  from this [OF P(2,3)] have "(real m / 2 - real N / real d) * P = X - 1 / real d" using d(1) by (simp add: X_def)
  then have X: "\<bar>X - 1 / real d\<bar> \<le> P" using m2 P(1) abs_mult_pos [of P "real m / 2 - real N / real d"] by simp
  define t where "t = 1 / real d"
  have t60: "(2::real) powi (- 60) \<le> t"
  proof -
    have "real d < 2 ^ 60" using d(2) by simp
    then have "1 / 2 ^ 60 \<le> t" using d(1) unfolding t_def by (intro frac_le) simp_all
    then show ?thesis by (simp add: power_int_minus field_simps)
  qed
  have "(2::real) powi (- 60 - 100) = 2 powi (- 60) / 2 ^ 100" using power_int_diff [of "2::real" "- 60" 100] by simp
  also have "\<dots> \<le> t / 2 ^ 100" using t60 by (intro divide_right_mono) simp_all
  finally have Pt: "P \<le> t / 2 ^ 100" using P(4) by linarith
  have t: "0 < t" "t \<le> 1" using d(1) by (simp_all add: t_def)
  have Xt: "t / 2 \<le> X" "X \<le> 2 * t" using X Pt t unfolding t_def [symmetric] by simp_all
  have m0: "0 < m" using Xt(1) t(1) unfolding X_def by (cases m) (auto simp: power_int_0_left)
  have "(2::real) powi (- 61) \<le> t / 2" using t60 power_int_diff [of "2::real" "- 60" 1] by simp
  then have "(2::real) powi (- 61) \<le> X" "X < 2 powi 2" using Xt t(2) by simp_all
  then have "2 powi (- 61) < (2::real) powi (int (bit_length m) + - 1301)"
    "2 powi (int (bit_length m) + - 1301 - 1) < (2::real) powi 2"
    using bit_length_value [OF m0, of "- 1301"] unfolding X_def by linarith+
  then have bl: "- 61 < int (bit_length m) + - 1301" "int (bit_length m) + - 1301 \<le> 2" by (simp_all only: powi_less_iff)
  have "round_bits m (- 1301) \<le> nat (2 + 1023) * 2 ^ 52" using bl by (intro round_bits_less m0) simp_all
  then have fin: "round_bits m (- 1301) < 0x7FF0000000000000" by simp
  note rp = round_pack_finite [OF m0 fin, folded r]
  have fX: "\<bar>fv (f64_ratio 1 d) - X\<bar> \<le> X / 2 ^ 53"
    using round_relative [OF m0, of "- 1301"] bl unfolding rp(5) [symmetric] X_def by simp
  have "X / 2 ^ 53 \<le> t / 2 ^ 41" "P \<le> t / 2 ^ 41" "t / 2 ^ 40 = 2 * (t / 2 ^ 41)" using Xt Pt t(1) by simp_all
  then have err: "\<bar>fv (f64_ratio 1 d) - t\<bar> \<le> t / 2 ^ 40" using X fX unfolding t_def [symmetric] by linarith
  then show "\<bar>fv (f64_ratio 1 d) - 1 / real d\<bar> \<le> 1 / real d / 2 ^ 40" by (simp add: t_def)
  have "t / 2 ^ 40 < t" using t(1) by simp
  then have "0 < fv (f64_ratio 1 d)" using err by linarith
  then show "f64_pos (f64_ratio 1 d)" using rp by (intro f64_posI) simp_all
qed

lemma sp_less_value:
  assumes "i < 11"
  shows "f64_pos (MAP_SP_LESS_1 ! i)" "9 / 10 * 10 powi (- int i) \<le> fv (MAP_SP_LESS_1 ! i)"
    "fv (MAP_SP_LESS_1 ! i) \<le> 11 / 10 * 10 powi (- int i)"
proof -
  have "(10::nat) ^ i \<le> 10 ^ 10" using assms by (intro power_increasing) simp_all
  then have d: "(0::nat) < 10 ^ i" "(10::nat) ^ i < 2 ^ 60" by simp_all
  have e: "MAP_SP_LESS_1 ! i = f64_ratio 1 (10 ^ i)" using assms by (simp add: MAP_SP_LESS_1_def)
  define t where "t = (10::real) powi (- int i)"
  have t: "1 / real (10 ^ i) = t" "0 < t" by (simp_all add: t_def power_int_minus field_simps)
  show "f64_pos (MAP_SP_LESS_1 ! i)" unfolding e using ratio_value(1) [OF d] .
  have "\<bar>fv (MAP_SP_LESS_1 ! i) - t\<bar> \<le> t / 2 ^ 40" unfolding e using ratio_value(2) [OF d] t(1) by simp
  moreover have "t / 2 ^ 40 \<le> t / 10" using t(2) by simp
  ultimately show "9 / 10 * 10 powi (- int i) \<le> fv (MAP_SP_LESS_1 ! i)"
    "fv (MAP_SP_LESS_1 ! i) \<le> 11 / 10 * 10 powi (- int i)" unfolding t_def [symmetric] by linarith+
qed

lemma find_upt_Some:
  assumes "find P [a..<b] = Some i"
  shows "P i" "a \<le> i" "i < b" "\<And>j. a \<le> j \<Longrightarrow> j < i \<Longrightarrow> \<not> P j"
proof -
  obtain k where k: "k < length [a..<b]" "P ([a..<b] ! k)" "i = [a..<b] ! k" "\<forall>j<k. \<not> P ([a..<b] ! j)"
    using assms unfolding find_Some_iff by blast
  then show "P i" "a \<le> i" "i < b" by auto
  show "\<not> P j" if "a \<le> j" "j < i" for j using k that by (auto dest!: spec [of _ "j - a"])
qed

lemma scale_greater_ok:
  assumes v: "f64_pos v" "f64_le f64_one v"
    and i: "find (\<lambda>i. f64_lt v (MAP_SP_GREATER_1 ! (i + 1))) [0..<9] = Some i"
  shows "sp_ok v (int i)"
proof -
  note f = find_upt_Some [OF i]
  have up: "fv v \<le> 10 ^ (i + 1)"
    using f64_pos_compare(1) [OF v(1), of "MAP_SP_GREATER_1 ! (i + 1)"] sp_greater_value [of "i + 1"] f by simp
  have lo: "10 ^ i \<le> fv v"
  proof (cases i)
    case 0
    then show ?thesis using f64_pos_compare(3) [OF f64_one_value(1) v(1) v(2)] f64_one_value by simp
  next
    case (Suc j)
    then show ?thesis
      using f64_pos_compare(2) [OF v(1), of "MAP_SP_GREATER_1 ! (j + 1)"] sp_greater_value [of "j + 1"] f(4) [of j] f(3)
      by simp
  qed
  have e: "(10::real) powi int i = 10 ^ i" "(10::real) powi (int i + 1) = 10 ^ (i + 1)" by (simp_all add: power_int_add)
  show ?thesis unfolding sp_ok_def e using up lo fv_nonneg [of v] by linarith
qed

lemma scale_less_ok:
  assumes v: "f64_pos v" "\<not> f64_le f64_one v"
    and i: "find (\<lambda>i. f64_le (MAP_SP_LESS_1 ! i) v) [1..<11] = Some i"
  shows "sp_ok v (- int i)"
proof -
  note f = find_upt_Some [OF i]
  have lo: "9 / 10 * 10 powi (- int i) \<le> fv v"
    using f64_pos_compare(3) [OF sp_less_value(1) v(1) f(1)] sp_less_value(2) [of i] f(3) by simp
  have up: "fv v \<le> 11 / 10 * 10 powi (- int i + 1)"
  proof (cases "i = 1")
    case True
    then show ?thesis using f64_pos_compare(4) [OF f64_one_value(1) v(1) v(2)] f64_one_value by simp
  next
    case False
    then have j: "1 \<le> i - 1" "i - 1 < i" "i - 1 < 11" "- int (i - 1) = - int i + 1" using f(2,3) by simp_all
    then show ?thesis
      using f64_pos_compare(4) [OF sp_less_value(1) [OF j(3)] v(1) f(4) [OF j(1,2)]] sp_less_value(3) [OF j(3)]
      unfolding j(4) by linarith
  qed
  have "0 < (10::real) powi (- int i)" "0 < (10::real) powi (- int i + 1)" by simp_all
  then show ?thesis unfolding sp_ok_def using lo up by linarith
qed

lemma scale_ok:
  assumes "log10_ok lg" "f64_pos v" shows "sp_ok v (fst (get_sp_and_10in_flag lg v))"
  using scale_greater_ok [OF assms(2)] scale_less_ok [OF assms(2)] assms
  by (auto simp: get_sp_and_10in_flag_def log10_ok_def Let_def split: option.splits)

section \<open>The digit count\<close>

lemma f64_infinity_facts: "f64_magnitude f64_infinity = 0x7FF0000000000000" "\<not> f64_sign f64_infinity"
  by (simp_all add: f64_infinity_def numeral_fields)

lemma SATURATES_less_infinity: "f64_lt SATURATES f64_infinity"
  by (simp add: f64_lt_def is_nan_def f64_key_def f64_infinity_facts SATURATES_def numeral_fields)

lemma round_pack_cases:
  assumes "0 < m"
  obtains "f64_round_pack False m e = f64_infinity"
  | "round_bits m e < 0x7FF0000000000000"
  using assms by (cases "round_bits m e < 0x7FF0000000000000") (simp_all add: f64_round_pack_eq)

lemma mul_infinity: "f64_pos v \<Longrightarrow> f64_mul v f64_infinity = f64_infinity"
  using f64_pos_facts [of v]
  by (simp add: f64_mul_def f64_pos_def f64_infinity_facts is_nan_def is_infinite_def)

text \<open>A scale that does not saturate multiplies by a finite power of ten, and roughly preserves the value.\<close>

lemma scaled_value:
  assumes v: "f64_pos v" and s: "scaled v i = Inr temp"
  shows "0 \<le> i" "i \<le> 308" "is_finite temp" "\<not> f64_sign temp" "1 \<le> fv temp \<Longrightarrow> fv temp \<le> 4 * fv v * 10 ^ nat i"
    "get_10ip i = Inr p \<Longrightarrow> f64_pos p"
proof -
  obtain p' where p': "get_10ip i = Inr p'" "temp = f64_mul v p'" "\<not> f64_lt SATURATES temp"
    using s by (auto simp: scaled_def bindR_eq_Inr_iff Let_def split: if_splits)
  have fin: "p' \<noteq> f64_infinity" using p'(2,3) mul_infinity [OF v] SATURATES_less_infinity by auto
  then show i: "0 \<le> i" "i \<le> 308" using p'(1) by (auto simp: get_10ip_def MAP_10IP_def split: if_splits)
  define n where "n = (10::nat) ^ nat i"
  have n: "0 < n" by (simp add: n_def)
  have pn: "p' = f64_round_pack False n 0" using p'(1) i by (auto simp: get_10ip_def MAP_10IP_def n_def)
  then have nb: "round_bits n 0 < 0x7FF0000000000000" using round_pack_cases [OF n] fin by metis
  note rp = round_pack_finite [OF n nb, folded pn]
  have "\<bar>fv p' - real n\<bar> \<le> real n / 2 ^ 53" using round_relative [OF n, of 0] by (simp add: rp(5))
  moreover have "real n / 2 ^ 53 \<le> real n / 2" by simp
  ultimately have pv: "real n / 2 \<le> fv p'" "fv p' \<le> 2 * real n" by linarith+
  then have pp: "f64_pos p'" using rp n by (intro f64_posI) simp_all
  then show "f64_pos p" if "get_10ip i = Inr p" using that p'(1) by simp
  define m e where "m = f64_sig v * f64_sig p'" and "e = f64_exp2 v + f64_exp2 p'"
  have m: "0 < m" using f64_pos_facts(4) [OF v] f64_pos_facts(4) [OF pp] by (simp add: m_def)
  have t: "temp = f64_round_pack False m e" "real m * 2 powi e = fv v * fv p'"
    using f64_mul_pos [OF v pp] p'(2) by (simp_all add: m_def e_def)
  then have mb: "round_bits m e < 0x7FF0000000000000"
    using round_pack_cases [OF m, of e] p'(3) SATURATES_less_infinity by metis
  note rt = round_pack_finite [OF m mb, folded t(1)]
  show "is_finite temp" "\<not> f64_sign temp" using rt by simp_all
  show "fv temp \<le> 4 * fv v * 10 ^ nat i" if one: "1 \<le> fv temp"
  proof -
    have "- 1021 \<le> int (bit_length m) + e"
    proof (rule ccontr)
      assume "\<not> - 1021 \<le> int (bit_length m) + e"
      then have "round_bits m e \<le> nat (- 1021 + 1023) * 2 ^ 52" by (intro round_bits_less m) simp_all
      then have "fv temp \<le> mag_value (nat (- 1021 + 1023) * 2 ^ 52)"
        unfolding fv_mag_value rt(1) by (rule mag_value_mono)
      also have "\<dots> = 2 ^ 52 * 2 powi (- 1073)" by (simp add: mag_value_def)
      also have "\<dots> < 2 ^ 52 * 2 powi (- 52)" by (simp only: powi_less_iff mult_less_cancel_left) simp
      also have "\<dots> = 1" by (simp add: power_int_minus)
      finally show False using one by simp
    qed
    then have "\<bar>fv temp - fv v * fv p'\<bar> \<le> fv v * fv p' / 2 ^ 53"
      using round_relative [OF m, of e] unfolding rt(5) [symmetric] t(2) by simp
    moreover have "fv v * fv p' / 2 ^ 53 \<le> fv v * fv p'" by simp
    ultimately have "fv temp \<le> 2 * (fv v * fv p')" by linarith
    also have "fv v * fv p' \<le> fv v * (2 * real n)" using pv(2) by (intro mult_left_mono) simp_all
    finally show ?thesis by (simp add: n_def)
  qed
qed

lemma digit_search_result:
  "digit_search g v i temp = Inr (i', temp') \<Longrightarrow> scaled v i = Inr temp \<Longrightarrow>
   scaled v i' = Inr temp' \<and> f64_eq (f64_of_int (f64_as_i64 temp')) temp'"
proof (induction g v i temp rule: digit_search.induct)
  case (1 g v i temp)
  show ?case
    using 1 by (subst (asm) (2) digit_search.simps) (auto simp: bindR_eq_Inr_iff split: if_splits)
qed

lemma strip_zeros_bounds:
  "0 \<le> i \<Longrightarrow> 0 < n \<Longrightarrow> 0 \<le> strip_zeros i n \<and> strip_zeros i n \<le> i \<and> 10 ^ nat (i - strip_zeros i n) \<le> n"
proof (induction i n rule: strip_zeros.induct)
  case (1 i n)
  show ?case
  proof (cases "0 < i \<and> n mod 10 = 0")
    case True
    let ?j = "strip_zeros (i - 1) (n div 10)"
    have n: "n = 10 * (n div 10)" using True by presburger
    then have "0 < n div 10" using 1 by presburger
    then have IH: "0 \<le> ?j" "?j \<le> i - 1" "10 ^ nat (i - 1 - ?j) \<le> n div 10" using 1 True by auto
    have "nat (i - ?j) = Suc (nat (i - 1 - ?j))" using IH(2) by simp
    then have "10 ^ nat (i - ?j) \<le> n" using IH(3) n by simp
    then show ?thesis using True IH by (simp add: strip_zeros.simps [of i n])
  next
    case False
    then have "strip_zeros i n = i" by (simp only: strip_zeros.simps [of i n] if_False)
    then show ?thesis using 1 by simp
  qed
qed

lemma f64_div_zero: "f64_magnitude a = 0 \<Longrightarrow> \<not> f64_sign a \<Longrightarrow> f64_pos p \<Longrightarrow> f64_div a p = 0"
  using f64_pos_facts [of p]
  by (simp add: f64_div_def f64_pos_def is_nan_def is_infinite_def f64_round_pack_def f64_sig_def magnitude_fields Let_def)

text \<open>The integer the search found is at least one and at most the scaled value.\<close>

lemma search_integer:
  assumes "f64_pos v" "is_finite temp" "\<not> f64_sign temp" "f64_pos p"
    and eq: "f64_eq (f64_of_int (f64_as_i64 temp)) temp" "f64_eq (f64_div temp p) v"
  shows "1 \<le> f64_as_i64 temp" "real_of_int (f64_as_i64 temp) \<le> fv temp"
proof -
  have "f64_magnitude temp \<noteq> 0"
  proof
    assume "f64_magnitude temp = 0"
    then have "f64_div temp p = 0" using assms by (intro f64_div_zero)
    then show False using eq(2) f64_pos_facts [OF assms(1)] assms(1)
      by (simp add: f64_eq_def f64_pos_def f64_key_def)
  qed
  then have key: "f64_key temp \<noteq> 0" by (simp add: f64_key_def)
  have "f64_as_i64 temp \<noteq> 0" using eq(1) key by (auto simp: f64_eq_def f64_of_int_def f64_round_pack_def f64_key_def)
  moreover have "0 \<le> f64_as_i64 temp" "f64_as_i64 temp \<le> int (f64_int_part temp)"
    using assms(2,3) by (auto simp: f64_as_i64_def f64_trunc_clamp_def is_finite_def is_nan_def is_infinite_def
        i64_min_def i64_max_def)
  ultimately show "1 \<le> f64_as_i64 temp" "real_of_int (f64_as_i64 temp) \<le> fv temp"
    by (simp_all add: int_part_floor le_floor_iff)
qed

lemma significant_count_bounds:
  assumes v: "f64_pos v" and sp: "sp_ok v sp" and r: "get_significant_count v sp lb = Inr beta"
  shows "0 \<le> beta" "beta = 17 \<or> (\<exists>i. beta = sp + i + 1 \<and> 0 \<le> i \<and> i \<le> 308)"
proof -
  define i0 where "i0 = (if lb \<noteq> i32_max \<and> lb \<noteq> 0 then max (lb - sp - 1) 1
                else if lb = i32_max then 17 - sp - 1 else if 0 \<le> sp then 1 else - sp)"
  obtain t0 i temp p where t0: "scaled v i0 = Inr t0" and ds: "digit_search 0 v i0 t0 = Inr (i, temp)"
    and p: "get_10ip i = Inr p"
    and b: "beta = (if \<not> f64_eq (f64_div temp p) v then 17 else sp + strip_zeros i (f64_as_i64 temp) + 1)"
    using r unfolding get_significant_count_def Let_def i0_def [symmetric]
    by (auto simp: bindR_eq_Inr_iff split: if_splits)
  note s = digit_search_result [OF ds t0]
  note sv = scaled_value [OF v s [THEN conjunct1]]
  let ?n = "f64_as_i64 temp"
  let ?j = "strip_zeros i ?n"
  have key: "0 \<le> ?j \<and> ?j \<le> 308 \<and> 0 \<le> sp + ?j + 1" if q: "f64_eq (f64_div temp p) v"
  proof -
    note n = search_integer [OF v sv(3,4) sv(6) [OF p] s [THEN conjunct2] q]
    have j: "0 \<le> ?j" "?j \<le> i" "10 ^ nat (i - ?j) \<le> ?n" using strip_zeros_bounds sv(1) n(1) by simp_all
    have "(10::real) ^ nat (i - ?j) \<le> real_of_int ?n" using j(3) by (metis of_int_le_iff of_int_power of_int_numeral)
    also have "\<dots> \<le> 4 * fv v * 10 ^ nat i" using n sv(5) by linarith
    also have "nat i = nat (i - ?j) + nat ?j" using j by simp
    finally have "10 ^ nat (i - ?j) * 1 \<le> 10 ^ nat (i - ?j) * (4 * fv v * 10 ^ nat ?j)" by (simp add: power_add mult.commute)
    then have "1 \<le> 4 * fv v * 10 ^ nat ?j" by (simp only: mult_le_cancel_left_pos zero_less_power zero_less_numeral)
    also have "\<dots> \<le> 5 * 10 powi (sp + 1) * 10 ^ nat ?j" using sp by (intro mult_right_mono) (simp_all add: sp_ok_def)
    also have "\<dots> = 5 * 10 powi (sp + 1 + ?j)" using power_int_add [of "10::real" "sp + 1" ?j] j(1) by (simp add: power_int_def [of _ ?j])
    finally have one: "1 \<le> 5 * (10::real) powi (sp + 1 + ?j)" .
    have "0 \<le> sp + 1 + ?j"
    proof (rule ccontr)
      assume "\<not> ?thesis"
      then have "(10::real) powi (sp + 1 + ?j) \<le> 10 powi (- 1)" by (intro power_int_increasing) simp_all
      then show False using one by (simp add: power_int_minus)
    qed
    then show ?thesis using j sv(2) by simp
  qed
  then show "0 \<le> beta" "beta = 17 \<or> (\<exists>i. beta = sp + i + 1 \<and> 0 \<le> i \<and> i \<le> 308)" using b by (auto split: if_splits)
qed

lemma fv_ge_least: "0 < f64_sig v \<Longrightarrow> 2 powi (- 1074) \<le> fv v"
proof -
  assume s: "0 < f64_sig v"
  have "(2::real) powi (- 1074) \<le> 2 powi f64_exp2 v" by (simp only: powi_le_iff) (simp add: f64_exp2_def)
  also have "\<dots> \<le> real (f64_sig v) * 2 powi f64_exp2 v" using s by simp
  finally show ?thesis by (simp add: fv_def)
qed

lemma sp_ok_ge: "f64_pos v \<Longrightarrow> sp_ok v sp \<Longrightarrow> - 380 \<le> sp"
proof (rule ccontr)
  assume v: "f64_pos v" and sp: "sp_ok v sp" and "\<not> - 380 \<le> sp"
  then have le: "(10::real) powi (sp + 1) \<le> 10 powi (- 380)" by (intro power_int_increasing) simp_all
  define a b :: real where "a = 10 powi (- 380)" and "b = 2 powi (- 1074)"
  have "4 * b \<le> 5 * a"
    using le sp fv_ge_least [OF f64_pos_facts(4) [OF v]] unfolding sp_ok_def a_def b_def by linarith
  moreover have "a * 10 ^ 380 = 1" by (simp add: a_def power_int_minus)
  moreover have "b * 2 ^ 1074 = 1" by (simp add: b_def power_int_minus)
  ultimately show False by (simp add: power_int_minus field_simps)
qed


lemma alpha_beta_cases:
  assumes lg: "log10_ok lg" and v: "is_finite v0" "f64_magnitude v0 \<noteq> 0"
    and r: "get_alpha_and_beta_star lg v0 lb = Inr (alpha, beta_star)"
  obtains v sp beta flag where "f64_pos v" "f64_magnitude v = f64_magnitude v0" "sp_ok v sp"
    "get_significant_count v sp lb = Inr beta" "alpha = beta - sp - 1" "beta_star = (if flag = 1 then 0 else beta)"
    "get_sp_and_10in_flag lg v = (sp, flag)"
proof -
  define v where "v = (if f64_lt v0 0 then f64_neg v0 else v0)"
  have m: "f64_magnitude v = f64_magnitude v0" by (simp add: v_def)
  have "f64_lt v0 0 \<longleftrightarrow> f64_sign v0"
    using v by (auto simp: f64_lt_def f64_key_def is_finite_def is_nan_def)
  then have p: "f64_pos v" using v m by (auto simp: f64_pos_def is_finite_def v_def)
  obtain sp flag where sp: "get_sp_and_10in_flag lg v = (sp, flag)" by fastforce
  then have "sp_ok v sp" using scale_ok [OF lg p] by simp
  then show thesis using that p m sp r
    by (auto simp: get_alpha_and_beta_star_def v_def [symmetric] bindR_eq_Inr_iff)
qed

lemma alpha_le:
  assumes "f64_pos v" "sp_ok v sp" "get_significant_count v sp lb = Inr beta"
  shows "beta - sp - 1 \<le> 400"
  using significant_count_bounds(2) [OF assms] sp_ok_ge [OF assms(1,2)] by auto

text \<open>\<open>get_f_alpha\<close> is never asked for an index outside its range.\<close>

lemma get_f_alpha_defined:
  assumes "log10_ok lg" "is_finite v" "f64_magnitude v \<noteq> 0"
    "get_alpha_and_beta_star lg v lb = Inr (alpha, beta_star)" "0 \<le> alpha"
  obtains f where "get_f_alpha alpha = Some f"
  using assms(5) by (rule_tac alpha_beta_cases [OF assms(1-4)]) (metis get_f_alpha_bound alpha_le)

text \<open>A value with more than four bits to erase has a digit count of four bits.\<close>

lemma beta_star_fits:
  assumes lg: "log10_ok lg" and v: "is_finite v" "f64_magnitude v \<noteq> 0"
    and r: "get_alpha_and_beta_star lg v lb = Inr (alpha, beta_star)" "0 \<le> alpha"
    and f: "get_f_alpha alpha = Some f" "4 < 52 - (f + int (f64_exponent v) - 1023)"
  shows "0 \<le> beta_star" "beta_star \<le> 15"
proof -
  obtain w sp beta flag where w: "f64_pos w" "f64_magnitude w = f64_magnitude v" "sp_ok w sp"
    "get_significant_count w sp lb = Inr beta" "alpha = beta - sp - 1" "beta_star = (if flag = (1::int) then 0 else beta)"
    using alpha_beta_cases [OF lg v r(1)] by metis
  show "0 \<le> beta_star" using significant_count_bounds(1) [OF w(1,3,4)] w(6) by simp
  show "beta_star \<le> 15"
  proof (rule ccontr)
    assume "\<not> beta_star \<le> 15"
    then have b: "16 \<le> beta" using w(6) by (simp split: if_splits)
    have a: "alpha \<le> 400" using alpha_le [OF w(1,3,4)] w(5) by simp
    have fb: "0 \<le> f" "(10::real) ^ nat alpha \<le> 26 / 25 * 2 ^ nat f"
      using get_f_alpha_bound [OF r(2) a] f(1) by auto
    have e: "f64_exponent w = f64_exponent v" using w(2) by (simp add: magnitude_fields)
    define E where "E = int (f64_exponent v) - 1022"
    have "fv w < 2 powi f64_lead w" using fv_lead f64_pos_facts(4) [OF w(1)] by blast
    also have "\<dots> \<le> 2 powi E" using f64_lead_le [of w] e by (simp only: powi_le_iff E_def)
    finally have s: "4 * 10 powi sp \<le> 5 * (2::real) powi E" using w(3) by (simp add: sp_ok_def)
    have "(10::real) ^ 15 = 10 powi 15" by simp
    also have "\<dots> \<le> 10 powi (alpha + sp)" using b w(5) by (intro power_int_increasing) simp_all
    also have "\<dots> = 10 powi alpha * 10 powi sp" by (simp add: power_int_add)
    also have "10 powi alpha = (10::real) ^ nat alpha" using r(2) by (simp add: power_int_def)
    also have "10 ^ nat alpha * 10 powi sp \<le> (26 / 25 * 2 ^ nat f) * (5 / 4 * (2::real) powi E)"
      using fb(2) s by (intro mult_mono) simp_all
    also have "\<dots> = 13 / 10 * 2 powi (f + E)" using fb(1) by (simp add: power_int_add power_int_def [of _ f])
    also have "(2::real) powi (f + E) \<le> 2 powi 48" using f(2) by (simp only: powi_le_iff) (simp add: E_def)
    finally show False by simp
  qed
qed

end
