(* ===== verification/Chimp.thy ===== *)
theory Chimp
  imports Chimp_Codec Elf64_Bounds Codec_Chunk
begin

text \<open>
  \<open>src/series/chunks/chimp/compressor.rs\<close> and \<open>chimp_iterator.rs\<close>: the ELF layer over the XOR
  codec. Every sample is a delta-of-delta timestamp, a case marker and a value with its low bits
  erased where the decoder can recover them. The decimal logarithm of the platform is the argument
  \<open>lg\<close>; where erasure must be reversible its accuracy is the hypothesis \<open>log10_ok lg\<close>.
\<close>

section \<open>The compressor\<close>

definition TS_ESCAPE_PREFIX :: u64 where
  "TS_ESCAPE_PREFIX = 0x0F"

record chimp_compressor =
  cp_writer :: bitstream
  cp_chimp :: chimp_enc
  cp_last_beta_star :: int
  cp_count :: nat
  cp_first_timestamp :: timestamp
  cp_last_timestamp :: timestamp
  cp_last_delta :: int
  cp_last_value :: f64

definition cp_new :: chimp_compressor where
  "cp_new = \<lparr>cp_writer = bs_new, cp_chimp = ce_new, cp_last_beta_star = i32_max, cp_count = 0, cp_first_timestamp = 0,
     cp_last_timestamp = 0, cp_last_delta = 0, cp_last_value = 0\<rparr>"

definition cp_set_soft_cap :: "nat \<Rightarrow> chimp_compressor \<Rightarrow> chimp_compressor" where
  "cp_set_soft_cap sz c = c\<lparr>cp_writer := bs_set_soft_cap sz (cp_writer c)\<rparr>"

definition cp_with_soft_cap :: "nat \<Rightarrow> chimp_compressor" where
  "cp_with_soft_cap sz = cp_set_soft_cap sz cp_new"

definition cp_clear :: "chimp_compressor \<Rightarrow> chimp_compressor" where
  "cp_clear c = c\<lparr>cp_writer := bs_clear (cp_writer c), cp_chimp := ce_new, cp_last_beta_star := i32_max, cp_count := 0,
     cp_first_timestamp := 0, cp_last_timestamp := 0, cp_last_delta := 0, cp_last_value := 0\<rparr>"

definition cp_bytes :: "chimp_compressor \<Rightarrow> u8 list" where
  "cp_bytes c = stream (cp_writer c)"

definition cp_len_bits :: "chimp_compressor \<Rightarrow> u64" where
  "cp_len_bits c = word_of_nat (length (stream (cp_writer c))) * 8 - word_of_nat (count (cp_writer c))"

definition cp_eq :: "chimp_compressor \<Rightarrow> chimp_compressor \<Rightarrow> bool" where
  "cp_eq a b \<longleftrightarrow> cp_count a = cp_count b \<and> cp_first_timestamp a = cp_first_timestamp b \<and>
     cp_last_timestamp a = cp_last_timestamp b \<and> cp_last_delta a = cp_last_delta b \<and>
     cp_last_beta_star a = cp_last_beta_star b \<and> cp_last_value a = cp_last_value b \<and>
     cp_chimp a = cp_chimp b \<and> bs_eq (cp_writer a) (cp_writer b)"

text \<open>The cast \<open>as i32\<close>.\<close>

definition i32 :: "int \<Rightarrow> int" where
  "i32 x = signed_take_bit 31 x"

definition recover :: "(f64 \<Rightarrow> f64) \<Rightarrow> u64 \<Rightarrow> int \<Rightarrow> io_error + f64" where
  "recover lg v_prime beta_star =
     (let sp = get_sp lg (f64_abs v_prime) in
      if beta_star = 0 then
        let idx = - sp - 1 in
        if idx < 0 then Inl (InvalidData ''Invalid recovery index'')
        else bindR (map_err (\<lambda>_. InvalidData ''Invalid recovery value'') (get_10in (i32 idx))) (\<lambda>r.
          Inr (if f64_lt v_prime 0 then f64_neg r else r))
      else
        let alpha = beta_star - sp - 1 in
        if alpha < 0 then Inl (InvalidData ''Invalid recovery alpha'')
        else map_err (\<lambda>_. InvalidData ''Invalid recovery value'') (round_up v_prime (i32 alpha)))"

definition try_recover :: "(f64 \<Rightarrow> f64) \<Rightarrow> u64 \<Rightarrow> int \<Rightarrow> f64 option" where
  "try_recover lg v_prime beta_star = (case recover lg v_prime beta_star of Inr v \<Rightarrow> Some v | Inl _ \<Rightarrow> None)"

definition cp_write_repeat :: "chimp_compressor \<Rightarrow> io_error + chimp_compressor" where
  "cp_write_repeat c =
     map_ok (\<lambda>(e, w). c\<lparr>cp_chimp := e, cp_writer := w\<rparr>) (ce_add_repeat_prefixed (cp_chimp c) (cp_writer c) 0 1)"

text \<open>\<open>self.chimp.add_value_prefixed(&mut self.writer, ..)\<close>.\<close>

definition cp_add_value :: "u64 \<Rightarrow> nat \<Rightarrow> u64 \<Rightarrow> chimp_compressor \<Rightarrow> io_error + chimp_compressor" where
  "cp_add_value prefix prefix_len v c =
     map_ok (\<lambda>(e, w). c\<lparr>cp_chimp := e, cp_writer := w\<rparr>) (ce_add_value_prefixed (cp_chimp c) (cp_writer c) prefix prefix_len v)"

text \<open>A negative \<open>alpha\<close>, on which \<open>get_f_alpha\<close> panics, has been sent to the raw path.\<close>

definition cp_write_value :: "(f64 \<Rightarrow> f64) \<Rightarrow> f64 \<Rightarrow> chimp_compressor \<Rightarrow> io_error + chimp_compressor" where
  "cp_write_value lg v c =
     (if 0 < cp_count c \<and> v = cp_last_value c then cp_write_repeat c
      else if f64_eq v 0 \<or> \<not> is_finite v then cp_add_value 2 2 v c
      else
        case get_alpha_and_beta_star lg v (cp_last_beta_star c) of
          Inl _ \<Rightarrow> cp_add_value 2 2 v c
        | Inr (alpha, beta_star) \<Rightarrow>
            if alpha < 0 then cp_add_value 2 2 v c
            else
              let e = int (unat (drop_bit 52 v AND 0x7FF));
                  g_alpha = the (get_f_alpha alpha) + e - 1023;
                  erase_bits = 52 - g_alpha;
                  mask = push_bit (nat (erase_bits mod 64)) (- 1);
                  delta = NOT mask AND v;
                  v_prime = mask AND v
              in if delta \<noteq> 0 \<and> 4 < erase_bits \<and> (case try_recover lg v_prime beta_star of Some w \<Rightarrow> f64_eq w v | None \<Rightarrow> False) then
                   if beta_star = cp_last_beta_star c then
                     if v_prime = ce_stored_val (cp_chimp c) then cp_add_value 2 2 v c
                     else cp_add_value 0 1 v_prime c
                   else cp_add_value (as_u64 beta_star OR 0x30) 6 v_prime (c\<lparr>cp_last_beta_star := beta_star\<rparr>)
                 else cp_add_value 2 2 v c)"

definition cp_write_timestamp :: "timestamp \<Rightarrow> chimp_compressor \<Rightarrow> io_error + chimp_compressor" where
  "cp_write_timestamp t c =
     (if cp_count c = 0 then
        map_ok (\<lambda>w. c\<lparr>cp_writer := w, cp_first_timestamp := t, cp_last_timestamp := t, cp_last_delta := 0\<rparr>)
          (bs_write_varint t (cp_writer c))
      else
        let new_delta = i64 (t - cp_last_timestamp c); delta_d = i64 (new_delta - cp_last_delta c) in
        map_ok (\<lambda>w. c\<lparr>cp_writer := w, cp_last_delta := new_delta, cp_last_timestamp := t\<rparr>)
         (if delta_d = 0 then bs_write_bit False (cp_writer c)
          else
            let enc = zigzag_encode delta_d; len0 = 64 - leading_zeros enc; len = (if len0 = 0 then 1 else len0) in
            if len \<le> 7 then bs_write_bits 9 (enc OR push_bit 7 0x02) (cp_writer c)
            else if len \<le> 9 then bs_write_bits 12 (enc OR push_bit 9 0x06) (cp_writer c)
            else if len \<le> 12 then bs_write_bits 16 (enc OR push_bit 12 0x0E) (cp_writer c)
            else bindR (bs_write_bits 4 TS_ESCAPE_PREFIX (cp_writer c)) (\<lambda>w.
              if len \<le> 32 then bindR (bs_write_bit False w) (bs_write_bits 32 enc)
              else bindR (bs_write_bit True w) (bs_write_bits 64 enc))))"

definition cp_add_sample :: "(f64 \<Rightarrow> f64) \<Rightarrow> timestamp \<Rightarrow> f64 \<Rightarrow> chimp_compressor \<Rightarrow> io_error + chimp_compressor" where
  "cp_add_sample lg t v c =
     bindR (cp_write_timestamp t c) (\<lambda>c1.
     bindR (cp_write_value lg v c1) (\<lambda>c2.
       Inr (c2\<lparr>cp_last_value := v, cp_count := cp_count c2 + 1\<rparr>)))"

definition cp_add :: "(f64 \<Rightarrow> f64) \<Rightarrow> sample \<Rightarrow> chimp_compressor \<Rightarrow> io_error + chimp_compressor" where
  "cp_add lg s c = cp_add_sample lg (timestamp s) (val s) c"

section \<open>The decompressor\<close>

record chimp_decompressor =
  dp_reader :: bitreader
  dp_chimp :: chimp_dec
  dp_last_beta_star :: int
  dp_count :: nat
  dp_sample_count :: nat
  dp_last_timestamp :: timestamp
  dp_last_delta :: int
  dp_last_value :: f64

definition dp_new :: "u8 list \<Rightarrow> nat \<Rightarrow> chimp_decompressor" where
  "dp_new data sample_count = \<lparr>dp_reader = br_new data, dp_chimp = cx_new, dp_last_beta_star = i32_max, dp_count = 0,
     dp_sample_count = sample_count, dp_last_timestamp = 0, dp_last_delta = 0, dp_last_value = 0\<rparr>"

text \<open>The loop over the prefix bits, which stops after four or at the first zero.\<close>

fun read_prefix :: "nat \<Rightarrow> u64 \<Rightarrow> bitreader \<Rightarrow> io_error + (u64 \<times> bitreader)" where
  "read_prefix 0 prefix r = Inr (prefix, r)"
| "read_prefix (Suc n) prefix r =
     bindR (br_read_bit r) (\<lambda>(b, r1).
       let prefix1 = push_bit 1 prefix OR of_bool b in
       if \<not> b then Inr (prefix1, r1) else read_prefix n prefix1 r1)"

definition dp_read_timestamp :: "chimp_decompressor \<Rightarrow> io_error + (timestamp \<times> chimp_decompressor)" where
  "dp_read_timestamp d =
     (if dp_count d = 0 then
        bindR (br_read_varint (dp_reader d)) (\<lambda>(t, r). Inr (t, d\<lparr>dp_reader := r, dp_last_timestamp := t, dp_last_delta := 0\<rparr>))
      else
        bindR (read_prefix 4 0 (dp_reader d)) (\<lambda>(prefix, r).
        bindR (if prefix = 0 then Inr (0, r)
               else if prefix = 0x02 then map_ok (\<lambda>(w, r). (zigzag_decode w, r)) (br_read_bits 7 r)
               else if prefix = 0x06 then map_ok (\<lambda>(w, r). (zigzag_decode w, r)) (br_read_bits 9 r)
               else if prefix = 0x0E then map_ok (\<lambda>(w, r). (zigzag_decode w, r)) (br_read_bits 12 r)
               else if prefix = TS_ESCAPE_PREFIX then
                 bindR (br_read_bit r) (\<lambda>(b, r).
                   map_ok (\<lambda>(w, r). (zigzag_decode w, r)) (br_read_bits (if b then 64 else 32) r))
               else Inl (InvalidData ''Invalid timestamp prefix'')) (\<lambda>(delta_d, r).
          let last_delta = i64 (dp_last_delta d + delta_d); t = i64 (dp_last_timestamp d + last_delta) in
          Inr (t, d\<lparr>dp_reader := r, dp_last_delta := last_delta, dp_last_timestamp := t\<rparr>))))"

definition dp_read_value :: "(f64 \<Rightarrow> f64) \<Rightarrow> chimp_decompressor \<Rightarrow> io_error + (f64 \<times> chimp_decompressor)" where
  "dp_read_value lg d =
     bindR (br_read_bit (dp_reader d)) (\<lambda>(b0, r).
       if \<not> b0 then
         bindR (cx_read_value_flagged (dp_chimp d) r) (\<lambda>((bits, repeat), ch, r).
           if repeat then Inr (dp_last_value d, d\<lparr>dp_reader := r, dp_chimp := ch\<rparr>)
           else bindR (recover lg bits (dp_last_beta_star d)) (\<lambda>v.
             Inr (v, d\<lparr>dp_reader := r, dp_chimp := ch, dp_last_value := v\<rparr>)))
       else
         bindR (br_read_bit r) (\<lambda>(b1, r).
           if \<not> b1 then
             bindR (cx_read_value (dp_chimp d) r) (\<lambda>(bits, ch, r).
               Inr (bits, d\<lparr>dp_reader := r, dp_chimp := ch, dp_last_value := bits\<rparr>))
           else
             bindR (br_read_bits 4 r) (\<lambda>(w, r).
             bindR (cx_read_value (dp_chimp d) r) (\<lambda>(bits, ch, r).
             bindR (recover lg bits (int (unat w))) (\<lambda>v.
               Inr (v, d\<lparr>dp_reader := r, dp_chimp := ch, dp_last_beta_star := int (unat w), dp_last_value := v\<rparr>))))))"

definition dp_next_sample :: "(f64 \<Rightarrow> f64) \<Rightarrow> chimp_decompressor \<Rightarrow> io_error + (sample \<times> chimp_decompressor) option" where
  "dp_next_sample lg d =
     (if dp_count d = dp_sample_count d then Inr None
      else
        bindR (dp_read_timestamp d) (\<lambda>(t, d1).
        bindR (dp_read_value lg d1) (\<lambda>(v, d2).
          Inr (Some (sample_new t v, d2\<lparr>dp_count := dp_count d2 + 1\<rparr>)))))"

section \<open>The iterator\<close>

record chimp_iterator =
  ci_inner :: chimp_decompressor
  ci_idx :: nat
  ci_num_samples :: nat

definition ci_new :: "chimp_compressor \<Rightarrow> chimp_iterator" where
  "ci_new c = \<lparr>ci_inner = dp_new (cp_bytes c) (cp_count c), ci_idx = 0, ci_num_samples = cp_count c\<rparr>"

text \<open>The text of an \<open>io::Error\<close>.\<close>

fun io_error_text :: "io_error \<Rightarrow> string" where
  "io_error_text UnexpectedEof = ''EOF''"
| "io_error_text (InvalidData msg) = msg"

definition ci_next :: "(f64 \<Rightarrow> f64) \<Rightarrow> chimp_iterator \<Rightarrow> (sample \<times> chimp_iterator) tsdb_result option" where
  "ci_next lg it =
     (if ci_num_samples it \<le> ci_idx it then None
      else Some
        (case dp_next_sample lg (ci_inner it) of
           Inr (Some (s, d)) \<Rightarrow> Inr (s, it\<lparr>ci_inner := d, ci_idx := ci_idx it + 1\<rparr>)
         | Inr None \<Rightarrow> Inl (DecodingError ''chimp: stream ended early'')
         | Inl e \<Rightarrow> Inl (DecodingError (''chimp: error decoding sample: '' @ io_error_text e))))"

definition ci_len :: "chimp_iterator \<Rightarrow> nat" where
  "ci_len it = ci_num_samples it - ci_idx it"

lemma ci_next_advances: "ci_next lg it = Some (Inr (s, it')) \<Longrightarrow> ci_len it' < ci_len it"
  by (auto simp: ci_next_def ci_len_def split: if_splits sum.splits option.splits)

text \<open>The items of one pass, up to the first error.\<close>

function ci_items :: "(f64 \<Rightarrow> f64) \<Rightarrow> chimp_iterator \<Rightarrow> sample tsdb_result list" where
  "ci_items lg it =
     (case ci_next lg it of None \<Rightarrow> []
      | Some (Inl e) \<Rightarrow> [Inl e]
      | Some (Inr (s, it')) \<Rightarrow> Inr s # ci_items lg it')"
  by pat_completeness auto
termination
  by (relation "measure (\<lambda>(lg, it). ci_len it)") (auto simp: ci_next_advances)

declare ci_items.simps [simp del]

definition cp_iter :: "(f64 \<Rightarrow> f64) \<Rightarrow> chimp_compressor \<Rightarrow> sample tsdb_result list" where
  "cp_iter lg c = ci_items lg (ci_new c)"

section \<open>The serialized compressor\<close>

definition cp_serialize :: "chimp_compressor \<Rightarrow> u8 list \<Rightarrow> u8 list" where
  "cp_serialize c buf =
     (let b1 = write_uvarint buf (word_of_nat (cp_count c));
          b2 = write_signed_varint b1 (cp_first_timestamp c);
          b3 = write_signed_varint b2 (cp_last_timestamp c);
          b4 = write_signed_varint b3 (cp_last_delta c);
          b5 = write_f64_le b4 (cp_last_value c);
          b6 = write_signed_varint b5 (cp_last_beta_star c);
          b7 = write_signed_varint b6 (ce_stored_lz (cp_chimp c));
          b8 = write_uvarint b7 (ce_stored_val (cp_chimp c));
          b9 = write_uvarint b8 (of_bool (ce_first (cp_chimp c)))
      in bs_serialize (cp_writer c) b9)"

definition cp_read_uvarint :: "u8 list \<Rightarrow> (u64 \<times> u8 list) tsdb_result" where
  "cp_read_uvarint buf = map_err (\<lambda>_. ChunkDecoding) (try_read_uvarint buf)"

definition cp_read_signed_varint :: "u8 list \<Rightarrow> (int \<times> u8 list) tsdb_result" where
  "cp_read_signed_varint buf = map_err (\<lambda>_. ChunkDecoding) (try_read_signed_varint buf)"

definition cp_deserialize :: "u8 list \<Rightarrow> chimp_compressor tsdb_result" where
  "cp_deserialize buf =
     bindR (cp_read_uvarint buf) (\<lambda>(n, b1).
     bindR (cp_read_signed_varint b1) (\<lambda>(first, b2).
     bindR (cp_read_signed_varint b2) (\<lambda>(lst, b3).
     bindR (cp_read_signed_varint b3) (\<lambda>(delta, b4).
     bindR (map_err (\<lambda>_. ChunkDecoding) (try_read_f64_le b4)) (\<lambda>(v, b5).
     bindR (cp_read_signed_varint b5) (\<lambda>(beta, b6).
     bindR (cp_read_signed_varint b6) (\<lambda>(lz, b7).
     bindR (cp_read_uvarint b7) (\<lambda>(stored, b8).
     bindR (cp_read_uvarint b8) (\<lambda>(fst_flag, b9).
     bindR (map_err (\<lambda>_. ChunkDecoding) (bs_deserialize b9)) (\<lambda>(w, b10).
       Inr \<lparr>cp_writer = w,
         cp_chimp = \<lparr>ce_stored_lz = i32 lz, ce_stored_val = stored, ce_first = (fst_flag \<noteq> 0)\<rparr>,
         cp_last_beta_star = i32 beta, cp_count = unat n, cp_first_timestamp = first, cp_last_timestamp = lst,
         cp_last_delta = delta, cp_last_value = v\<rparr>))))))))))"

section \<open>The bits of a sample list\<close>

text \<open>What the layer writes for a value: a repeat, the raw bits, or erased bits under the old or a new digit count.\<close>

datatype elf_case = ElfRepeat | ElfRaw | ElfSame u64 | ElfNew int u64

record chimp_state =
  cs_started :: bool
  cs_ts :: timestamp
  cs_delta :: int
  cs_value :: f64
  cs_beta :: int
  cs_enc :: chimp_enc

definition cs_init :: chimp_state where
  "cs_init = \<lparr>cs_started = False, cs_ts = 0, cs_delta = 0, cs_value = 0, cs_beta = i32_max, cs_enc = ce_new\<rparr>"

definition elf_plan :: "(f64 \<Rightarrow> f64) \<Rightarrow> chimp_state \<Rightarrow> f64 \<Rightarrow> elf_case" where
  "elf_plan lg st v =
     (if cs_started st \<and> v = cs_value st then ElfRepeat
      else if f64_eq v 0 \<or> \<not> is_finite v then ElfRaw
      else
        case get_alpha_and_beta_star lg v (cs_beta st) of
          Inl _ \<Rightarrow> ElfRaw
        | Inr (alpha, b) \<Rightarrow>
            let erase = 52 - (the (get_f_alpha alpha) + int (f64_exponent v) - 1023);
                mask = push_bit (nat (erase mod 64)) (- 1)
            in if 0 \<le> alpha \<and> NOT mask AND v \<noteq> 0 \<and> 4 < erase \<and>
                 (case try_recover lg (mask AND v) b of Some w \<Rightarrow> f64_eq w v | None \<Rightarrow> False)
               then if b \<noteq> cs_beta st then ElfNew b (mask AND v)
                    else if mask AND v = ce_stored_val (cs_enc st) then ElfRaw else ElfSame (mask AND v)
               else ElfRaw)"

fun elf_bits :: "chimp_enc \<Rightarrow> f64 \<Rightarrow> elf_case \<Rightarrow> bool list" where
  "elf_bits e v ElfRepeat = [False, False, False]"
| "elf_bits e v ElfRaw = [True, False] @ chimp_code e v"
| "elf_bits e v (ElfSame w) = [False] @ chimp_code e w"
| "elf_bits e v (ElfNew b w) = [True, True] @ bits_of 4 (as_u64 b) @ chimp_code e w"

fun elf_enc :: "chimp_enc \<Rightarrow> f64 \<Rightarrow> elf_case \<Rightarrow> chimp_enc" where
  "elf_enc e v ElfRepeat = e\<lparr>ce_stored_lz := 65\<rparr>"
| "elf_enc e v ElfRaw = ce_next e v"
| "elf_enc e v (ElfSame w) = ce_next e w"
| "elf_enc e v (ElfNew b w) = ce_next e w"

definition plan_beta :: "int \<Rightarrow> elf_case \<Rightarrow> int" where
  "plan_beta b plan = (case plan of ElfNew b' w \<Rightarrow> b' | _ \<Rightarrow> b)"

definition dod_bits :: "int \<Rightarrow> bool list" where
  "dod_bits d =
     (let enc = zigzag_encode d; len = 64 - leading_zeros enc in
      if d = 0 then [False]
      else if len \<le> 7 then [True, False] @ bits_of 7 enc
      else if len \<le> 9 then [True, True, False] @ bits_of 9 enc
      else if len \<le> 12 then [True, True, True, False] @ bits_of 12 enc
      else if len \<le> 32 then [True, True, True, True, False] @ bits_of 32 enc
      else [True, True, True, True, True] @ bits_of 64 enc)"

definition cs_ts_bits :: "chimp_state \<Rightarrow> timestamp \<Rightarrow> bool list" where
  "cs_ts_bits st t =
     (if cs_started st then dod_bits (i64 (i64 (t - cs_ts st) - cs_delta st)) else stream_bits (write_uvarint [] (zigzag_encode t)))"

definition cs_bits :: "(f64 \<Rightarrow> f64) \<Rightarrow> chimp_state \<Rightarrow> sample \<Rightarrow> bool list" where
  "cs_bits lg st s = cs_ts_bits st (timestamp s) @ elf_bits (cs_enc st) (val s) (elf_plan lg st (val s))"

definition cs_next :: "(f64 \<Rightarrow> f64) \<Rightarrow> chimp_state \<Rightarrow> sample \<Rightarrow> chimp_state" where
  "cs_next lg st s =
     (let plan = elf_plan lg st (val s) in
      \<lparr>cs_started = True, cs_ts = timestamp s,
       cs_delta = (if cs_started st then i64 (timestamp s - cs_ts st) else 0), cs_value = val s,
       cs_beta = plan_beta (cs_beta st) plan, cs_enc = elf_enc (cs_enc st) (val s) plan\<rparr>)"

fun cs_tail :: "(f64 \<Rightarrow> f64) \<Rightarrow> chimp_state \<Rightarrow> sample list \<Rightarrow> bool list" where
  "cs_tail lg st [] = []"
| "cs_tail lg st (s # ss) = cs_bits lg st s @ cs_tail lg (cs_next lg st s) ss"

definition cp_state :: "chimp_compressor \<Rightarrow> chimp_state" where
  "cp_state c = \<lparr>cs_started = (0 < cp_count c), cs_ts = cp_last_timestamp c, cs_delta = cp_last_delta c,
     cs_value = cp_last_value c, cs_beta = cp_last_beta_star c, cs_enc = cp_chimp c\<rparr>"

lemma cs_tail_snoc: "cs_tail lg st (ss @ [s]) = cs_tail lg st ss @ cs_bits lg (foldl (cs_next lg) st ss) s"
  by (induction ss arbitrary: st) auto

section \<open>What a plan promises\<close>

lemma recover_bits:
  assumes "case try_recover lg w b of Some x \<Rightarrow> f64_eq x v | None \<Rightarrow> False" "is_finite v" "f64_magnitude v \<noteq> 0"
  shows "recover lg w b = Inr v"
proof -
  have "f64_key v \<noteq> 0" using assms(3) by (simp add: f64_key_def)
  then show ?thesis using assms(1) f64_eq_imp_same_bits by (auto simp: try_recover_def split: sum.splits)
qed

lemma f64_eq_zero: "f64_eq v 0 \<longleftrightarrow> f64_magnitude v = 0"
  by (auto simp: f64_eq_def is_nan_def f64_key_def)

lemma elf_plan_ok:
  assumes lg: "log10_ok lg"
  shows "elf_plan lg st v = ElfRepeat \<Longrightarrow> cs_started st \<and> v = cs_value st"
    "elf_plan lg st v = ElfSame w \<Longrightarrow> recover lg w (cs_beta st) = Inr v \<and> w \<noteq> ce_stored_val (cs_enc st)"
    "elf_plan lg st v = ElfNew b w \<Longrightarrow> recover lg w b = Inr v \<and> 0 \<le> b \<and> b \<le> 15"
proof -
  show "elf_plan lg st v = ElfRepeat \<Longrightarrow> cs_started st \<and> v = cs_value st"
    by (auto simp: elf_plan_def Let_def split: if_splits sum.splits prod.splits)
  show "elf_plan lg st v = ElfSame w \<Longrightarrow> recover lg w (cs_beta st) = Inr v \<and> w \<noteq> ce_stored_val (cs_enc st)"
    using recover_bits [of v lg w "cs_beta st"]
    by (auto simp: elf_plan_def Let_def f64_eq_zero split: if_splits sum.splits prod.splits)
  assume *: "elf_plan lg st v = ElfNew b w"
  then obtain alpha where a: "get_alpha_and_beta_star lg v (cs_beta st) = Inr (alpha, b)" "0 \<le> alpha"
    "4 < 52 - (the (get_f_alpha alpha) + int (f64_exponent v) - 1023)" "is_finite v" "f64_magnitude v \<noteq> 0"
    "case try_recover lg w b of Some x \<Rightarrow> f64_eq x v | None \<Rightarrow> False"
    by (auto simp: elf_plan_def Let_def f64_eq_zero split: if_splits sum.splits prod.splits)
  obtain f where f: "get_f_alpha alpha = Some f" using get_f_alpha_defined [OF lg a(4,5,1,2)] by blast
  show "recover lg w b = Inr v \<and> 0 \<le> b \<and> b \<le> 15"
    using beta_star_fits [OF lg a(4,5,1,2) f] a(3) f recover_bits [OF a(6,4,5)] by simp
qed

section \<open>Writing\<close>

lemma cp_add_value_rel:
  assumes "bs_rel (cp_writer c) bl" "0 < pl" "pl \<le> 6"
  shows "\<exists>w. cp_add_value p pl v c = Inr (c\<lparr>cp_chimp := ce_next (cp_chimp c) v, cp_writer := w\<rparr>) \<and>
    bs_rel w (bl @ bits_of pl p @ chimp_code (cp_chimp c) v)"
  using ce_add_value_rel [OF assms, of "cp_chimp c" p v] by (auto simp: cp_add_value_def)

lemma cp_write_value_plan:
  assumes "cs_started st = (0 < cp_count c)" "cs_value st = cp_last_value c" "cs_beta st = cp_last_beta_star c"
    "cs_enc st = cp_chimp c"
  shows "cp_write_value lg v c =
    (case elf_plan lg st v of ElfRepeat \<Rightarrow> cp_write_repeat c | ElfRaw \<Rightarrow> cp_add_value 2 2 v c
     | ElfSame w \<Rightarrow> cp_add_value 0 1 w c
     | ElfNew b w \<Rightarrow> cp_add_value (as_u64 b OR 0x30) 6 w (c\<lparr>cp_last_beta_star := b\<rparr>))"
  unfolding cp_write_value_def elf_plan_def f64_exponent_def Let_def assms
  by (auto simp: not_le not_less split: sum.splits prod.splits if_splits)

lemma new_marker_bits:
  assumes "0 \<le> b" "b \<le> 15" shows "bits_of 6 (as_u64 b OR 0x30) = [True, True] @ bits_of 4 (as_u64 b)"
proof -
  have "unat (as_u64 b) < 2 ^ 4" using assms by (simp add: unat_as_u64 i64_max_def nat_less_iff)
  then have "take_bit 4 (as_u64 b) = as_u64 b" by (rule small_word_take_bit)
  from bits_of_prefix_payload [of 2 4, OF _ this, of 3] show ?thesis
    by (simp add: bits_of_2 or.commute)
qed

lemma cp_write_value_rel:
  assumes lg: "log10_ok lg" and rel: "bs_rel (cp_writer c) bl"
    and st: "cs_started st = (0 < cp_count c)" "cs_value st = cp_last_value c" "cs_beta st = cp_last_beta_star c"
    "cs_enc st = cp_chimp c"
  shows "\<exists>w. cp_write_value lg v c = Inr (c\<lparr>cp_chimp := elf_enc (cs_enc st) v (elf_plan lg st v), cp_writer := w,
      cp_last_beta_star := plan_beta (cs_beta st) (elf_plan lg st v)\<rparr>) \<and>
    bs_rel w (bl @ elf_bits (cs_enc st) v (elf_plan lg st v))"
proof (cases "elf_plan lg st v")
  case ElfRepeat
  then show ?thesis using ce_add_repeat_rel [OF rel, of 1 "cp_chimp c" 0]
    by (force simp: cp_write_value_plan [OF st] cp_write_repeat_def st plan_beta_def)
next
  case ElfRaw
  then show ?thesis using cp_add_value_rel [OF rel, of 2 2 v]
    by (auto simp: cp_write_value_plan [OF st] st plan_beta_def bits_of_2)
next
  case (ElfSame w)
  then show ?thesis using cp_add_value_rel [OF rel, of 1 0 w]
    by (auto simp: cp_write_value_plan [OF st] st plan_beta_def)
next
  case (ElfNew b w)
  then have "0 \<le> b" "b \<le> 15" using elf_plan_ok(3) [OF lg] by blast+
  then obtain u where "cp_add_value (as_u64 b OR 0x30) 6 w (c\<lparr>cp_last_beta_star := b\<rparr>) =
      Inr (c\<lparr>cp_last_beta_star := b, cp_chimp := ce_next (cp_chimp c) w, cp_writer := u\<rparr>)"
    "bs_rel u (bl @ ([True, True] @ bits_of 4 (as_u64 b)) @ chimp_code (cp_chimp c) w)"
    using cp_add_value_rel [of "c\<lparr>cp_last_beta_star := b\<rparr>" bl 6 "as_u64 b OR 0x30" w] rel by (auto simp: new_marker_bits)
  then show ?thesis using ElfNew by (intro exI [of _ u]) (simp add: cp_write_value_plan [OF st] st plan_beta_def)
qed

lemma leading_zeros_take_bit: "64 - leading_zeros w \<le> n \<Longrightarrow> take_bit n w = w"
proof (rule bit_word_eqI)
  fix i assume "64 - leading_zeros w \<le> n"
  then show "bit (take_bit n w) i = bit w i" using bit_leading_zeros [of w i] by (auto simp: bit_take_bit_iff)
qed

lemma dod_marker:
  fixes enc m :: u64
  assumes "take_bit n enc = enc" "p + n \<le> 64"
  shows "bits_of (p + n) (enc OR push_bit n m) = bits_of p m @ bits_of n enc"
  using bits_of_prefix_payload [OF assms(2,1), of m] by (simp add: or.commute)

lemma dod_prefixes: "bits_of 2 (0x02 :: u64) = [True, False]" "bits_of 3 (0x06 :: u64) = [True, True, False]"
    "bits_of 4 (0x0E :: u64) = [True, True, True, False]" "bits_of 4 (0x0F :: u64) = [True, True, True, True]"
  by (simp_all add: bits_of_def upt_rec)

lemma bs_write_marked:
  assumes "bs_rel s bl" "take_bit n enc = enc" "p + n \<le> 64"
  shows "\<exists>w. bs_write_bits (p + n) (enc OR push_bit n m) s = Inr w \<and> bs_rel w (bl @ bits_of p m @ bits_of n enc)"
  using bsw.wr_bits [OF assms(1,3), of "enc OR push_bit n m"] dod_marker [OF assms(2,3)] by simp

lemma cp_write_timestamp_rel:
  assumes rel: "bs_rel (cp_writer c) bl"
  shows "\<exists>w. cp_write_timestamp t c =
      Inr (c\<lparr>cp_writer := w, cp_first_timestamp := (if cp_count c = 0 then t else cp_first_timestamp c), cp_last_timestamp := t,
        cp_last_delta := (if cp_count c = 0 then 0 else i64 (t - cp_last_timestamp c))\<rparr>) \<and>
    bs_rel w (bl @ cs_ts_bits (cp_state c) t)"
proof (cases "cp_count c = 0")
  case True
  then show ?thesis using bs_write_varint_rel [OF rel, of t]
    by (auto simp: cp_write_timestamp_def cs_ts_bits_def cp_state_def)
next
  case False
  define d where "d = i64 (i64 (t - cp_last_timestamp c) - cp_last_delta c)"
  define enc where "enc = zigzag_encode d"
  define len where "len = 64 - leading_zeros enc"
  note fits = leading_zeros_take_bit [of enc, folded len_def]
  have lz: "7 < len \<Longrightarrow> \<not> 64 \<le> leading_zeros enc" by (simp add: len_def)
  note defs = cp_write_timestamp_def cs_ts_bits_def cp_state_def d_def [symmetric] enc_def [symmetric] len_def [symmetric] dod_bits_def
  have escaped: "\<exists>w. bindR (bs_write_bits 4 0x0F (cp_writer c)) (\<lambda>w. bindR (bs_write_bit b w) (bs_write_bits n enc)) = Inr w \<and>
      bs_rel w (bl @ bits_of 4 (0x0F :: u64) @ [b] @ bits_of n enc)" if "n \<le> 64" for n b
  proof -
    obtain w1 where w1: "bs_write_bits 4 0x0F (cp_writer c) = Inr w1" "bs_rel w1 (bl @ bits_of 4 (0x0F :: u64))"
      using bsw.wr_bits [OF rel, of 4 "0x0F"] by auto
    show ?thesis using w1(1) bsw.wr_bits [OF write_bit_raw_rel [OF w1(2), of b] that, of enc] by (simp add: bs_write_bit_def)
  qed
  consider "d = 0" | "d \<noteq> 0" "len \<le> 7" | "d \<noteq> 0" "7 < len" "len \<le> 9" | "d \<noteq> 0" "9 < len" "len \<le> 12"
    | "d \<noteq> 0" "12 < len" "len \<le> 32" | "d \<noteq> 0" "32 < len" by linarith
  then show ?thesis
  proof cases
    case 1
    then show ?thesis using False write_bit_raw_rel [OF rel, of False]
      by (intro exI [of _ "write_bit_raw False (cp_writer c)"]) (simp add: defs bs_write_bit_def)
  next
    case 2
    obtain w where "bs_write_bits 9 (enc OR push_bit 7 2) (cp_writer c) = Inr w" "bs_rel w (bl @ [True, False] @ bits_of 7 enc)"
      using bs_write_marked [OF rel fits, of 7 2 2] 2 by (auto simp: dod_prefixes)
    then show ?thesis using False 2 by (intro exI [of _ w]) (simp add: defs)
  next
    case 3
    obtain w where "bs_write_bits 12 (enc OR push_bit 9 6) (cp_writer c) = Inr w" "bs_rel w (bl @ [True, True, False] @ bits_of 9 enc)"
      using bs_write_marked [OF rel fits, of 9 3 6] 3 by (auto simp: dod_prefixes)
    then show ?thesis using False 3 lz by (intro exI [of _ w]) (simp add: defs)
  next
    case 4
    obtain w where "bs_write_bits 16 (enc OR push_bit 12 14) (cp_writer c) = Inr w"
      "bs_rel w (bl @ [True, True, True, False] @ bits_of 12 enc)"
      using bs_write_marked [OF rel fits, of 12 4 14] 4 by (auto simp: dod_prefixes)
    then show ?thesis using False 4 lz by (intro exI [of _ w]) (simp add: defs)
  next
    case 5
    obtain w where "bindR (bs_write_bits 4 0x0F (cp_writer c)) (\<lambda>w. bindR (bs_write_bit False w) (bs_write_bits 32 enc)) = Inr w"
      "bs_rel w (bl @ [True, True, True, True, False] @ bits_of 32 enc)"
      using escaped [of 32 False] by (auto simp: dod_prefixes)
    then show ?thesis using False 5 lz by (intro exI [of _ w]) (simp add: defs TS_ESCAPE_PREFIX_def)
  next
    case 6
    obtain w where "bindR (bs_write_bits 4 0x0F (cp_writer c)) (\<lambda>w. bindR (bs_write_bit True w) (bs_write_bits 64 enc)) = Inr w"
      "bs_rel w (bl @ [True, True, True, True, True] @ bits_of 64 enc)"
      using escaped [of 64 True] by (auto simp: dod_prefixes)
    then show ?thesis using False 6 lz by (intro exI [of _ w]) (simp add: defs TS_ESCAPE_PREFIX_def)
  qed
qed

text \<open>The compressor after a list of samples with any \<open>i64\<close> timestamps.\<close>

definition chimp_holds :: "(f64 \<Rightarrow> f64) \<Rightarrow> chimp_compressor \<Rightarrow> sample list \<Rightarrow> bool" where
  "chimp_holds lg c xs \<longleftrightarrow> (\<forall>s\<in>set xs. is_i64 (timestamp s)) \<and> cp_count c = length xs \<and>
     bs_rel (cp_writer c) (cs_tail lg cs_init xs) \<and> cp_state c = foldl (cs_next lg) cs_init xs \<and>
     cp_first_timestamp c = (if xs = [] then 0 else timestamp (hd xs))"

lemma chimp_holds_new: "chimp_holds lg (cp_with_soft_cap sz) []" "chimp_holds lg (cp_clear c) []"
  by (simp_all add: chimp_holds_def cp_with_soft_cap_def cp_set_soft_cap_def cp_new_def cp_clear_def cp_state_def cs_init_def)

lemma chimp_holds_add:
  assumes lg: "log10_ok lg" and h: "chimp_holds lg c xs" and t: "is_i64 (timestamp s)"
  shows "\<exists>c'. cp_add lg s c = Inr c' \<and> chimp_holds lg c' (xs @ [s])"
proof -
  let ?st = "cp_state c"
  let ?plan = "elf_plan lg ?st (val s)"
  have f: "cp_count c = length xs" "bs_rel (cp_writer c) (cs_tail lg cs_init xs)" "?st = foldl (cs_next lg) cs_init xs"
    using h by (simp_all add: chimp_holds_def)
  obtain w where w: "cp_write_timestamp (timestamp s) c =
      Inr (c\<lparr>cp_writer := w, cp_first_timestamp := (if cp_count c = 0 then timestamp s else cp_first_timestamp c),
        cp_last_timestamp := timestamp s, cp_last_delta := (if cp_count c = 0 then 0 else i64 (timestamp s - cp_last_timestamp c))\<rparr>)"
    "bs_rel w (cs_tail lg cs_init xs @ cs_ts_bits ?st (timestamp s))"
    using cp_write_timestamp_rel [OF f(2)] by blast
  define c1 where "c1 = c\<lparr>cp_writer := w, cp_first_timestamp := (if cp_count c = 0 then timestamp s else cp_first_timestamp c),
        cp_last_timestamp := timestamp s, cp_last_delta := (if cp_count c = 0 then 0 else i64 (timestamp s - cp_last_timestamp c))\<rparr>"
  have r1: "bs_rel (cp_writer c1) (cs_tail lg cs_init xs @ cs_ts_bits ?st (timestamp s))" using w(2) by (simp add: c1_def)
  obtain w2 where w2: "cp_write_value lg (val s) c1 = Inr (c1\<lparr>cp_chimp := elf_enc (cs_enc ?st) (val s) ?plan, cp_writer := w2,
      cp_last_beta_star := plan_beta (cs_beta ?st) ?plan\<rparr>)"
    "bs_rel w2 ((cs_tail lg cs_init xs @ cs_ts_bits ?st (timestamp s)) @ elf_bits (cs_enc ?st) (val s) ?plan)"
    using cp_write_value_rel [OF lg r1, of ?st "val s"] by (auto simp: c1_def cp_state_def)
  define c2 where "c2 = c1\<lparr>cp_chimp := elf_enc (cs_enc ?st) (val s) ?plan, cp_writer := w2,
      cp_last_beta_star := plan_beta (cs_beta ?st) ?plan, cp_last_value := val s, cp_count := cp_count c + 1\<rparr>"
  have "cp_add lg s c = Inr c2"
    using w(1) w2(1) by (simp add: cp_add_def cp_add_sample_def c1_def [symmetric]) (simp add: c2_def c1_def)
  moreover have "cp_state c2 = cs_next lg ?st s"
    by (simp add: c2_def c1_def cp_state_def cs_next_def Let_def)
  then have "cp_state c2 = foldl (cs_next lg) cs_init (xs @ [s])" using f(3) by simp
  moreover have "cs_tail lg cs_init (xs @ [s]) = (cs_tail lg cs_init xs @ cs_ts_bits ?st (timestamp s)) @ elf_bits (cs_enc ?st) (val s) ?plan"
    using f(3) by (simp add: cs_tail_snoc cs_bits_def)
  ultimately show ?thesis using h w2(2) f t
    by (auto simp: chimp_holds_def c2_def c1_def)
qed

section \<open>Reading\<close>

lemma read_prefix_spec:
  "br_inv r \<Longrightarrow> k \<le> n \<Longrightarrow> pre = replicate k True @ (if k < n then [False] else []) \<Longrightarrow> br_bits r = pre @ ys \<Longrightarrow>
   \<exists>r'. read_prefix n p r = Inr (push_bit (length pre) p OR of_bits pre, r') \<and> br_inv r' \<and> br_bits r' = ys"
proof (induction n arbitrary: k p r pre)
  case (Suc n)
  show ?case
  proof (cases k)
    case 0
    then obtain r' where "br_read_bit r = Inr (False, r')" "br_inv r'" "br_bits r' = ys"
      using br_read_bit_Cons [OF Suc.prems(1), of False ys] Suc.prems by auto
    then show ?thesis using 0 Suc.prems(3) by (simp add: of_bits_def)
  next
    case (Suc k')
    define pre' where "pre' = replicate k' True @ (if k' < n then [False] else [])"
    have pre: "pre = True # pre'" using Suc.prems(3) Suc by (simp add: pre'_def)
    obtain r1 where r1: "br_read_bit r = Inr (True, r1)" "br_inv r1" "br_bits r1 = pre' @ ys"
      using br_read_bit_Cons [OF Suc.prems(1), of True "pre' @ ys"] Suc.prems(4) pre by auto
    have "of_bits pre = push_bit (length pre') 1 OR of_bits pre'"
      using of_bits_append [of "[True]" pre'] by (simp add: pre of_bits_def)
    then have "push_bit (length pre') (push_bit 1 p OR 1) OR of_bits pre' = push_bit (length pre) p OR of_bits pre"
      by (simp add: pre push_bit_or or.assoc)
    then show ?thesis
      using Suc.IH [OF r1(2) _ pre'_def r1(3), of "push_bit 1 p OR 1"] Suc.prems(2) Suc r1(1) by (auto simp: Let_def)
  qed
qed simp

lemma prefix_values:
  "of_bits [False] = 0" "of_bits [True, False] = 2" "of_bits [True, True, False] = 6"
  "of_bits [True, True, True, False] = 14" "of_bits [True, True, True, True] = 15"
  by (simp_all add: of_bits_def)

lemma read_prefix_4:
  assumes "br_inv r" "br_bits r = pre @ ys"
    "pre \<in> {[False], [True, False], [True, True, False], [True, True, True, False], [True, True, True, True]}"
  shows "\<exists>r'. read_prefix 4 0 r = Inr (of_bits pre, r') \<and> br_inv r' \<and> br_bits r' = ys"
proof -
  obtain k where "k \<le> 4" "pre = replicate k True @ (if k < 4 then [False] else [])"
    using assms(3) that [of 0] that [of 1] that [of 2] that [of 3] that [of 4] by (auto simp: numeral_eq_Suc)
  from read_prefix_spec [OF assms(1) this assms(2), of 0] show ?thesis by simp
qed

definition dp_at :: "chimp_decompressor \<Rightarrow> chimp_state \<Rightarrow> bool list \<Rightarrow> bool" where
  "dp_at d st bs \<longleftrightarrow> br_inv (dp_reader d) \<and> br_bits (dp_reader d) = bs \<and> (0 < dp_count d) = cs_started st \<and>
     dp_last_timestamp d = cs_ts st \<and> dp_last_delta d = cs_delta st \<and> dp_last_value d = cs_value st \<and>
     dp_last_beta_star d = cs_beta st \<and> chimp_sync (cs_enc st) (dp_chimp d) \<and>
     (cs_started st \<longrightarrow> \<not> ce_first (cs_enc st)) \<and> is_i64 (cs_delta st)"

lemma zigzag_read:
  assumes "br_inv r" "br_bits r = bits_of n (zigzag_encode x) @ ys" "n \<le> 64" "take_bit n (zigzag_encode x) = zigzag_encode x" "is_i64 x"
  shows "\<exists>r'. map_ok (\<lambda>(w, r). (zigzag_decode w, r)) (br_read_bits n r) = Inr (x, r') \<and> br_inv r' \<and> br_bits r' = ys"
proof -
  obtain r' where "br_read_bits n r = Inr (zigzag_encode x, r')" "br_inv r'" "br_bits r' = ys"
    using br_read_bits_app [OF assms(1,2) _ assms(3)] assms(4) by auto
  then show ?thesis using assms(5) by simp
qed

lemma dod_read:
  assumes "br_inv r" "br_bits r = dod_bits x @ ys" "is_i64 x"
  shows "\<exists>r'. bindR (read_prefix 4 0 r) (\<lambda>(prefix, r).
      if prefix = 0 then Inr (0, r)
      else if prefix = 0x02 then map_ok (\<lambda>(w, r). (zigzag_decode w, r)) (br_read_bits 7 r)
      else if prefix = 0x06 then map_ok (\<lambda>(w, r). (zigzag_decode w, r)) (br_read_bits 9 r)
      else if prefix = 0x0E then map_ok (\<lambda>(w, r). (zigzag_decode w, r)) (br_read_bits 12 r)
      else if prefix = TS_ESCAPE_PREFIX then
        bindR (br_read_bit r) (\<lambda>(b, r). map_ok (\<lambda>(w, r). (zigzag_decode w, r)) (br_read_bits (if b then 64 else 32) r))
      else Inl (InvalidData ''Invalid timestamp prefix'')) = Inr (x, r') \<and> br_inv r' \<and> br_bits r' = ys"
    (is "\<exists>r'. bindR _ ?k = _ \<and> _")
proof -
  define enc where "enc = zigzag_encode x"
  define len where "len = 64 - leading_zeros enc"
  note fits = leading_zeros_take_bit [of enc, folded len_def]
  note bits = assms(2) [unfolded dod_bits_def, folded enc_def, unfolded Let_def, folded len_def]
  have payload: "\<exists>r'. map_ok (\<lambda>(w, r). (zigzag_decode w, r)) (br_read_bits n r1) = Inr (x, r') \<and> br_inv r' \<and> br_bits r' = ys"
    if "br_inv r1" "br_bits r1 = bits_of n enc @ ys" "len \<le> n" "n \<le> 64" for n r1
    using zigzag_read [OF that(1) that(2) [unfolded enc_def] that(4)] fits [OF that(3)] assms(3) by (simp add: enc_def)
  have escape: "\<exists>r'. bindR (read_prefix 4 0 r) ?k = Inr (x, r') \<and> br_inv r' \<and> br_bits r' = ys"
    if b: "br_bits r = [True, True, True, True] @ [b] @ bits_of (if b then 64 else 32) enc @ ys" "len \<le> (if b then 64 else 32)" for b
  proof -
    obtain r1 where r1: "read_prefix 4 0 r = Inr (15, r1)" "br_inv r1" "br_bits r1 = [b] @ bits_of (if b then 64 else 32) enc @ ys"
      using read_prefix_4 [OF assms(1) b(1)] by (auto simp: prefix_values)
    obtain r2 where "br_read_bit r1 = Inr (b, r2)" "br_inv r2" "br_bits r2 = bits_of (if b then 64 else 32) enc @ ys"
      using br_read_bit_Cons [OF r1(2), of b] r1(3) by auto
    with payload [of r2 "if b then 64 else 32"] b(2) r1(1) show ?thesis
      by (cases b) (simp_all add: TS_ESCAPE_PREFIX_def)
  qed
  consider "x = 0" | "x \<noteq> 0" "len \<le> 7" | "x \<noteq> 0" "7 < len" "len \<le> 9" | "x \<noteq> 0" "9 < len" "len \<le> 12"
    | "x \<noteq> 0" "12 < len" "len \<le> 32" | "x \<noteq> 0" "32 < len" by linarith
  then show ?thesis
  proof cases
    case 1
    then have "br_bits r = [False] @ ys" using bits by simp
    from read_prefix_4 [OF assms(1) this] show ?thesis using 1 by (auto simp: prefix_values)
  next
    case 2
    then have "br_bits r = [True, False] @ bits_of 7 enc @ ys" using bits by simp
    from read_prefix_4 [OF assms(1) this] obtain r1 where r1: "read_prefix 4 0 r = Inr (2, r1)" "br_inv r1" "br_bits r1 = bits_of 7 enc @ ys"
      by (auto simp: prefix_values)
    then show ?thesis using payload [OF r1(2,3)] 2 by simp
  next
    case 3
    then have "br_bits r = [True, True, False] @ bits_of 9 enc @ ys" using bits by simp
    from read_prefix_4 [OF assms(1) this] obtain r1 where r1: "read_prefix 4 0 r = Inr (6, r1)" "br_inv r1" "br_bits r1 = bits_of 9 enc @ ys"
      by (auto simp: prefix_values)
    then show ?thesis using payload [OF r1(2,3)] 3 by simp
  next
    case 4
    then have "br_bits r = [True, True, True, False] @ bits_of 12 enc @ ys" using bits by simp
    from read_prefix_4 [OF assms(1) this] obtain r1 where r1: "read_prefix 4 0 r = Inr (14, r1)" "br_inv r1" "br_bits r1 = bits_of 12 enc @ ys"
      by (auto simp: prefix_values)
    then show ?thesis using payload [OF r1(2,3)] 4 by simp
  next
    case 5
    then show ?thesis using bits escape [of False] by simp
  next
    case 6
    then show ?thesis using bits escape [of True] by (simp add: len_def)
  qed
qed

lemma delta_step: "is_i64 t \<Longrightarrow> i64 (d + i64 (i64 (t - p) - d)) = i64 (t - p)" "is_i64 t \<Longrightarrow> i64 (p + i64 (t - p)) = t"
  by (simp_all add: i64_mod_cong)

lemma dp_read_timestamp_spec:
  assumes at: "dp_at d st (cs_ts_bits st t @ ys)" and t: "is_i64 t"
  shows "\<exists>r. dp_read_timestamp d = Inr (t, d\<lparr>dp_reader := r, dp_last_timestamp := t,
      dp_last_delta := (if cs_started st then i64 (t - cs_ts st) else 0)\<rparr>) \<and> br_inv r \<and> br_bits r = ys"
proof (cases "cs_started st")
  case False
  then show ?thesis using at br_read_varint_spec [of "dp_reader d" t ys] t
    by (auto simp: dp_at_def dp_read_timestamp_def cs_ts_bits_def)
next
  case True
  let ?x = "i64 (i64 (t - cs_ts st) - cs_delta st)"
  have f: "br_inv (dp_reader d)" "br_bits (dp_reader d) = dod_bits ?x @ ys" "dp_count d \<noteq> 0"
    "dp_last_timestamp d = cs_ts st" "dp_last_delta d = cs_delta st"
    using at True by (auto simp: dp_at_def cs_ts_bits_def)
  from dod_read [OF f(1,2) i64_range] obtain r pre r1 where "read_prefix 4 0 (dp_reader d) = Inr (pre, r1)"
    "(if pre = 0 then Inr (0, r1)
      else if pre = 0x02 then map_ok (\<lambda>(w, r). (zigzag_decode w, r)) (br_read_bits 7 r1)
      else if pre = 0x06 then map_ok (\<lambda>(w, r). (zigzag_decode w, r)) (br_read_bits 9 r1)
      else if pre = 0x0E then map_ok (\<lambda>(w, r). (zigzag_decode w, r)) (br_read_bits 12 r1)
      else if pre = TS_ESCAPE_PREFIX then
        bindR (br_read_bit r1) (\<lambda>(b, r). map_ok (\<lambda>(w, r). (zigzag_decode w, r)) (br_read_bits (if b then 64 else 32) r))
      else Inl (InvalidData ''Invalid timestamp prefix'')) = Inr (?x, r)" "br_inv r" "br_bits r = ys"
    unfolding bindR_eq_Inr_iff by (auto simp only: prod.case split_paired_Ex)
  then show ?thesis using f(3-5) True t delta_step [OF t]
    by (intro exI [of _ r]) (simp only: dp_read_timestamp_def bindR.simps prod.case if_False Let_def refl if_True simp_thms, simp)
qed

lemma elf_enc_started: "\<not> ce_first e \<or> plan \<noteq> ElfRepeat \<Longrightarrow> \<not> ce_first (elf_enc e v plan)"
  by (cases plan) (auto simp: ce_next_def Let_def)

lemma ce_next_same: "\<not> ce_first e \<Longrightarrow> ce_next e (ce_stored_val e) = e\<lparr>ce_stored_lz := 65\<rparr>"
  by (cases e) (simp add: ce_next_def)

lemma chimp_code_same: "\<not> ce_first e \<Longrightarrow> chimp_code e (ce_stored_val e) = [False, False]"
  by (simp add: chimp_code_def)

lemma read_marker:
  assumes "br_inv r" "br_bits r = [True, b] @ ys"
  shows "\<exists>r1 r2. br_read_bit r = Inr (True, r1) \<and> br_read_bit r1 = Inr (b, r2) \<and> br_inv r2 \<and> br_bits r2 = ys"
  using br_read_bit_Cons [OF assms(1), of True "b # ys"] assms(2) br_read_bit_Cons by (metis append_Cons append_Nil)

lemma dp_read_value_spec:
  assumes lg: "log10_ok lg" and r: "br_inv (dp_reader d)" "br_bits (dp_reader d) = elf_bits (cs_enc st) v (elf_plan lg st v) @ ys"
    and d: "dp_last_value d = cs_value st" "dp_last_beta_star d = cs_beta st" "chimp_sync (cs_enc st) (dp_chimp d)"
    "cs_started st \<longrightarrow> \<not> ce_first (cs_enc st)"
  shows "\<exists>r ch. dp_read_value lg d = Inr (v, d\<lparr>dp_reader := r, dp_chimp := ch, dp_last_value := v,
      dp_last_beta_star := plan_beta (cs_beta st) (elf_plan lg st v)\<rparr>) \<and> br_inv r \<and> br_bits r = ys \<and>
    chimp_sync (elf_enc (cs_enc st) v (elf_plan lg st v)) ch"
proof (cases "elf_plan lg st v")
  case ElfRepeat
  have v: "v = cs_value st" "\<not> ce_first (cs_enc st)" using elf_plan_ok(1) [OF lg ElfRepeat] d(4) by auto
  obtain r1 where r1: "br_read_bit (dp_reader d) = Inr (False, r1)" "br_inv r1" "br_bits r1 = [False, False] @ ys"
    using br_read_bit_Cons [OF r(1), of False "[False, False] @ ys"] r(2) ElfRepeat by auto
  obtain ch r2 where "cx_next (dp_chimp d) r1 = Inr (True, ch, r2)" "br_inv r2" "br_bits r2 = ys"
    "chimp_sync ((cs_enc st)\<lparr>ce_stored_lz := 65\<rparr>) ch"
    using cx_next_spec [OF d(3) r1(2), of "ce_stored_val (cs_enc st)" ys] r1(3) v(2) by (auto simp: chimp_code_same ce_next_same)
  then show ?thesis using r1(1) ElfRepeat v(1) d(1,2)
    by (intro exI [of _ r2] exI [of _ ch]) (simp add: dp_read_value_def cx_read_value_flagged_def plan_beta_def)
next
  case ElfRaw
  obtain r1 r2 where r2: "br_read_bit (dp_reader d) = Inr (True, r1)" "br_read_bit r1 = Inr (False, r2)" "br_inv r2"
    "br_bits r2 = chimp_code (cs_enc st) v @ ys"
    using read_marker [OF r(1), of False "chimp_code (cs_enc st) v @ ys"] r(2) ElfRaw by auto
  obtain rep ch r3 where "cx_next (dp_chimp d) r2 = Inr (rep, ch, r3)" "br_inv r3" "br_bits r3 = ys"
    "chimp_sync (ce_next (cs_enc st) v) ch" "cx_stored_val ch = v"
    using cx_next_spec [OF d(3) r2(3,4)] by blast
  then show ?thesis using r2(1,2) ElfRaw d(2)
    by (intro exI [of _ r3] exI [of _ ch]) (simp add: dp_read_value_def cx_read_value_def plan_beta_def)
next
  case (ElfSame w)
  have w: "recover lg w (cs_beta st) = Inr v" "\<not> (\<not> ce_first (cs_enc st) \<and> ce_stored_val (cs_enc st) = w)"
    using elf_plan_ok(2) [OF lg ElfSame] by auto
  obtain r1 where r1: "br_read_bit (dp_reader d) = Inr (False, r1)" "br_inv r1" "br_bits r1 = chimp_code (cs_enc st) w @ ys"
    using br_read_bit_Cons [OF r(1), of False] r(2) ElfSame by auto
  obtain ch r2 where "cx_next (dp_chimp d) r1 = Inr (False, ch, r2)" "br_inv r2" "br_bits r2 = ys"
    "chimp_sync (ce_next (cs_enc st) w) ch" "cx_stored_val ch = w"
    using cx_next_spec [OF d(3) r1(2,3)] w(2) by auto
  then show ?thesis using r1(1) ElfSame w(1) d(2)
    by (intro exI [of _ r2] exI [of _ ch]) (simp add: dp_read_value_def cx_read_value_flagged_def plan_beta_def)
next
  case (ElfNew b w)
  have w: "recover lg w b = Inr v" "0 \<le> b" "b \<le> 15" using elf_plan_ok(3) [OF lg ElfNew] by auto
  then have b: "unat (as_u64 b) = nat b" "unat (as_u64 b) < 2 ^ 4" by (simp_all add: unat_as_u64 i64_max_def nat_less_iff)
  obtain r1 r2 where r2: "br_read_bit (dp_reader d) = Inr (True, r1)" "br_read_bit r1 = Inr (True, r2)" "br_inv r2"
    "br_bits r2 = bits_of 4 (as_u64 b) @ chimp_code (cs_enc st) w @ ys"
    using read_marker [OF r(1), of True] r(2) ElfNew by auto
  obtain r3 where r3: "br_read_bits 4 r2 = Inr (as_u64 b, r3)" "br_inv r3" "br_bits r3 = chimp_code (cs_enc st) w @ ys"
    using br_read_bits_app [OF r2(3,4)] small_word_take_bit [OF b(2)] by auto
  obtain rep ch r4 where "cx_next (dp_chimp d) r3 = Inr (rep, ch, r4)" "br_inv r4" "br_bits r4 = ys"
    "chimp_sync (ce_next (cs_enc st) w) ch" "cx_stored_val ch = w"
    using cx_next_spec [OF d(3) r3(2,3)] by blast
  moreover have "uint (as_u64 b) = b" using b(1) w(2) by (simp add: as_u64_def uint_nat)
  ultimately show ?thesis using r2(1,2) r3(1) ElfNew w
    by (intro exI [of _ r4] exI [of _ ch]) (simp add: dp_read_value_def cx_read_value_def plan_beta_def)
qed

lemma dp_next_sample_spec:
  assumes lg: "log10_ok lg" and at: "dp_at d st (cs_bits lg st s @ ys)" and t: "is_i64 (timestamp s)"
    and n: "dp_count d < dp_sample_count d"
  shows "\<exists>d'. dp_next_sample lg d = Inr (Some (s, d')) \<and> dp_at d' (cs_next lg st s) ys \<and> dp_count d' = dp_count d + 1 \<and>
    dp_sample_count d' = dp_sample_count d"
proof -
  let ?plan = "elf_plan lg st (val s)"
  obtain r where r: "dp_read_timestamp d = Inr (timestamp s, d\<lparr>dp_reader := r, dp_last_timestamp := timestamp s,
      dp_last_delta := (if cs_started st then i64 (timestamp s - cs_ts st) else 0)\<rparr>)" "br_inv r"
    "br_bits r = elf_bits (cs_enc st) (val s) ?plan @ ys"
    using dp_read_timestamp_spec [of d st "timestamp s" "elf_bits (cs_enc st) (val s) ?plan @ ys"] at t
    by (auto simp: cs_bits_def)
  define d1 where "d1 = d\<lparr>dp_reader := r, dp_last_timestamp := timestamp s,
      dp_last_delta := (if cs_started st then i64 (timestamp s - cs_ts st) else 0)\<rparr>"
  have f: "dp_last_value d1 = cs_value st" "dp_last_beta_star d1 = cs_beta st" "chimp_sync (cs_enc st) (dp_chimp d1)"
    "cs_started st \<longrightarrow> \<not> ce_first (cs_enc st)" "br_inv (dp_reader d1)"
    "br_bits (dp_reader d1) = elf_bits (cs_enc st) (val s) ?plan @ ys"
    using at r by (simp_all add: dp_at_def d1_def)
  obtain r2 ch where r2: "dp_read_value lg d1 = Inr (val s, d1\<lparr>dp_reader := r2, dp_chimp := ch, dp_last_value := val s,
      dp_last_beta_star := plan_beta (cs_beta st) ?plan\<rparr>)" "br_inv r2" "br_bits r2 = ys"
    "chimp_sync (elf_enc (cs_enc st) (val s) ?plan) ch"
    using dp_read_value_spec [OF lg f(5,6,1-4)] by blast
  have "\<not> ce_first (elf_enc (cs_enc st) (val s) ?plan)"
    using elf_plan_ok(1) [OF lg, of st "val s"] f(4) by (intro elf_enc_started) blast
  moreover have "is_i64 0" by (simp add: is_i64_def i64_min_def i64_max_def)
  ultimately show ?thesis using r(1) r2 n
    by (simp add: dp_next_sample_def d1_def [symmetric] sample_collapse)
      (simp add: dp_at_def d1_def cs_next_def Let_def i64_range)
qed

lemma ci_items_spec:
  assumes lg: "log10_ok lg"
  shows "dp_at (ci_inner it) st (cs_tail lg st ss @ ys) \<Longrightarrow> \<forall>s\<in>set ss. is_i64 (timestamp s) \<Longrightarrow>
    ci_num_samples it = ci_idx it + length ss \<Longrightarrow> dp_count (ci_inner it) = ci_idx it \<Longrightarrow>
    dp_sample_count (ci_inner it) = ci_num_samples it \<Longrightarrow> ci_items lg it = map Inr ss"
proof (induction ss arbitrary: it st)
  case Nil
  then show ?case by (subst ci_items.simps) (simp add: ci_next_def)
next
  case (Cons s ss)
  obtain d where d: "dp_next_sample lg (ci_inner it) = Inr (Some (s, d))" "dp_at d (cs_next lg st s) (cs_tail lg (cs_next lg st s) ss @ ys)"
    "dp_count d = dp_count (ci_inner it) + 1" "dp_sample_count d = dp_sample_count (ci_inner it)"
    using dp_next_sample_spec [OF lg, of "ci_inner it" st s "cs_tail lg (cs_next lg st s) ss @ ys"] Cons.prems by auto
  define it1 where "it1 = it\<lparr>ci_inner := d, ci_idx := ci_idx it + 1\<rparr>"
  have "ci_next lg it = Some (Inr (s, it1))" using d(1) Cons.prems(3) by (simp add: ci_next_def it1_def)
  moreover have "ci_items lg it1 = map Inr ss"
    using Cons.IH [of it1 "cs_next lg st s"] Cons.prems d by (simp add: it1_def)
  ultimately show ?case by (subst ci_items.simps) simp
qed

text \<open>The round trip: the iterator gives back every sample, in order.\<close>

lemma chimp_holds_iter:
  assumes lg: "log10_ok lg" and h: "chimp_holds lg c xs"
  shows "cp_iter lg c = map Inr xs"
proof -
  obtain pad where "br_bits (br_new (cp_bytes c)) = cs_tail lg cs_init xs @ pad"
    using h by (auto simp: chimp_holds_def bs_rel_def cp_bytes_def)
  moreover have "is_i64 0" by (simp add: is_i64_def i64_min_def i64_max_def)
  ultimately have "dp_at (ci_inner (ci_new c)) cs_init (cs_tail lg cs_init xs @ pad)"
    by (simp add: dp_at_def ci_new_def dp_new_def cs_init_def chimp_sync_new)
  from ci_items_spec [OF lg this] show ?thesis using h
    by (simp add: cp_iter_def ci_new_def dp_new_def chimp_holds_def)
qed

end
