(* ===== verification/Log10_Ref.thy ===== *)
theory Log10_Ref
  imports Elf64_Bounds
begin

text \<open>
  A decimal logarithm that satisfies \<open>log10_ok\<close>: it returns the decimal exponent of a positive value.
  The theorems that assume an accurate \<open>log10\<close> are instantiated with it.
\<close>


text \<open>The decimal exponent of a positive value, as an integer \<open>f64\<close>.\<close>

definition log10_num :: "f64 \<Rightarrow> nat" where
  "log10_num v = f64_sig v * 2 ^ nat (f64_exp2 v)"

definition log10_den :: "f64 \<Rightarrow> nat" where
  "log10_den v = 2 ^ nat (- f64_exp2 v)"

definition log10_ref :: "f64 \<Rightarrow> f64" where
  "log10_ref v =
     (if log10_den v \<le> log10_num v
      then (case find (\<lambda>k. log10_num v < 10 ^ (k + 1) * log10_den v) [0..<309] of Some k \<Rightarrow> f64_of_int (int k) | None \<Rightarrow> 0)
      else (case find (\<lambda>k. log10_den v \<le> log10_num v * 10 ^ k) [1..<325] of Some k \<Rightarrow> f64_neg (f64_of_int (int k)) | None \<Rightarrow> 0))"

lemma fv_quotient: "fv v = real (log10_num v) / real (log10_den v)"
  by (cases "0 \<le> f64_exp2 v") (simp_all add: fv_def log10_num_def log10_den_def power_int_def power_one_over)

lemma as_i32_of_int:
  assumes "n < 2 ^ 31"
  shows "f64_as_i32 (f64_floor (f64_of_int (int n))) = int n"
    "0 < n \<Longrightarrow> f64_as_i32 (f64_floor (f64_neg (f64_of_int (int n)))) = - int n"
proof -
  define x where "x = f64_of_int (int n)"
  have x: "x = f64_round_pack False n 0" by (simp add: x_def f64_of_int_def)
  have r: "fv x = real n" "is_finite x" "\<not> f64_sign x" if "0 < n"
    using fv_of_nat [of n] that assms by (simp_all add: x)
  have neg: "fv (f64_neg x) = fv x" by (simp add: fv_mag_value)
  have part: "int (f64_int_part y) = int n \<and> \<not> f64_has_fract y" if "fv y = real n" for y
    using that by (simp add: int_part_floor has_fract_iff)
  show "f64_as_i32 (f64_floor x) = int n"
  proof (cases "n = 0")
    case True
    then have "x = 0" by (simp add: x f64_round_pack_def)
    then show ?thesis using True by (simp add: f64_floor_def f64_as_i32_def f64_trunc_clamp_def is_nan_def is_infinite_def
      f64_int_part_def f64_has_fract_def f64_sig_def magnitude_fields f64_exp2_def)
  next
    case False
    then show ?thesis using r part [of x] assms
      by (simp add: f64_floor_def f64_as_i32_def f64_trunc_clamp_def is_finite_def is_nan_def is_infinite_def)
  qed
  show "f64_as_i32 (f64_floor (f64_neg x)) = - int n" if "0 < n"
    using that r part [of "f64_neg x"] neg assms
    by (simp add: f64_floor_def f64_as_i32_def f64_trunc_clamp_def is_finite_def is_nan_def is_infinite_def)
qed


lemma exponent_bounds: "f64_pos v \<Longrightarrow> fv v < 10 ^ 309" "f64_pos v \<Longrightarrow> 1 \<le> fv v * 10 ^ 324"
proof -
  assume v: "f64_pos v"
  have "f64_exponent v < 2047"
    unfolding magnitude_fields using v by (intro less_mult_imp_div_less) (simp add: f64_pos_def is_finite_def)
  then have "fv v < 2 powi f64_lead v" "f64_lead v \<le> 1024"
    using fv_lead [OF f64_pos_facts(4) [OF v]] f64_lead_le [of v] by auto
  then have "fv v < 2 powi 1024" using powi_le_iff [of "f64_lead v" 1024] by linarith
  then have "fv v < 2 ^ 1024" by (simp only: power_int_numeral)
  then show "fv v < 10 ^ 309" by (rule less_trans) simp
  define b :: real where "b = 2 powi (- 1074)"
  have b: "b \<le> fv v" unfolding b_def by (rule fv_ge_least [OF f64_pos_facts(4) [OF v]])
  have "b * 2 ^ 1074 = 1" by (simp add: b_def power_int_minus)
  then have "1 \<le> b * 10 ^ 324" by (simp add: field_simps)
  also have "\<dots> \<le> fv v * 10 ^ 324" using b by (intro mult_right_mono) simp_all
  finally show "1 \<le> fv v * 10 ^ 324" .
qed

lemma sp_okI: "10 powi k \<le> fv v \<Longrightarrow> fv v \<le> 10 powi (k + 1) \<Longrightarrow> sp_ok v k"
  unfolding sp_ok_def using zero_less_power_int [of "10::real" k] zero_less_power_int [of "10::real" "k + 1"] by linarith

lemma find_upt_exists:
  assumes "a \<le> n" "n < b" "P n"
  shows "\<exists>k. find P [a..<b] = Some k \<and> a \<le> k \<and> k \<le> n \<and> P k \<and> (\<forall>j. a \<le> j \<and> j < k \<longrightarrow> \<not> P j)"
proof (cases "find P [a..<b]")
  case None
  then show ?thesis using assms by (auto simp: find_None_iff)
next
  case (Some k)
  note k = find_upt_Some [OF Some]
  have "k \<le> n" using k(4) [of n] assms by linarith
  then show ?thesis using Some k by blast
qed

lemma log10_ref_ok: "log10_ok log10_ref"
  unfolding log10_ok_def
proof (intro allI impI)
  fix v assume v: "f64_pos v"
  define n d where "n = log10_num v" and "d = log10_den v"
  have d: "0 < d" by (simp add: d_def log10_den_def)
  have fv: "fv v = real n / real d" by (simp add: fv_quotient n_def d_def)
  have cmp: "n < 10 ^ k * d \<longleftrightarrow> fv v < 10 ^ k" "d \<le> n * 10 ^ k \<longleftrightarrow> 1 \<le> fv v * 10 ^ k" for k
  proof -
    have "fv v < 10 ^ k \<longleftrightarrow> real n < real (10 ^ k * d)" using d by (simp add: fv pos_divide_less_eq)
    then show "n < 10 ^ k * d \<longleftrightarrow> fv v < 10 ^ k" by (simp only: of_nat_less_iff)
    have "1 \<le> fv v * 10 ^ k \<longleftrightarrow> real d \<le> real (n * 10 ^ k)" using d by (simp add: fv pos_le_divide_eq)
    then show "d \<le> n * 10 ^ k \<longleftrightarrow> 1 \<le> fv v * 10 ^ k" by (simp only: of_nat_le_iff)
  qed
  show "sp_ok v (f64_as_i32 (f64_floor (log10_ref v)))"
  proof (cases "d \<le> n")
    case True
    have "n < 10 ^ (308 + 1) * d" using exponent_bounds(1) [OF v] by (simp only: cmp(1)) simp
    then obtain k where k: "find (\<lambda>k. n < 10 ^ (k + 1) * d) [0..<309] = Some k" "k \<le> 308" "n < 10 ^ (k + 1) * d"
      "\<forall>j. 0 \<le> j \<and> j < k \<longrightarrow> \<not> n < 10 ^ (j + 1) * d"
      using find_upt_exists [of 0 308 309 "\<lambda>k. n < 10 ^ (k + 1) * d"] by auto
    have "10 ^ k \<le> fv v"
    proof (cases k)
      case 0
      then show ?thesis using True cmp(2) [of 0] by simp
    next
      case (Suc j)
      then show ?thesis using k(4) cmp(1) [of "j + 1"] by (auto simp: not_less)
    qed
    moreover have "fv v < 10 ^ (k + 1)" using k(3) cmp(1) by blast
    ultimately have "sp_ok v (int k)" by (intro sp_okI) (simp_all add: power_int_add)
    moreover have "log10_ref v = f64_of_int (int k)" using True k(1) by (simp add: log10_ref_def n_def d_def)
    ultimately show ?thesis using as_i32_of_int(1) [of k] k(2) by simp
  next
    case False
    have "d \<le> n * 10 ^ 324" using exponent_bounds(2) [OF v] by (simp only: cmp(2))
    then obtain k where k: "find (\<lambda>k. d \<le> n * 10 ^ k) [1..<325] = Some k" "1 \<le> k" "k \<le> 324" "d \<le> n * 10 ^ k"
      "\<forall>j. 1 \<le> j \<and> j < k \<longrightarrow> \<not> d \<le> n * 10 ^ j"
      using find_upt_exists [of 1 324 325 "\<lambda>k. d \<le> n * 10 ^ k"] by auto
    have lo: "10 powi (- int k) \<le> fv v" using k(4) cmp(2) [of k] by (simp add: power_int_minus divide_simps mult.commute)
    have "fv v * 10 ^ (k - 1) < 1"
    proof (cases "k = 1")
      case True
      then show ?thesis using False cmp(2) [of 0] by simp
    next
      case False
      then have "1 \<le> k - 1" "k - 1 < k" using k(2) by linarith+
      then show ?thesis using k(5) cmp(2) [of "k - 1"] by (meson not_le)
    qed
    then have "fv v \<le> 10 powi (- int (k - 1))" by (simp add: power_int_minus divide_simps)
    also have "- int (k - 1) = - int k + 1" using k(2) by simp
    finally have "fv v \<le> 10 powi (- int k + 1)" .
    with lo have "sp_ok v (- int k)" by (rule sp_okI)
    moreover have "log10_ref v = f64_neg (f64_of_int (int k))" using False k(1) by (simp add: log10_ref_def n_def d_def)
    ultimately show ?thesis using as_i32_of_int(2) [of k] k(2,3) by simp
  qed
qed

end
