(* ===== verification/Chimp_Chunk.thy ===== *)
theory Chimp_Chunk
  imports Chimp Log10_Ref
begin

text \<open>
  \<open>src/series/chunks/chimp/chimp_chunk.rs\<close>: the chunk over the Chimp compressor. For an accurate
  \<open>log10\<close> (locale \<open>chimp_log\<close>) the compressor is a \<open>seq_codec\<close>, so the chunk fulfils the contract of
  every chunk; the serialized form is read back.
\<close>

section \<open>The codec\<close>

definition cp_push_sample :: "(f64 \<Rightarrow> f64) \<Rightarrow> sample \<Rightarrow> chimp_compressor \<Rightarrow> chimp_compressor tsdb_result" where
  "cp_push_sample lg s c = map_err (\<lambda>_. CannotAddSample s) (cp_add lg s c)"

definition chimp_codec :: "(f64 \<Rightarrow> f64) \<Rightarrow> chimp_compressor codec" where
  "chimp_codec lg = \<lparr>cd_new = cp_with_soft_cap, cd_push = cp_push_sample lg, cd_iter = cp_iter lg, cd_count = cp_count,
     cd_first = cp_first_timestamp, cd_last = cp_last_timestamp, cd_last_value = cp_last_value, cd_data_size = length \<circ> cp_bytes,
     cd_clear = cp_clear\<rparr>"

section \<open>Definitions\<close>

type_synonym chimp_chunk = "chimp_compressor codec_chunk"

definition cc_with_max_size :: "nat \<Rightarrow> chimp_chunk" where
  "cc_with_max_size sz = \<lparr>encoder = cp_with_soft_cap sz, max_size = sz\<rparr>"

definition cc_len :: "chimp_chunk \<Rightarrow> nat" where
  "cc_len c = cp_count (encoder c)"

definition cc_first_timestamp :: "chimp_chunk \<Rightarrow> timestamp" where
  "cc_first_timestamp c = cp_first_timestamp (encoder c)"

definition cc_last_timestamp :: "chimp_chunk \<Rightarrow> timestamp" where
  "cc_last_timestamp c = cp_last_timestamp (encoder c)"

definition cc_last_value :: "chimp_chunk \<Rightarrow> f64" where
  "cc_last_value c = cp_last_value (encoder c)"

definition cc_data_size :: "chimp_chunk \<Rightarrow> nat" where
  "cc_data_size c = length (cp_bytes (encoder c))"

definition cc_compression_ratio :: "chimp_chunk \<Rightarrow> f64" where
  "cc_compression_ratio c =
     (if cc_len c = 0 then 0
      else
        let compressed_size = cc_data_size c in
        if compressed_size = 0 then 0
        else f64_div (f64_of_int (int (cc_len c * (8 + 8)))) (f64_of_int (int compressed_size)))"

definition cc_remaining_capacity :: "chimp_chunk \<Rightarrow> nat" where
  "cc_remaining_capacity c = max_size c - cc_data_size c"

definition cc_bytes_per_sample :: "chimp_chunk \<Rightarrow> nat" where
  "cc_bytes_per_sample c =
     (if cc_len c < MIN_SAMPLES_FOR_BPS_ESTIMATE then SAMPLE_SIZE div 2 else max (cc_data_size c div cc_len c) 1)"

definition cc_remaining_samples :: "chimp_chunk \<Rightarrow> nat" where
  "cc_remaining_samples c = (if cc_len c = 0 then 0 else cc_remaining_capacity c div cc_bytes_per_sample c)"

definition cc_is_full :: "chimp_chunk \<Rightarrow> bool" where
  "cc_is_full c \<longleftrightarrow> max_size c \<le> length (cp_bytes (encoder c))"

definition cc_clear :: "chimp_chunk \<Rightarrow> chimp_chunk" where
  "cc_clear c = c\<lparr>encoder := cp_clear (encoder c)\<rparr>"

definition cc_compress :: "(f64 \<Rightarrow> f64) \<Rightarrow> chimp_chunk \<Rightarrow> sample list \<Rightarrow> chimp_chunk tsdb_result" where
  "cc_compress lg = kc_compress (chimp_codec lg)"

definition cc_range_iter :: "(f64 \<Rightarrow> f64) \<Rightarrow> chimp_chunk \<Rightarrow> timestamp \<Rightarrow> timestamp \<Rightarrow> sample list" where
  "cc_range_iter lg = kc_range_iter (chimp_codec lg)"

definition cc_iter :: "(f64 \<Rightarrow> f64) \<Rightarrow> chimp_chunk \<Rightarrow> sample list" where
  "cc_iter lg = kc_iter (chimp_codec lg)"

definition cc_remove_range :: "(f64 \<Rightarrow> f64) \<Rightarrow> chimp_chunk \<Rightarrow> timestamp \<Rightarrow> timestamp \<Rightarrow> (nat \<times> chimp_chunk) tsdb_result" where
  "cc_remove_range lg = kc_remove_range (chimp_codec lg)"

definition cc_add_sample :: "(f64 \<Rightarrow> f64) \<Rightarrow> sample \<Rightarrow> chimp_chunk \<Rightarrow> chimp_chunk tsdb_result" where
  "cc_add_sample lg = kc_add_sample (chimp_codec lg)"

definition cc_get_range :: "(f64 \<Rightarrow> f64) \<Rightarrow> chimp_chunk \<Rightarrow> timestamp \<Rightarrow> timestamp \<Rightarrow> sample list tsdb_result" where
  "cc_get_range lg = kc_get_range (chimp_codec lg)"

definition cc_upsert_sample :: "(f64 \<Rightarrow> f64) \<Rightarrow> chimp_chunk \<Rightarrow> sample \<Rightarrow> duplicate_policy \<Rightarrow> (nat \<times> chimp_chunk) tsdb_result" where
  "cc_upsert_sample lg = kc_upsert_sample (chimp_codec lg)"

definition cc_merge_samples :: "(f64 \<Rightarrow> f64) \<Rightarrow> chimp_chunk \<Rightarrow> sample list \<Rightarrow> duplicate_policy option \<Rightarrow> sample_add_result list tsdb_result \<times> chimp_chunk" where
  "cc_merge_samples lg = kc_merge_samples (chimp_codec lg)"

definition cc_set_data :: "(f64 \<Rightarrow> f64) \<Rightarrow> chimp_chunk \<Rightarrow> sample list \<Rightarrow> chimp_chunk tsdb_result" where
  "cc_set_data lg = kc_set_data (chimp_codec lg)"

definition cc_split :: "(f64 \<Rightarrow> f64) \<Rightarrow> chimp_chunk \<Rightarrow> (chimp_chunk \<times> chimp_chunk) tsdb_result" where
  "cc_split lg = kc_split (chimp_codec lg)"

definition cc_serialize :: "chimp_chunk \<Rightarrow> u8 list \<Rightarrow> u8 list" where
  "cc_serialize c dest = cp_serialize (encoder c) (write_uvarint dest (word_of_nat (max_size c)))"

definition cc_deserialize :: "u8 list \<Rightarrow> chimp_chunk tsdb_result" where
  "cc_deserialize buf =
     bindR (map_err (\<lambda>_. ChunkDecoding) (try_read_uvarint buf)) (\<lambda>(sz, buf1).
     bindR (cp_deserialize buf1) (\<lambda>e.
       Inr \<lparr>encoder = cp_set_soft_cap (unat sz) e, max_size = unat sz\<rparr>))"

section \<open>The contract\<close>

definition chimp_rel :: "(f64 \<Rightarrow> f64) \<Rightarrow> chimp_compressor \<Rightarrow> sample list \<Rightarrow> bool" where
  "chimp_rel lg c xs \<longleftrightarrow> valid_samples xs \<and> chimp_holds lg c xs"

lemma cs_fields_last:
  "xs \<noteq> [] \<Longrightarrow> cs_ts (foldl (cs_next lg) st xs) = timestamp (List.last xs) \<and> cs_value (foldl (cs_next lg) st xs) = val (List.last xs)"
  by (induction xs rule: rev_induct) (simp_all add: cs_next_def Let_def)

lemma chimp_holds_last:
  assumes "chimp_holds lg c xs" "xs \<noteq> []"
  shows "cp_last_timestamp c = timestamp (List.last xs)" "cp_last_value c = val (List.last xs)"
proof -
  have "cp_state c = foldl (cs_next lg) cs_init xs" using assms by (simp add: chimp_holds_def)
  then have "cs_ts (cp_state c) = timestamp (List.last xs)" "cs_value (cp_state c) = val (List.last xs)"
    using cs_fields_last [OF assms(2)] by simp_all
  then show "cp_last_timestamp c = timestamp (List.last xs)" "cp_last_value c = val (List.last xs)"
    by (simp_all add: cp_state_def)
qed

text \<open>What the codec relies on from the platform.\<close>

locale chimp_log =
  fixes lg :: "f64 \<Rightarrow> f64"
  assumes accurate: "log10_ok lg"

sublocale chimp_log \<subseteq> cpc: seq_codec "chimp_codec lg" "chimp_rel lg"
proof (unfold_locales, goal_cases)
  case (2 e xs s)
  then have "is_i64 (timestamp s)" "chimp_holds lg e xs" by (simp_all add: valid_samples_append chimp_rel_def)
  then show ?case using chimp_holds_add [OF accurate, of e xs s] 2(2)
    by (auto simp: chimp_codec_def cp_push_sample_def chimp_rel_def)
next
  case (3 e xs)
  then show ?case using chimp_holds_iter [OF accurate] by (simp add: chimp_codec_def chimp_rel_def)
qed (auto simp: chimp_codec_def chimp_rel_def chimp_holds_new chimp_holds_last, simp_all add: chimp_holds_def)

interpretation cref: chimp_log log10_ref
  by unfold_locales (rule log10_ref_ok)

lemma cc_as_kc:
  "cc_with_max_size = kc_with_max_size (chimp_codec lg)" "cc_len = kc_len (chimp_codec lg)"
  "cc_first_timestamp = kc_first_timestamp (chimp_codec lg)" "cc_last_timestamp = kc_last_timestamp (chimp_codec lg)"
  "cc_last_value = kc_last_value (chimp_codec lg)" "cc_is_full = kc_is_full (chimp_codec lg)"
  "cc_clear = kc_clear (chimp_codec lg)"
  by (simp_all add: fun_eq_iff cc_with_max_size_def kc_with_max_size_def cc_len_def kc_len_def cc_first_timestamp_def
      kc_first_timestamp_def cc_last_timestamp_def kc_last_timestamp_def cc_last_value_def kc_last_value_def
      cc_is_full_def kc_is_full_def cc_clear_def kc_clear_def chimp_codec_def)

lemma cc_sizes_as_kc:
  "cc_data_size = kc_data_size (chimp_codec lg)" "cc_remaining_capacity = kc_remaining_capacity (chimp_codec lg)"
  "cc_bytes_per_sample = kc_bytes_per_sample (chimp_codec lg)" "cc_remaining_samples = kc_remaining_samples (chimp_codec lg)"
  by (simp_all add: fun_eq_iff cc_data_size_def kc_data_size_def cc_remaining_capacity_def kc_remaining_capacity_def
      cc_bytes_per_sample_def kc_bytes_per_sample_def cc_remaining_samples_def kc_remaining_samples_def
      cc_len_def kc_len_def chimp_codec_def Let_def)

definition cc_inv :: "(f64 \<Rightarrow> f64) \<Rightarrow> chimp_chunk \<Rightarrow> bool" where
  "cc_inv lg = kc_inv (chimp_codec lg) (chimp_rel lg)"

definition cc_samples :: "(f64 \<Rightarrow> f64) \<Rightarrow> chimp_chunk \<Rightarrow> sample list" where
  "cc_samples lg = kc_samples (chimp_codec lg)"

lemmas cc_ops = cc_get_range_def cc_remove_range_def cc_add_sample_def cc_upsert_sample_def cc_merge_samples_def
  cc_set_data_def cc_split_def cc_inv_def cc_samples_def

sublocale chimp_log \<subseteq> ccc: chunk_contract "cc_inv lg" "cc_samples lg" cc_len cc_first_timestamp cc_last_timestamp
  cc_last_value cc_is_full "cc_remove_range lg" "cc_add_sample lg" "cc_get_range lg" "cc_upsert_sample lg"
  "cc_merge_samples lg" cc_clear "cc_set_data lg" "cc_split lg"
  unfolding cc_ops cc_as_kc [of lg] by (rule cpc.chunk_contract_axioms)

context chimp_log
begin

lemma new_chunk: "cc_inv lg (cc_with_max_size sz)" "cc_samples lg (cc_with_max_size sz) = []"
  using cpc.inv_of_rel [OF cpc.rel_new, of sz "cc_with_max_size sz"]
  by (simp_all add: cc_inv_def cc_samples_def cc_with_max_size_def chimp_codec_def)

lemma merges:
  "cc_inv lg c \<Longrightarrow> valid_samples ys \<Longrightarrow> length ys \<noteq> 1 \<Longrightarrow>
   \<exists>rs c'. cc_merge_samples lg c ys dp = (Inr rs, c') \<and> cc_inv lg c' \<and>
     cc_samples lg c' = list_merge (case dp of None \<Rightarrow> KeepLast | Some q \<Rightarrow> q) (cc_samples lg c) ys \<and>
     list_all2 same_outcome rs (map (merge_outcome (case dp of None \<Rightarrow> KeepLast | Some q \<Rightarrow> q) (smap (cc_samples lg c))) ys)"
  by (rule ccc.merge [OF _ _ _ refl]) simp_all

lemma iterates: "cc_inv lg c \<Longrightarrow> cc_iter lg c = cc_samples lg c"
  by (simp add: cc_inv_def cc_iter_def cc_samples_def cpc.iter_eq)

end

section \<open>Serialization\<close>

definition is_i32 :: "int \<Rightarrow> bool" where
  "is_i32 x \<longleftrightarrow> - 2147483648 \<le> x \<and> x \<le> 2147483647"

lemma i32_id [simp]: "is_i32 x \<Longrightarrow> i32 x = x"
  by (simp add: is_i32_def i32_def signed_take_bit_int_eq_self_iff)

lemma is_i32_is_i64: "is_i32 x \<Longrightarrow> is_i64 x"
  by (simp add: is_i32_def is_i64_def i64_min_def i64_max_def)

text \<open>The state of a compressor is within the widths of its fields.\<close>

definition cs_widths :: "chimp_state \<Rightarrow> bool" where
  "cs_widths st \<longleftrightarrow> is_i32 (cs_beta st) \<and> is_i32 (ce_stored_lz (cs_enc st)) \<and> is_i64 (cs_ts st) \<and> is_i64 (cs_delta st)"

lemma ce_next_lz: "is_i32 (ce_stored_lz e) \<Longrightarrow> is_i32 (ce_stored_lz (ce_next e v))"
proof -
  assume e: "is_i32 (ce_stored_lz e)"
  have "is_i32 (int (chimp_lz x))" if "x \<noteq> 0" for x using chimp_lz_facts(2) [OF that] by (simp add: is_i32_def)
  moreover have "is_i32 65" by (simp add: is_i32_def)
  ultimately show ?thesis using e by (simp add: ce_next_def Let_def)
qed

lemma cs_next_widths:
  assumes lg: "log10_ok lg" and st: "cs_widths st" and t: "is_i64 (timestamp s)"
  shows "cs_widths (cs_next lg st s)"
proof -
  let ?plan = "elf_plan lg st (val s)"
  have "is_i32 (plan_beta (cs_beta st) ?plan)"
    using st elf_plan_ok(3) [OF lg, of st "val s"] by (cases ?plan) (auto simp: plan_beta_def cs_widths_def is_i32_def)
  moreover have "is_i32 (ce_stored_lz (elf_enc (cs_enc st) (val s) ?plan))"
    using st by (cases ?plan) (auto simp: cs_widths_def ce_next_lz, simp add: is_i32_def)
  moreover have "is_i64 0" by (simp add: is_i64_def i64_min_def i64_max_def)
  ultimately show ?thesis using t by (simp add: cs_widths_def cs_next_def Let_def i64_range)
qed

lemma chimp_holds_widths:
  assumes lg: "log10_ok lg" and h: "chimp_holds lg c xs"
  shows "is_i32 (cp_last_beta_star c)" "is_i32 (ce_stored_lz (cp_chimp c))" "is_i64 (cp_last_timestamp c)"
    "is_i64 (cp_last_delta c)" "is_i64 (cp_first_timestamp c)"
proof -
  have z: "is_i64 0" by (simp add: is_i64_def i64_min_def i64_max_def)
  then have "cs_widths cs_init" by (simp add: cs_widths_def cs_init_def ce_new_def i32_max_def is_i32_def)
  then have "cs_widths (foldl (cs_next lg) cs_init xs)" if "\<forall>s\<in>set xs. is_i64 (timestamp s)"
    using that by (induction xs rule: rev_induct) (auto intro: cs_next_widths [OF lg])
  then have "cs_widths (cp_state c)" using h by (simp add: chimp_holds_def)
  then show "is_i32 (cp_last_beta_star c)" "is_i32 (ce_stored_lz (cp_chimp c))" "is_i64 (cp_last_timestamp c)"
    "is_i64 (cp_last_delta c)" by (simp_all add: cs_widths_def cp_state_def)
  show "is_i64 (cp_first_timestamp c)" using h z by (cases xs) (auto simp: chimp_holds_def)
qed

lemma write_signed_varint_bytes: "write_signed_varint buf t = buf @ write_uvarint [] (zigzag_encode t)"
  by (cases "buf = []") (simp_all add: write_signed_varint_def write_uvarint_normal)

lemma cp_serialize_bytes:
  "cp_serialize c buf = buf @ write_uvarint [] (word_of_nat (cp_count c)) @ write_uvarint [] (zigzag_encode (cp_first_timestamp c))
     @ write_uvarint [] (zigzag_encode (cp_last_timestamp c)) @ write_uvarint [] (zigzag_encode (cp_last_delta c))
     @ to_le_bytes (cp_last_value c) @ write_uvarint [] (zigzag_encode (cp_last_beta_star c))
     @ write_uvarint [] (zigzag_encode (ce_stored_lz (cp_chimp c))) @ write_uvarint [] (ce_stored_val (cp_chimp c))
     @ write_uvarint [] (of_bool (ce_first (cp_chimp c))) @ bs_serialize (cp_writer c) []"
  unfolding cp_serialize_def Let_def write_f64_le_def write_u64_le_def write_signed_varint_bytes
  by (subst bs_serialize_append) (simp add: write_uvarint_normal)

lemma cp_read_fields:
  "cp_read_uvarint (write_uvarint [] u @ rest) = Inr (u, rest)"
  "is_i64 t \<Longrightarrow> cp_read_signed_varint (write_uvarint [] (zigzag_encode t) @ rest) = Inr (t, rest)"
  by (simp_all add: cp_read_uvarint_def cp_read_signed_varint_def try_read_signed_varint_def)

lemma cp_deserialize_serialize:
  assumes lg: "log10_ok lg" and h: "chimp_holds lg c xs" and n: "cp_count c < 2 ^ 64" "length (cp_bytes c) < 2 ^ 64"
  shows "\<exists>w. cp_deserialize (cp_serialize c []) = Inr (c\<lparr>cp_writer := w\<rparr>) \<and> bs_eq w (cp_writer c)"
proof -
  note wid = chimp_holds_widths [OF lg h]
  have "bs_rel (cp_writer c) (cs_tail lg cs_init xs)" using h by (simp add: chimp_holds_def)
  from bs_rel_wf [OF this] obtain w where w: "bs_deserialize (bs_serialize (cp_writer c) []) = Inr (w, [])" "bs_eq w (cp_writer c)"
    using bs_deserialize_serialize [of "cp_writer c" "[]"] n(2) by (auto simp: cp_bytes_def)
  have "cp_deserialize (cp_serialize c []) = Inr (c\<lparr>cp_writer := w\<rparr>)"
    unfolding cp_serialize_bytes cp_deserialize_def
    by (simp add: cp_read_fields try_read_f64_le_def wid is_i32_is_i64 w(1) unat_word_of_nat_64 [OF n(1)])
  then show ?thesis using w(2) by blast
qed

lemma cc_deserialize_serialize:
  assumes lg: "log10_ok lg" and inv: "cc_inv lg c" and sizes: "max_size c < 2 ^ 64" "cc_len c < 2 ^ 64" "cc_data_size c < 2 ^ 64"
  shows "cc_deserialize (cc_serialize c []) = Inr (c\<lparr>encoder := cp_set_soft_cap (max_size c) (encoder c)\<rparr>)"
proof -
  have h: "chimp_holds lg (encoder c) (cc_samples lg c)"
    using inv by (simp add: cc_inv_def kc_inv_def chimp_rel_def cc_samples_def)
  obtain w where w: "cp_deserialize (cp_serialize (encoder c) []) = Inr ((encoder c)\<lparr>cp_writer := w\<rparr>)"
    "bs_eq w (cp_writer (encoder c))"
    using cp_deserialize_serialize [OF lg h sizes(2,3) [unfolded cc_len_def cc_data_size_def]] by blast
  have "cc_serialize c [] = write_uvarint [] (word_of_nat (max_size c)) @ cp_serialize (encoder c) []"
    by (simp add: cc_serialize_def cp_serialize_bytes)
  moreover have "unat (word_of_nat (max_size c) :: u64) = max_size c" using sizes(1) by (rule unat_word_of_nat_64)
  moreover have "cp_set_soft_cap (max_size c) ((encoder c)\<lparr>cp_writer := w\<rparr>) = cp_set_soft_cap (max_size c) (encoder c)"
    using w(2) by (simp add: cp_set_soft_cap_def bs_set_soft_cap_def bs_eq_def)
  ultimately show ?thesis using w(1) by (simp add: cc_deserialize_def)
qed

section \<open>Properties\<close>

lemma chimp_fold:
  assumes lg: "log10_ok lg" and "\<forall>s\<in>set ys. is_i64 (timestamp s)" "chimp_holds lg c xs"
  shows "\<exists>c'. foldR (cp_add lg) ys c = Inr c' \<and> chimp_holds lg c' (xs @ ys)"
  using assms(2,3)
proof (induction ys arbitrary: c xs)
  case (Cons y ys)
  obtain c1 where "cp_add lg y c = Inr c1" "chimp_holds lg c1 (xs @ [y])"
    using chimp_holds_add [OF lg Cons.prems(2)] Cons.prems(1) by auto
  then show ?case using Cons.IH [of c1 "xs @ [y]"] Cons.prems(1) by simp
qed simp

text \<open>C5: With an accurate \<open>log10\<close>, the Chimp compressor accepts any list of samples whose timestamps are
  \<open>i64\<close> values, in any order and with any bit pattern as value, and its iterator returns exactly
  those samples: erasing mantissa bits, the repeat marker and the wrapping deltas lose nothing.\<close>

theorem chimp_roundtrip:
  assumes "log10_ok lg" "\<forall>s\<in>set xs. is_i64 (timestamp s)"
  shows "\<exists>c. foldR (cp_add lg) xs (cp_with_soft_cap sz) = Inr c \<and> cp_count c = length xs \<and> cp_iter lg c = map Inr xs"
  using chimp_fold [OF assms chimp_holds_new(1)] chimp_holds_iter [OF assms(1)] by (fastforce simp: chimp_holds_def)

theorem chimp_roundtrip_witness:
  "\<exists>c. foldR (cp_add log10_ref) [sample_new 50 0x3FB999999999999A, sample_new (- 7) 0x3FB999999999999A, sample_new 9 0x7FF8000000000001]
      (cp_with_soft_cap 4096) = Inr c \<and> cp_count c = 3 \<and>
     cp_iter log10_ref c = map Inr [sample_new 50 0x3FB999999999999A, sample_new (- 7) 0x3FB999999999999A, sample_new 9 0x7FF8000000000001]"
  using chimp_roundtrip [OF log10_ref_ok,
      of "[sample_new 50 0x3FB999999999999A, sample_new (- 7) 0x3FB999999999999A, sample_new 9 0x7FF8000000000001]" 4096]
  by (simp add: is_i64_def i64_min_def i64_max_def eval_nat_numeral)





text \<open>C24: Serializing a well-formed Chimp chunk and deserializing the bytes gives the same chunk, with its
  growth limit set from the stored maximum size.\<close>

theorem chimp_chunk_serialize:
  assumes "log10_ok lg" "cc_inv lg c" "max_size c < 2 ^ 64" "cc_len c < 2 ^ 64" "cc_data_size c < 2 ^ 64"
  shows "cc_deserialize (cc_serialize c []) = Inr (c\<lparr>encoder := cp_set_soft_cap (max_size c) (encoder c)\<rparr>)"
  using assms by (rule cc_deserialize_serialize)

theorem chimp_chunk_serialize_witness:
  "cc_deserialize (cc_serialize (cc_with_max_size 4096) []) =
     Inr ((cc_with_max_size 4096)\<lparr>encoder := cp_set_soft_cap 4096 (encoder (cc_with_max_size 4096))\<rparr>)"
  using chimp_chunk_serialize [OF log10_ref_ok cref.new_chunk(1) [of 4096]]
  by (simp add: cc_with_max_size_def cc_len_def cc_data_size_def cp_with_soft_cap_def cp_set_soft_cap_def cp_new_def cp_bytes_def
      bs_set_soft_cap_def bs_new_def)

end
