(* ===== verification/Timeseries_Chunk.thy ===== *)
theory Timeseries_Chunk
  imports Uncompressed Gorilla_Chunk Chimp_Chunk F64_Real
begin

text \<open>
  \<open>src/series/chunks/timeseries_chunk.rs\<close>: the enum over the three chunk encodings, whose methods
  dispatch to the encodings, and the reads built on them. \<open>lg\<close> is the platform's \<open>log10\<close>, which only
  the Chimp encoding uses. The enum meets the contract of its variants.
\<close>

section \<open>The enum\<close>

datatype timeseries_chunk =
    UncompressedC uncompressed_chunk
  | GorillaC gorilla_chunk
  | ChimpC chimp_chunk

definition tsc_new :: "chunk_encoding \<Rightarrow> nat \<Rightarrow> timeseries_chunk" where
  "tsc_new compression chunk_size =
     (case compression of
        EncUncompressed \<Rightarrow> UncompressedC (uc_with_max_size chunk_size)
      | EncGorilla \<Rightarrow> GorillaC (gc_with_max_size chunk_size)
      | EncChimp \<Rightarrow> ChimpC (cc_with_max_size chunk_size))"

definition tsc_default :: timeseries_chunk where
  "tsc_default = UncompressedC uc_default"

fun tsc_get_encoding :: "timeseries_chunk \<Rightarrow> chunk_encoding" where
  "tsc_get_encoding (UncompressedC c) = EncUncompressed"
| "tsc_get_encoding (GorillaC c) = EncGorilla"
| "tsc_get_encoding (ChimpC c) = EncChimp"

fun tsc_is_compressed :: "timeseries_chunk \<Rightarrow> bool" where
  "tsc_is_compressed (UncompressedC c) = False"
| "tsc_is_compressed _ = True"

text \<open>The dispatched methods of \<open>ChunkOps\<close>.\<close>

fun tsc_first_timestamp :: "timeseries_chunk \<Rightarrow> timestamp" where
  "tsc_first_timestamp (UncompressedC c) = uc_first_timestamp c"
| "tsc_first_timestamp (GorillaC c) = gc_first_timestamp c"
| "tsc_first_timestamp (ChimpC c) = cc_first_timestamp c"

fun tsc_last_timestamp :: "timeseries_chunk \<Rightarrow> timestamp" where
  "tsc_last_timestamp (UncompressedC c) = uc_last_timestamp c"
| "tsc_last_timestamp (GorillaC c) = gc_last_timestamp c"
| "tsc_last_timestamp (ChimpC c) = cc_last_timestamp c"

fun tsc_len :: "timeseries_chunk \<Rightarrow> nat" where
  "tsc_len (UncompressedC c) = uc_len c"
| "tsc_len (GorillaC c) = gc_len c"
| "tsc_len (ChimpC c) = cc_len c"

definition tsc_is_empty :: "timeseries_chunk \<Rightarrow> bool" where
  "tsc_is_empty c \<longleftrightarrow> tsc_len c = 0"

fun tsc_last_value :: "timeseries_chunk \<Rightarrow> f64" where
  "tsc_last_value (UncompressedC c) = uc_last_value c"
| "tsc_last_value (GorillaC c) = gc_last_value c"
| "tsc_last_value (ChimpC c) = cc_last_value c"

fun tsc_size :: "timeseries_chunk \<Rightarrow> nat" where
  "tsc_size (UncompressedC c) = uc_size c"
| "tsc_size (GorillaC c) = gc_data_size c"
| "tsc_size (ChimpC c) = cc_data_size c"

fun tsc_max_size :: "timeseries_chunk \<Rightarrow> nat" where
  "tsc_max_size (UncompressedC c) = uc_max_size c"
| "tsc_max_size (GorillaC c) = max_size c"
| "tsc_max_size (ChimpC c) = max_size c"

fun tsc_bytes_per_sample :: "timeseries_chunk \<Rightarrow> nat" where
  "tsc_bytes_per_sample (UncompressedC c) = uc_bytes_per_sample c"
| "tsc_bytes_per_sample (GorillaC c) = gc_bytes_per_sample c"
| "tsc_bytes_per_sample (ChimpC c) = cc_bytes_per_sample c"

fun tsc_is_full :: "timeseries_chunk \<Rightarrow> bool" where
  "tsc_is_full (UncompressedC c) = uc_is_full c"
| "tsc_is_full (GorillaC c) = gc_is_full c"
| "tsc_is_full (ChimpC c) = cc_is_full c"

fun tsc_remove_range ::
  "(f64 \<Rightarrow> f64) \<Rightarrow> timeseries_chunk \<Rightarrow> timestamp \<Rightarrow> timestamp \<Rightarrow> (nat \<times> timeseries_chunk) tsdb_result" where
  "tsc_remove_range lg (UncompressedC c) a b = map_ok (map_prod id UncompressedC) (uc_remove_range c a b)"
| "tsc_remove_range lg (GorillaC c) a b = map_ok (map_prod id GorillaC) (gc_remove_range c a b)"
| "tsc_remove_range lg (ChimpC c) a b = map_ok (map_prod id ChimpC) (cc_remove_range lg c a b)"

fun tsc_add_sample :: "(f64 \<Rightarrow> f64) \<Rightarrow> sample \<Rightarrow> timeseries_chunk \<Rightarrow> timeseries_chunk tsdb_result" where
  "tsc_add_sample lg s (UncompressedC c) = map_ok UncompressedC (uc_add_sample s c)"
| "tsc_add_sample lg s (GorillaC c) = map_ok GorillaC (gc_add_sample s c)"
| "tsc_add_sample lg s (ChimpC c) = map_ok ChimpC (cc_add_sample lg s c)"

fun tsc_get_range :: "(f64 \<Rightarrow> f64) \<Rightarrow> timeseries_chunk \<Rightarrow> timestamp \<Rightarrow> timestamp \<Rightarrow> sample list tsdb_result" where
  "tsc_get_range lg (UncompressedC c) a b = uc_get_range c a b"
| "tsc_get_range lg (GorillaC c) a b = gc_get_range (\<lambda>_. True) c a b"
| "tsc_get_range lg (ChimpC c) a b = cc_get_range lg c a b"

fun tsc_upsert_sample ::
  "(f64 \<Rightarrow> f64) \<Rightarrow> timeseries_chunk \<Rightarrow> sample \<Rightarrow> duplicate_policy \<Rightarrow> (nat \<times> timeseries_chunk) tsdb_result" where
  "tsc_upsert_sample lg (UncompressedC c) s p = map_ok (map_prod id UncompressedC) (uc_upsert_sample c s p)"
| "tsc_upsert_sample lg (GorillaC c) s p = map_ok (map_prod id GorillaC) (gc_upsert_sample c s p)"
| "tsc_upsert_sample lg (ChimpC c) s p = map_ok (map_prod id ChimpC) (cc_upsert_sample lg c s p)"

fun tsc_merge_samples ::
  "(f64 \<Rightarrow> f64) \<Rightarrow> timeseries_chunk \<Rightarrow> sample list \<Rightarrow> duplicate_policy option
   \<Rightarrow> sample_add_result list tsdb_result \<times> timeseries_chunk" where
  "tsc_merge_samples lg (UncompressedC c) ys dp = map_prod id UncompressedC (uc_merge_samples c ys dp)"
| "tsc_merge_samples lg (GorillaC c) ys dp = map_prod id GorillaC (gc_merge_samples c ys dp)"
| "tsc_merge_samples lg (ChimpC c) ys dp = map_prod id ChimpC (cc_merge_samples lg c ys dp)"

fun tsc_clear :: "timeseries_chunk \<Rightarrow> timeseries_chunk" where
  "tsc_clear (UncompressedC c) = UncompressedC (uc_clear c)"
| "tsc_clear (GorillaC c) = GorillaC (gc_clear c)"
| "tsc_clear (ChimpC c) = ChimpC (cc_clear c)"

fun tsc_set_data :: "(f64 \<Rightarrow> f64) \<Rightarrow> timeseries_chunk \<Rightarrow> sample list \<Rightarrow> timeseries_chunk tsdb_result" where
  "tsc_set_data lg (UncompressedC c) ys = map_ok UncompressedC (uc_set_data c ys)"
| "tsc_set_data lg (GorillaC c) ys = map_ok GorillaC (gc_set_data c ys)"
| "tsc_set_data lg (ChimpC c) ys = map_ok ChimpC (cc_set_data lg c ys)"

fun tsc_split :: "(f64 \<Rightarrow> f64) \<Rightarrow> timeseries_chunk \<Rightarrow> (timeseries_chunk \<times> timeseries_chunk) tsdb_result" where
  "tsc_split lg (UncompressedC c) = map_ok (map_prod UncompressedC UncompressedC) (uc_split c)"
| "tsc_split lg (GorillaC c) = map_ok (map_prod GorillaC GorillaC) (gc_split c)"
| "tsc_split lg (ChimpC c) = map_ok (map_prod ChimpC ChimpC) (cc_split lg c)"

fun tsc_iter :: "(f64 \<Rightarrow> f64) \<Rightarrow> timeseries_chunk \<Rightarrow> sample list" where
  "tsc_iter lg (UncompressedC c) = uc_samples c"
| "tsc_iter lg (GorillaC c) = gc_iter c"
| "tsc_iter lg (ChimpC c) = cc_iter lg c"

fun tsc_range_iter :: "(f64 \<Rightarrow> f64) \<Rightarrow> timeseries_chunk \<Rightarrow> timestamp \<Rightarrow> timestamp \<Rightarrow> sample list" where
  "tsc_range_iter lg (UncompressedC c) a b = uc_range_iter c a b"
| "tsc_range_iter lg (GorillaC c) a b = gc_range_iter c a b"
| "tsc_range_iter lg (ChimpC c) a b = cc_range_iter lg c a b"

section \<open>Capacity\<close>

definition SPLIT_FACTOR :: f64 where
  "SPLIT_FACTOR = 0x3FF3333333333333"

definition tsc_utilization :: "timeseries_chunk \<Rightarrow> f64" where
  "tsc_utilization c =
     (let total = tsc_max_size c in
      if total = 0 then 0 else f64_div (f64_of_int (int (tsc_size c))) (f64_of_int (int total)))"

definition tsc_should_split :: "timeseries_chunk \<Rightarrow> bool" where
  "tsc_should_split c \<longleftrightarrow> f64_le SPLIT_FACTOR (tsc_utilization c)"

definition tsc_estimate_remaining_sample_capacity :: "timeseries_chunk \<Rightarrow> nat" where
  "tsc_estimate_remaining_sample_capacity c =
     (let used = tsc_size c; total = tsc_max_size c in
      if total \<le> used then 0
      else
        let remaining = total - used; bytes_per_sample = tsc_bytes_per_sample c in
        if bytes_per_sample = 0 then 0 else remaining div bytes_per_sample)"

section \<open>Reads and writes on the enum\<close>

definition tsc_is_timestamp_in_range :: "timeseries_chunk \<Rightarrow> timestamp \<Rightarrow> bool" where
  "tsc_is_timestamp_in_range c ts \<longleftrightarrow> tsc_first_timestamp c \<le> ts \<and> ts \<le> tsc_last_timestamp c"

definition tsc_is_contained_by_range :: "timeseries_chunk \<Rightarrow> timestamp \<Rightarrow> timestamp \<Rightarrow> bool" where
  "tsc_is_contained_by_range c start_ts end_ts \<longleftrightarrow> start_ts \<le> tsc_first_timestamp c \<and> tsc_last_timestamp c \<le> end_ts"

definition tsc_overlaps :: "timeseries_chunk \<Rightarrow> timestamp \<Rightarrow> timestamp \<Rightarrow> bool" where
  "tsc_overlaps c start_time end_time \<longleftrightarrow> tsc_first_timestamp c \<le> end_time \<and> start_time \<le> tsc_last_timestamp c"

definition tsc_has_samples_in_range :: "(f64 \<Rightarrow> f64) \<Rightarrow> timeseries_chunk \<Rightarrow> timestamp \<Rightarrow> timestamp \<Rightarrow> bool" where
  "tsc_has_samples_in_range lg c start_time end_time \<longleftrightarrow>
     (if tsc_is_empty c \<or> \<not> tsc_overlaps c start_time end_time then False
      else tsc_range_iter lg c start_time end_time \<noteq> [])"

text \<open>The inner \<open>while\<close> of \<open>samples_by_timestamps\<close>: from \<open>index\<close>, whose timestamp is below the
  sample's, to the next index, and whether the sample was pushed.\<close>

function sbt_advance :: "timestamp list \<Rightarrow> timestamp \<Rightarrow> nat \<Rightarrow> timestamp \<Rightarrow> nat \<times> timestamp \<times> bool" where
  "sbt_advance tss ts index first_ts =
     (if index + 1 < length tss \<and> first_ts < ts then
        let index1 = index + 1; first_ts1 = tss ! index1 in
        if first_ts1 = ts then (index1 + 1, first_ts1, True)
        else sbt_advance tss ts index1 first_ts1
      else (index, first_ts, False))"
  by auto
termination
  by (relation "measure (\<lambda>(tss, _, index, _). length tss - index)") auto

declare sbt_advance.simps [simp del]

primrec sbt_loop :: "timestamp list \<Rightarrow> sample list \<Rightarrow> nat \<Rightarrow> sample list \<Rightarrow> sample list" where
  "sbt_loop tss [] index samples = samples"
| "sbt_loop tss (s # ss) index samples =
     (if length tss \<le> index then samples
      else
        let first_ts = tss ! index in
        if timestamp s < first_ts then sbt_loop tss ss index samples
        else if timestamp s = first_ts then sbt_loop tss ss (index + 1) (samples @ [s])
        else
          case sbt_advance tss (timestamp s) index first_ts of
            (index1, first_ts1, matched) \<Rightarrow>
              let samples1 = (if matched then samples @ [s] else samples) in
              if \<not> matched \<and> index1 < length tss \<and> first_ts1 = timestamp s
              then sbt_loop tss ss (index1 + 1) (samples1 @ [s])
              else sbt_loop tss ss index1 samples1)"

definition tsc_samples_by_timestamps :: "(f64 \<Rightarrow> f64) \<Rightarrow> timeseries_chunk \<Rightarrow> timestamp list \<Rightarrow> sample list tsdb_result" where
  "tsc_samples_by_timestamps lg c tss =
     (if tsc_len c = 0 \<or> tss = [] then Inr []
      else
        let first_timestamp = max (tss ! 0) (tsc_first_timestamp c);
            last_timestamp = min (tss ! (length tss - 1)) (tsc_last_timestamp c)
        in Inr (sbt_loop tss (tsc_range_iter lg c first_timestamp last_timestamp) 0 []))"

definition tsc_merge_range ::
  "(f64 \<Rightarrow> f64) \<Rightarrow> timeseries_chunk \<Rightarrow> sample list \<Rightarrow> duplicate_policy option \<Rightarrow> nat tsdb_result \<times> timeseries_chunk" where
  "tsc_merge_range lg c samples dp =
     (if tsc_is_full c then (Inr 0, c)
      else case tsc_merge_samples lg c samples dp of
          (Inl e, c1) \<Rightarrow> (Inl e, c1)
        | (Inr res, c1) \<Rightarrow> (Inr (length (filter add_result_is_ok res)), c1))"

definition tsc_upsert ::
  "(f64 \<Rightarrow> f64) \<Rightarrow> timeseries_chunk \<Rightarrow> sample \<Rightarrow> duplicate_policy \<Rightarrow> (nat \<times> sample_add_result) \<times> timeseries_chunk" where
  "tsc_upsert lg c s p =
     (case tsc_upsert_sample lg c s p of
        Inr (sz, c1) \<Rightarrow> ((sz, AddOk s), c1)
      | Inl (DuplicateSample _) \<Rightarrow> ((0, AddDuplicate), c)
      | Inl _ \<Rightarrow> ((0, AddError CANNOT_ADD_SAMPLE), c))"

definition tsc_last_sample :: "timeseries_chunk \<Rightarrow> sample option" where
  "tsc_last_sample c =
     (if tsc_is_empty c then None
      else Some \<lparr>timestamp = tsc_last_timestamp c, val = tsc_last_value c\<rparr>)"

text \<open>\<open>PartialOrd\<close>.\<close>

definition tsc_partial_cmp :: "timeseries_chunk \<Rightarrow> timeseries_chunk \<Rightarrow> ordering" where
  "tsc_partial_cmp a b = cmp_int (tsc_first_timestamp a) (tsc_first_timestamp b)"

section \<open>Filtered reads\<close>

text \<open>\<open>TimestampFilter\<close> of \<open>src/iterators/utils.rs\<close>.\<close>

definition TIMESTAMP_FILTER_INLINE_THRESHOLD :: nat where
  "TIMESTAMP_FILTER_INLINE_THRESHOLD = 16"

datatype timestamp_filter = TFSet "timestamp set" | TFList "timestamp list"

definition tf_new :: "timestamp list \<Rightarrow> timestamp_filter" where
  "tf_new tss = (if TIMESTAMP_FILTER_INLINE_THRESHOLD < length tss then TFSet (set tss) else TFList tss)"

fun tf_matches :: "timestamp_filter \<Rightarrow> timestamp \<Rightarrow> bool" where
  "tf_matches (TFSet tset) ts \<longleftrightarrow> ts \<in> tset"
| "tf_matches (TFList tlist) ts \<longleftrightarrow> ts \<in> set tlist"

text \<open>\<open>src/iterators/filtered_sample_iterator.rs\<close>: the iterator's fields, and \<open>next\<close>, which gives the
  sample and what is left of the inner iterator.\<close>

record filtered_sample_iterator =
  fsi_inner :: "sample list"
  fsi_value_filter :: "value_filter option"
  fsi_ts_filter :: "timestamp_filter option"
  fsi_first_ts :: timestamp
  fsi_last_ts :: timestamp

definition fsi_new :: "sample list \<Rightarrow> value_filter option \<Rightarrow> timestamp list option \<Rightarrow> filtered_sample_iterator" where
  "fsi_new inner vf tsf =
     (let (first_ts, last_ts) = (case tsf of Some tss \<Rightarrow> if tss \<noteq> [] then (tss ! 0, tss ! (length tss - 1)) else (0, 0)
        | None \<Rightarrow> (0, 0))
      in \<lparr>fsi_inner = inner, fsi_value_filter = vf, fsi_ts_filter = map_option tf_new tsf,
          fsi_first_ts = first_ts, fsi_last_ts = last_ts\<rparr>)"

fun fsi_next_loop :: "filtered_sample_iterator \<Rightarrow> sample list \<Rightarrow> (sample \<times> sample list) option" where
  "fsi_next_loop it [] = None"
| "fsi_next_loop it (s # ss) =
     (let value_ok = (case fsi_value_filter it of None \<Rightarrow> True | Some vf \<Rightarrow> vf_is_match vf (val s));
          accept = (if value_ok then Some (s, ss) else fsi_next_loop it ss)
      in case fsi_ts_filter it of
           None \<Rightarrow> accept
         | Some f \<Rightarrow>
             if timestamp s < fsi_first_ts it then fsi_next_loop it ss
             else if fsi_last_ts it < timestamp s then None
             else if \<not> tf_matches f (timestamp s) then fsi_next_loop it ss
             else accept)"

lemma fsi_next_loop_shorter: "fsi_next_loop it ss = Some (s, rest) \<Longrightarrow> length rest < length ss"
proof (induction ss)
  case (Cons x ss)
  then show ?case by (auto simp: Let_def less_Suc_eq split: if_splits option.splits)
qed simp

text \<open>The samples a consumer gets, up to the first \<open>None\<close>.\<close>

function fsi_items :: "filtered_sample_iterator \<Rightarrow> sample list" where
  "fsi_items it = (case fsi_next_loop it (fsi_inner it) of None \<Rightarrow> []
     | Some (s, rest) \<Rightarrow> s # fsi_items (it\<lparr>fsi_inner := rest\<rparr>))"
  by auto
termination
  by (relation "measure (\<lambda>it. length (fsi_inner it))") (auto dest: fsi_next_loop_shorter)

declare fsi_items.simps [simp del]

definition tsc_filtered_iter ::
  "(f64 \<Rightarrow> f64) \<Rightarrow> timeseries_chunk \<Rightarrow> timestamp \<Rightarrow> timestamp \<Rightarrow> timestamp list option \<Rightarrow> value_filter option \<Rightarrow> filtered_sample_iterator" where
  "tsc_filtered_iter lg c start_ts end_ts tsf vf =
     (let (a, b) = (case tsf of
          Some tss \<Rightarrow> if tss = [] then (start_ts, end_ts) else (max start_ts (tss ! 0), min end_ts (tss ! (length tss - 1)))
        | None \<Rightarrow> (start_ts, end_ts))
      in fsi_new (tsc_range_iter lg c a b) vf tsf)"

section \<open>Serialization\<close>

fun tsc_serialize :: "timeseries_chunk \<Rightarrow> u8 list \<Rightarrow> u8 list" where
  "tsc_serialize (UncompressedC c) dest = uc_serialize c (dest @ [encoding_as_u8 EncUncompressed])"
| "tsc_serialize (GorillaC c) dest = gc_serialize c (dest @ [encoding_as_u8 EncGorilla])"
| "tsc_serialize (ChimpC c) dest = cc_serialize c (dest @ [encoding_as_u8 EncChimp])"

definition tsc_deserialize :: "u8 list \<Rightarrow> timeseries_chunk tsdb_result" where
  "tsc_deserialize buf =
     (if buf = [] then Inl (DecodingError ''Empty buffer deserializing chunk'')
      else bindR (map_err General (encoding_from_u8 (hd buf))) (\<lambda>chunk_type.
        case chunk_type of
          EncUncompressed \<Rightarrow> map_ok UncompressedC (uc_deserialize (tl buf))
        | EncGorilla \<Rightarrow> map_ok GorillaC (gc_deserialize (tl buf))
        | EncChimp \<Rightarrow> map_ok ChimpC (cc_deserialize (tl buf))))"

section \<open>The contract\<close>

fun tsc_inv :: "(f64 \<Rightarrow> f64) \<Rightarrow> timeseries_chunk \<Rightarrow> bool" where
  "tsc_inv lg (UncompressedC c) = uc_inv c"
| "tsc_inv lg (GorillaC c) = gc_inv c"
| "tsc_inv lg (ChimpC c) = cc_inv lg c"

fun tsc_samples :: "(f64 \<Rightarrow> f64) \<Rightarrow> timeseries_chunk \<Rightarrow> sample list" where
  "tsc_samples lg (UncompressedC c) = uc_samples c"
| "tsc_samples lg (GorillaC c) = gc_samples c"
| "tsc_samples lg (ChimpC c) = cc_samples lg c"

text \<open>An enum of three chunk types that meet the contract meets it.\<close>

sublocale chimp_log \<subseteq> tc: chunk_contract "tsc_inv lg" "tsc_samples lg" tsc_len tsc_first_timestamp tsc_last_timestamp
  tsc_last_value tsc_is_full "tsc_remove_range lg" "tsc_add_sample lg" "tsc_get_range lg" "tsc_upsert_sample lg"
  "tsc_merge_samples lg" tsc_clear "tsc_set_data lg" "tsc_split lg"
proof (unfold_locales, goal_cases)
  case (1 c)
  then show ?case by (cases c) (auto simp: ucc.valid gcc.valid ccc.valid)
next
  case (2 c)
  then show ?case by (cases c) (auto simp: ucc.len gcc.len ccc.len)
next
  case (3 c)
  then show ?case by (cases c) (auto simp: ucc.first gcc.first ccc.first)
next
  case (4 c)
  then show ?case by (cases c) (auto simp: ucc.last gcc.last ccc.last)
next
  case (5 c)
  then show ?case by (cases c) (auto simp: ucc.last_value gcc.last_value ccc.last_value)
next
  case (6 c a b)
  then show ?case using ucc.remove_range [of _ a b] gcc.remove_range [of _ a b] ccc.remove_range [of _ a b]
    by (cases c) force+
next
  case (7 c a b)
  then show ?case by (cases c) (auto simp: ucc.get_range gcc.get_range ccc.get_range)
next
  case (8 c s)
  then show ?case using ucc.add_sample [of _ s] gcc.add_sample [of _ s] ccc.add_sample [of _ s] by (cases c) force+
next
  case (9 c s p xs)
  then show ?case using ucc.upsert_ok [of _ s p xs] gcc.upsert_ok [of _ s p xs] ccc.upsert_ok [of _ s p xs]
    by (cases c) force+
next
  case (10 c s p e)
  then show ?case by (cases c) (auto simp: ucc.upsert_err gcc.upsert_err ccc.upsert_err)
next
  case (11 c s p n c')
  then show ?case
    by (cases c) (auto simp: map_ok_eq_Inr_iff dest: ucc.upsert_sound gcc.upsert_sound ccc.upsert_sound)
next
  case (12 c ys p dp)
  show ?case
  proof (cases c)
    case (UncompressedC u)
    then obtain rs u' where "uc_merge_samples u ys dp = (Inr rs, u')" "uc_inv u'" "uc_samples u' = list_merge p (uc_samples u) ys"
      "list_all2 same_outcome rs (map (merge_outcome p (smap (uc_samples u))) ys)"
      using 12 ucc.merge [of u ys p dp] by auto
    then show ?thesis using UncompressedC by (intro exI [of _ rs] exI [of _ "UncompressedC u'"]) simp
  next
    case (GorillaC u)
    then obtain rs u' where "gc_merge_samples u ys dp = (Inr rs, u')" "gc_inv u'" "gc_samples u' = list_merge p (gc_samples u) ys"
      "list_all2 same_outcome rs (map (merge_outcome p (smap (gc_samples u))) ys)"
      using 12 gcc.merge [of u ys p dp] by auto
    then show ?thesis using GorillaC by (intro exI [of _ rs] exI [of _ "GorillaC u'"]) simp
  next
    case (ChimpC u)
    then obtain rs u' where "cc_merge_samples lg u ys dp = (Inr rs, u')" "cc_inv lg u'"
      "cc_samples lg u' = list_merge p (cc_samples lg u) ys"
      "list_all2 same_outcome rs (map (merge_outcome p (smap (cc_samples lg u))) ys)"
      using 12 ccc.merge [of u ys p dp] by auto
    then show ?thesis using ChimpC by (intro exI [of _ rs] exI [of _ "ChimpC u'"]) simp
  qed
next
  case (13 c)
  then show ?case by (cases c) (auto simp: ucc.clear gcc.clear ccc.clear)
next
  case (14 c ys)
  then show ?case using ucc.set_data [of _ ys] gcc.set_data [of _ ys] ccc.set_data [of _ ys] by (cases c) force+
next
  case (15 c)
  then show ?case using ucc.split gcc.split ccc.split by (cases c) force+
qed

section \<open>The size limit\<close>

text \<open>No operation changes a chunk's size limit.\<close>

lemma append_samples_loop_keeps:
  assumes "\<And>s c c'. add s c = Inr c' \<Longrightarrow> f c' = f c"
  shows "append_samples_loop add ss rs c = (r, c') \<Longrightarrow> f c' = f c"
proof (induction ss arbitrary: rs c)
  case (Cons s ss)
  show ?case
  proof (cases "add s c")
    case (Inr c1)
    then show ?thesis using Cons assms [OF Inr] by simp
  qed (use Cons in \<open>auto split: tsdb_error.splits\<close>)
qed simp

lemma kc_max_size:
  "kc_add_sample cd s c = Inr c' \<Longrightarrow> max_size c' = max_size c"
  "kc_remove_range cd c a b = Inr (n, c') \<Longrightarrow> max_size c' = max_size c"
  "kc_upsert_sample cd c s p = Inr (n, c') \<Longrightarrow> max_size c' = max_size c"
  "kc_merge_samples cd c ys dp = (r, c') \<Longrightarrow> max_size c' = max_size c"
  "kc_split cd c = Inr (c', d) \<Longrightarrow> max_size c' = max_size c \<and> max_size d = max_size c"
  "max_size (kc_clear cd c) = max_size c"
proof -
  show add: "kc_add_sample cd s c = Inr c' \<Longrightarrow> max_size c' = max_size c" for s c c'
    by (auto simp: map_ok_eq_Inr_iff kc_add_sample_def)
  show "kc_remove_range cd c a b = Inr (n, c') \<Longrightarrow> max_size c' = max_size c"
    by (auto simp: map_ok_eq_Inr_iff kc_remove_range_def Let_def split: if_splits)
  show "kc_upsert_sample cd c s p = Inr (n, c') \<Longrightarrow> max_size c' = max_size c"
    by (auto simp: map_ok_eq_Inr_iff kc_upsert_sample_def Let_def bindR_eq_Inr_iff split: if_splits prod.splits dest: add)
  show "kc_merge_samples cd c ys dp = (r, c') \<Longrightarrow> max_size c' = max_size c"
    using append_samples_loop_keeps [of "kc_add_sample cd" max_size, OF add]
    by (fastforce simp: map_ok_eq_Inr_iff kc_merge_samples_def append_samples_def split: if_splits sum.splits)
  show "kc_split cd c = Inr (c', d) \<Longrightarrow> max_size c' = max_size c \<and> max_size d = max_size c"
    by (auto simp: map_ok_eq_Inr_iff kc_split_def kc_with_max_size_def Let_def split: if_splits)
  show "max_size (kc_clear cd c) = max_size c" by (simp add: kc_clear_def)
qed

text \<open>The sizes a chunk is made with, which no operation changes.\<close>

definition uc_limits :: "uncompressed_chunk \<Rightarrow> nat \<times> nat" where
  "uc_limits c = (uc_max_size c, uc_max_elements c)"

fun tsc_limits :: "timeseries_chunk \<Rightarrow> nat \<times> nat" where
  "tsc_limits (UncompressedC c) = uc_limits c"
| "tsc_limits (GorillaC c) = (max_size c, max_size c)"
| "tsc_limits (ChimpC c) = (max_size c, max_size c)"

lemma tsc_max_size_limits: "tsc_max_size c = fst (tsc_limits c)"
  by (cases c) (simp_all add: uc_limits_def)

lemma uc_limits:
  "uc_add_sample s c = Inr c' \<Longrightarrow> uc_limits c' = uc_limits c"
  "uc_remove_range c a b = Inr (n, c') \<Longrightarrow> uc_limits c' = uc_limits c"
  "uc_upsert_sample c s p = Inr (n, c') \<Longrightarrow> uc_limits c' = uc_limits c"
  "uc_merge_samples c ys dp = (r, c') \<Longrightarrow> uc_limits c' = uc_limits c"
  "uc_split c = Inr (c', d) \<Longrightarrow> uc_limits c' = uc_limits c \<and> uc_limits d = uc_limits c"
  "uc_limits (uc_clear c) = uc_limits c"
proof -
  show add: "uc_add_sample s c = Inr c' \<Longrightarrow> uc_limits c' = uc_limits c" for s c c'
    by (auto simp: uc_limits_def map_ok_eq_Inr_iff uc_add_sample_def split: if_splits)
  show "uc_remove_range c a b = Inr (n, c') \<Longrightarrow> uc_limits c' = uc_limits c"
    by (auto simp: uc_limits_def map_ok_eq_Inr_iff uc_remove_range_def Let_def split: option.splits)
  have "uc_handle_insert c s p = Inr c' \<Longrightarrow> uc_limits c' = uc_limits c" for c s p c'
    by (auto simp: uc_limits_def map_ok_eq_Inr_iff uc_handle_insert_def Let_def split: prod.splits if_splits)
  then show upsert: "uc_upsert_sample c s p = Inr (n, c') \<Longrightarrow> uc_limits c' = uc_limits c" for c s p n c'
    by (auto simp: uc_limits_def map_ok_eq_Inr_iff uc_upsert_sample_def Let_def split: if_splits dest: add)
  show "uc_merge_samples c ys dp = (r, c') \<Longrightarrow> uc_limits c' = uc_limits c"
    using upsert add
    by (fastforce simp: uc_limits_def map_ok_eq_Inr_iff uc_merge_samples_def Let_def split: if_splits sum.splits tsdb_error.splits)
  show "uc_split c = Inr (c', d) \<Longrightarrow> uc_limits c' = uc_limits c \<and> uc_limits d = uc_limits c"
    by (auto simp: uc_limits_def map_ok_eq_Inr_iff uc_split_def Let_def split: if_splits)
  show "uc_limits (uc_clear c) = uc_limits c" by (simp add: uc_limits_def uc_clear_def)
qed

lemmas tsc_size_defs = map_ok_eq_Inr_iff gc_add_sample_def gc_remove_range_def gc_upsert_sample_def gc_merge_samples_def
  gc_split_def gc_clear_def cc_add_sample_def cc_remove_range_def cc_upsert_sample_def cc_merge_samples_def cc_split_def
  cc_clear_def kc_max_size(6) uc_limits(6)

lemma tsc_limits:
  "tsc_add_sample lg s c = Inr c' \<Longrightarrow> tsc_limits c' = tsc_limits c"
  "tsc_remove_range lg c a b = Inr (n, c') \<Longrightarrow> tsc_limits c' = tsc_limits c"
  "tsc_upsert_sample lg c s p = Inr (n, c') \<Longrightarrow> tsc_limits c' = tsc_limits c"
  "tsc_merge_samples lg c ys dp = (r, c') \<Longrightarrow> tsc_limits c' = tsc_limits c"
  "tsc_split lg c = Inr (c', d) \<Longrightarrow> tsc_limits c' = tsc_limits c \<and> tsc_limits d = tsc_limits c"
  "tsc_limits (tsc_clear c) = tsc_limits c"
proof -
  show "tsc_add_sample lg s c = Inr c' \<Longrightarrow> tsc_limits c' = tsc_limits c"
    by (cases c) (auto simp: tsc_size_defs kc_max_size(1) uc_limits(1))
  show "tsc_remove_range lg c a b = Inr (n, c') \<Longrightarrow> tsc_limits c' = tsc_limits c"
    by (cases c) (auto simp: tsc_size_defs kc_max_size(2) uc_limits(2))
  show "tsc_upsert_sample lg c s p = Inr (n, c') \<Longrightarrow> tsc_limits c' = tsc_limits c"
    by (cases c) (auto simp: tsc_size_defs kc_max_size(3) uc_limits(3))
  have m: "map_prod id f x = (r, y) \<longleftrightarrow> (\<exists>z. x = (r, z) \<and> y = f z)" for f :: "'x \<Rightarrow> 'y" and x and r :: 'z and y
    by (cases x) auto
  show "tsc_merge_samples lg c ys dp = (r, c') \<Longrightarrow> tsc_limits c' = tsc_limits c"
    by (cases c) (auto simp: m tsc_size_defs kc_max_size(4) uc_limits(4))
  show "tsc_split lg c = Inr (c', d) \<Longrightarrow> tsc_limits c' = tsc_limits c \<and> tsc_limits d = tsc_limits c"
    by (cases c) (auto simp: tsc_size_defs kc_max_size(5) uc_limits(5))
  show "tsc_limits (tsc_clear c) = tsc_limits c" by (cases c) (simp_all add: tsc_size_defs)
qed

text \<open>One sample takes at most 19 bytes.\<close>

lemma uvarint_bits_length: "length (stream_bits (write_uvarint [] v)) \<le> 80"
proof -
  have "unat v < 2 ^ (7 * Suc 9)" by (rule less_trans [OF unsigned_less]) simp
  then have "length (write_uvarint [] v) \<le> Suc 9" by (rule write_uvarint_length)
  then show ?thesis by (simp add: length_stream_bits)
qed

lemma bs_rel_length: "bs_rel s bl \<Longrightarrow> 8 * length (stream s) < length bl + 8"
  unfolding bs_rel_def by (metis add_less_cancel_left length_append length_replicate length_stream_bits)

lemma gorilla_one_sample: "gorilla_rel e xs \<Longrightarrow> length xs \<le> 1 \<Longrightarrow> length (ge_buf e) \<le> 18"
proof -
  assume r: "gorilla_rel e xs" "length xs \<le> 1"
  then have "length (gorilla_bits xs) \<le> 144"
    using uvarint_bits_length by (cases xs) (auto simp: uvarint_bits_def)
  then show ?thesis using bs_rel_length [of "ge_writer e" "gorilla_bits xs"] r(1)
    by (simp add: gorilla_rel_def ge_buf_def)
qed

lemma chimp_one_sample: "chimp_holds lg c xs \<Longrightarrow> length xs \<le> 1 \<Longrightarrow> length (cp_bytes c) \<le> 19"
proof -
  assume r: "chimp_holds lg c xs" "length xs \<le> 1"
  have "length (elf_bits (cs_enc cs_init) v p) \<le> 70" for v p
    by (cases p) (simp_all add: cs_init_def chimp_code_def ce_new_def)
  then have "length (cs_tail lg cs_init xs) \<le> 150"
    using r(2) add_mono [OF uvarint_bits_length] by (cases xs) (fastforce simp: cs_bits_def cs_ts_bits_def cs_init_def)+
  then show ?thesis using bs_rel_length [of "cp_writer c" "cs_tail lg cs_init xs"] r(1)
    by (simp add: chimp_holds_def cp_bytes_def)
qed

lemma tsc_one_sample:
  assumes "tsc_inv lg c" "length (tsc_samples lg c) \<le> 1" shows "tsc_size c \<le> 19"
proof (cases c)
  case (UncompressedC u)
  then show ?thesis using assms by (simp add: uc_size_def SAMPLE_SIZE_def)
next
  case (GorillaC g)
  then have "gorilla_rel (encoder g) (gc_samples g)" using assms gor.inv_fields(1) by (simp add: gc_inv_def gc_samples_def)
  from gorilla_one_sample [OF this] show ?thesis using assms GorillaC
    by (simp add: gc_data_size_def kc_data_size_def gorilla_codec_def)
next
  case (ChimpC g)
  then have "chimp_holds lg (encoder g) (cc_samples lg g)" using assms
    by (simp add: cc_inv_def cc_samples_def kc_inv_def kc_samples_def chimp_rel_def)
  from chimp_one_sample [OF this] show ?thesis using assms ChimpC
    by (simp add: cc_data_size_def)
qed

text \<open>A chunk is only split once it has outgrown its limit, so with a valid limit both halves of a split get samples.\<close>

lemma split_factor: "f64_pos 0x3FF3333333333333" "11 / 10 \<le> fv 0x3FF3333333333333"
proof -
  have f: "f64_magnitude 0x3FF3333333333333 = 0x3FF3333333333333" "\<not> f64_sign 0x3FF3333333333333"
    "f64_exponent 0x3FF3333333333333 = 1023" "f64_mantissa 0x3FF3333333333333 = 0x3333333333333"
    by (simp_all add: numeral_fields)
  show v: "11 / 10 \<le> fv 0x3FF3333333333333"
    by (simp add: fv_def f64_sig_def f64_exp2_def f power_int_minus power_int_numeral field_simps)
  show "f64_pos 0x3FF3333333333333" by (simp add: f64_pos_def is_finite_def f)
qed

text \<open>So a quotient that is at least 1.2 has its numerator above its denominator.\<close>

lemma f64_ratio_above:
  assumes "f64_le 0x3FF3333333333333 (f64_div (f64_of_int (int a)) (f64_of_int (int b)))" "a < 2 ^ 53" "0 < b" "b < 2 ^ 53"
  shows "b < a"
proof (rule ccontr)
  assume "\<not> b < a"
  show False
  proof (cases "a = 0")
    case True
    then have z: "f64_of_int (int a) = 0" by (simp add: f64_of_int_def f64_round_pack_def)
    have p: "f64_pos (f64_of_int (int b))" using f64_of_nat_pos [OF assms(3,4)] by simp
    have "f64_div 0 y = 0" if "f64_pos y" for y
    proof -
      have "f64_sig 0 = 0" "\<not> is_nan 0" "\<not> is_infinite 0" "\<not> f64_sign 0"
        by (simp_all add: f64_sig_def magnitude_fields is_nan_def is_infinite_def)
      moreover have "\<not> f64_sign y" "f64_magnitude y \<noteq> 0" using that by (simp_all add: f64_pos_def)
      ultimately show ?thesis using f64_pos_facts(1,2) [OF that]
        unfolding f64_div_def Let_def by (simp add: f64_round_pack_def)
    qed
    from this [OF p] have "f64_div (f64_of_int (int a)) (f64_of_int (int b)) = 0" by (simp only: z)
    then show ?thesis using assms(1) split_factor
      by (simp add: f64_le_def f64_key_def f64_pos_def)
  next
    case False
    then obtain m e where m: "f64_div (f64_of_int (int a)) (f64_of_int (int b)) = f64_round_pack False m e" "0 < m"
      "real m * 2 powi e \<le> real a / real b + 2 powi (- 69)" "- 173 \<le> e"
      using f64_div_pos [of a b] assms(2-4) by auto
    have "real a / real b \<le> 1" using assms(3) \<open>\<not> b < a\<close> by simp
    moreover have "(2::real) powi (- 69) \<le> 1 / 1000" by (simp add: power_int_minus power_int_numeral field_simps)
    ultimately have up: "real m * 2 powi e \<le> 1001 / 1000" using m(3) by linarith
    have "(2::real) powi (int (bit_length m) + e - 1) < 2 powi 1" using bit_length_value(1) [OF m(2), of e] up by simp
    then have len: "int (bit_length m) + e \<le> 1" unfolding powi_less_iff by simp
    have "round_bits m e \<le> nat (1 + 1023) * 2 ^ 52" using len by (intro round_bits_less m(2)) simp_all
    then have "round_bits m e < 0x7FF0000000000000" by simp
    note r = round_pack_finite [OF m(2) this]
    define v where "v = real m * 2 powi e"
    have v: "0 < v" "v \<le> 1001 / 1000" using m(2) up by (simp_all add: v_def)
    have "\<bar>fv (f64_round_pack False m e) - v\<bar> \<le> v / 2 ^ 53"
      using round_relative [OF m(2), of e] m(4) unfolding r(5) v_def by simp
    moreover have "v / 2 ^ 53 \<le> v / 100" using v by (intro divide_left_mono) simp_all
    ultimately have "fv (f64_round_pack False m e) < 11 / 10" "0 < fv (f64_round_pack False m e)" using v by linarith+
    then have "f64_pos (f64_round_pack False m e)" using r by (intro f64_posI)
    then have "fv 0x3FF3333333333333 \<le> fv (f64_round_pack False m e)"
      using f64_pos_compare(3) [OF split_factor(1)] assms(1) m(1) by simp
    then show ?thesis using split_factor(2) \<open>fv (f64_round_pack False m e) < 11 / 10\<close> by simp
  qed
qed

lemma tsc_should_split_above:
  assumes "tsc_should_split c" "0 < tsc_max_size c" "tsc_max_size c < 2 ^ 53" "tsc_size c < 2 ^ 53"
  shows "tsc_max_size c < tsc_size c"
proof -
  have "tsc_utilization c = f64_div (f64_of_int (int (tsc_size c))) (f64_of_int (int (tsc_max_size c)))"
    using assms(2) unfolding tsc_utilization_def Let_def by (simp only: if_False less_not_refl2)
  then show ?thesis using f64_ratio_above [OF _ assms(4,2,3)] assms(1)
    unfolding tsc_should_split_def SPLIT_FACTOR_def by metis
qed

lemma tsc_should_split_two:
  assumes "tsc_should_split c" "tsc_inv lg c" "48 \<le> tsc_max_size c" "tsc_max_size c < 2 ^ 53"
  shows "2 \<le> length (tsc_samples lg c)"
proof (rule ccontr)
  assume "\<not> 2 \<le> length (tsc_samples lg c)"
  then have "tsc_size c \<le> 19" using tsc_one_sample [OF assms(2)] by simp
  moreover have "tsc_size c < 2 ^ 53" by (rule le_less_trans [OF calculation]) simp
  then have "tsc_max_size c < tsc_size c" using tsc_should_split_above [OF assms(1) _ assms(4)] assms(3) by linarith
  ultimately show False using assms(3) by linarith
qed

section \<open>Reads\<close>

lemma sbt_advance_spec:
  assumes "sorted_wrt (<) tss" "i < length tss" "tss ! i < ts" "sbt_advance tss ts i (tss ! i) = (j, f, m)"
  shows "m \<longleftrightarrow> ts \<in> set (drop i tss)" "\<not> m \<longrightarrow> f \<noteq> ts" "ts < t \<Longrightarrow> t \<in> set (drop i tss) \<longleftrightarrow> t \<in> set (drop j tss)"
proof -
  have "(m \<longleftrightarrow> ts \<in> set (drop i tss)) \<and> (\<not> m \<longrightarrow> f \<noteq> ts) \<and> (\<forall>t>ts. t \<in> set (drop i tss) \<longleftrightarrow> t \<in> set (drop j tss))"
    using assms(2-4)
  proof (induction "length tss - i" arbitrary: i)
    case (Suc k)
    have d: "drop i tss = tss ! i # drop (Suc i) tss" using Suc.prems(1) by (simp add: Cons_nth_drop_Suc)
    show ?case
    proof (cases "Suc i < length tss")
      case False
      then have "j = i" "f = tss ! i" "\<not> m" using Suc.prems by (subst (asm) sbt_advance.simps; simp)+
      moreover have "drop i tss = [tss ! i]" using False by (simp add: d)
      ultimately show ?thesis using Suc.prems(2) by simp
    next
      case True
      have d1: "drop (Suc i) tss = tss ! Suc i # drop (Suc (Suc i)) tss" using True by (simp add: Cons_nth_drop_Suc)
      have above: "\<forall>t\<in>set (drop (Suc (Suc i)) tss). tss ! Suc i < t"
        using assms(1) True by (metis d1 id_take_nth_drop sorted_wrt.simps(2) sorted_wrt_append sorted_wrt_drop)
      show ?thesis
      proof (cases "tss ! Suc i" ts rule: linorder_cases)
        case less
        then have "sbt_advance tss ts (Suc i) (tss ! Suc i) = (j, f, m)"
          using Suc.prems True by (subst (asm) sbt_advance.simps) simp
        from Suc.hyps(1) [OF _ True less this] Suc.hyps(2) show ?thesis using Suc.prems(2) by (simp add: d)
      next
        case equal
        then have "j = Suc (Suc i)" "f = ts" "m" using Suc.prems True by (subst (asm) sbt_advance.simps; simp)+
        then show ?thesis using Suc.prems(2) equal by (auto simp: d d1)
      next
        case greater
        then have "sbt_advance tss ts (Suc i) (tss ! Suc i) = (j, f, m)"
          using Suc.prems True by (subst (asm) sbt_advance.simps) simp
        then have "j = Suc i" "f = tss ! Suc i" "\<not> m" using greater by (subst (asm) sbt_advance.simps; simp)+
        then show ?thesis using Suc.prems(2) greater above by (auto simp: d d1)
      qed
    qed
  qed simp
  then show "m \<longleftrightarrow> ts \<in> set (drop i tss)" "\<not> m \<longrightarrow> f \<noteq> ts" "ts < t \<Longrightarrow> t \<in> set (drop i tss) \<longleftrightarrow> t \<in> set (drop j tss)"
    by auto
qed

lemma sbt_loop_spec:
  "sorted_wrt (<) tss \<Longrightarrow> tsorted ss \<Longrightarrow>
   sbt_loop tss ss i acc = acc @ filter (\<lambda>s. timestamp s \<in> set (drop i tss)) ss"
proof (induction ss arbitrary: i acc)
  case (Cons s ss)
  have later: "\<And>x. x \<in> set ss \<Longrightarrow> timestamp s < timestamp x" using Cons.prems(2) by simp
  have IH: "sbt_loop tss ss i acc = acc @ filter (\<lambda>s. timestamp s \<in> set (drop i tss)) ss" for i acc
    using Cons by simp
  show ?case
  proof (cases "i < length tss")
    case True
    have d: "drop i tss = tss ! i # drop (Suc i) tss" using True by (simp add: Cons_nth_drop_Suc)
    have above: "\<forall>t\<in>set (drop (Suc i) tss). tss ! i < t"
      using Cons.prems(1) True by (metis d id_take_nth_drop sorted_wrt.simps(2) sorted_wrt_append sorted_wrt_drop)
    show ?thesis
    proof (cases "timestamp s" "tss ! i" rule: linorder_cases)
      case less
      then show ?thesis using True above IH by (auto simp: d)
    next
      case equal
      have "filter (\<lambda>x. timestamp x \<in> set (drop i tss)) ss = filter (\<lambda>x. timestamp x \<in> set (drop (Suc i) tss)) ss"
        using equal by (intro filter_cong) (auto simp: d dest: later)
      then show ?thesis using True equal IH by (simp add: d)
    next
      case greater
      obtain j f m where a: "sbt_advance tss (timestamp s) i (tss ! i) = (j, f, m)" by (metis prod_cases3)
      note a' = sbt_advance_spec [OF Cons.prems(1) True greater a]
      have "filter (\<lambda>x. timestamp x \<in> set (drop i tss)) ss = filter (\<lambda>x. timestamp x \<in> set (drop j tss)) ss"
        using later a'(3) by (intro filter_cong) auto
      then show ?thesis using True greater a a'(1,2) IH by simp
    qed
  qed simp
qed simp

lemma tsc_new_sizes:
  "fst (tsc_limits (tsc_new enc sz)) = sz" "sz div 16 \<le> snd (tsc_limits (tsc_new enc sz))"
  "48 \<le> sz \<Longrightarrow> \<not> tsc_is_full (tsc_new enc sz)"
proof -
  have g: "gc_is_full (gc_with_max_size sz) \<longleftrightarrow> sz = 0" and "max_size (gc_with_max_size sz) = sz"
    by (simp_all add: gc_defs kc_is_full_def gc_with_max_size_def kc_with_max_size_def gorilla_codec_def ge_with_soft_cap_def
        ge_set_soft_cap_def bs_set_soft_cap_def ge_new_def ge_buf_def bs_new_def)
  moreover have c: "cc_is_full (cc_with_max_size sz) \<longleftrightarrow> sz = 0" and "max_size (cc_with_max_size sz) = sz"
    by (simp_all add: cc_with_max_size_def cc_is_full_def bs_set_soft_cap_def bs_new_def cp_with_soft_cap_def
        cp_set_soft_cap_def cp_new_def cp_bytes_def)
  ultimately show "fst (tsc_limits (tsc_new enc sz)) = sz" "sz div 16 \<le> snd (tsc_limits (tsc_new enc sz))"
    by (cases enc; simp add: tsc_new_def uc_with_max_size_def uc_limits_def SAMPLE_SIZE_def)+
  assume "48 \<le> sz"
  then have "0 < sz div 16" by (simp add: div_greater_zero_iff)
  then have "\<not> uc_is_full (uc_with_max_size sz)"
    by (simp add: uc_with_max_size_def uc_is_full_def uc_len_def uc_default_def SAMPLE_SIZE_def)
  then show "\<not> tsc_is_full (tsc_new enc sz)" using \<open>48 \<le> sz\<close> g c by (cases enc) (auto simp: tsc_new_def)
qed

context chimp_log
begin

lemma range_iter: "tsc_inv lg c \<Longrightarrow> tsc_range_iter lg c a b = filter (in_range a b) (tsc_samples lg c)"
  by (cases c) (simp_all add: uc_range_iter_def uc_inv_def uc_get_range_slice_eq gc_range_iter_def gc_inv_def gc_samples_def
      gor.range_iter_eq cc_range_iter_def cc_inv_def cc_samples_def cpc.range_iter_eq)

lemma chunk_iter: "tsc_inv lg c \<Longrightarrow> tsc_iter lg c = tsc_samples lg c"
  by (cases c) (simp_all add: gc_iter_samples iterates)

lemma created_chunk: "tsc_inv lg (tsc_new enc sz)" "tsc_samples lg (tsc_new enc sz) = []"
  by (cases enc; simp add: tsc_new_def uc_inv_def uc_with_max_size_def uc_default_def gc_inv_new new_chunk)+

lemma is_empty: "tsc_inv lg c \<Longrightarrow> tsc_is_empty c \<longleftrightarrow> tsc_samples lg c = []"
  by (simp add: tsc_is_empty_def tc.len)

lemma last_sample:
  "tsc_inv lg c \<Longrightarrow> tsc_last_sample c = (if tsc_samples lg c = [] then None else Some (List.last (tsc_samples lg c)))"
  by (simp add: tsc_last_sample_def is_empty tc.last tc.last_value)

lemma ends:
  assumes "tsc_inv lg c" "s \<in> set (tsc_samples lg c)"
  shows "tsc_first_timestamp c \<le> timestamp s" "timestamp s \<le> tsc_last_timestamp c"
proof -
  have "tsc_samples lg c \<noteq> []" "tsorted (tsc_samples lg c)" using assms tc.valid [OF assms(1)] by auto
  then show "tsc_first_timestamp c \<le> timestamp s" "timestamp s \<le> tsc_last_timestamp c"
    using assms(2) ksorted_hd [of timestamp] ksorted_last [of timestamp] by (simp_all add: tc.first tc.last assms(1))
qed

lemma samples_by_timestamps:
  assumes "tsc_inv lg c" "sorted_wrt (<) tss"
  shows "tsc_samples_by_timestamps lg c tss = Inr (filter (\<lambda>s. timestamp s \<in> set tss) (tsc_samples lg c))"
proof (cases "tsc_samples lg c = [] \<or> tss = []")
  case True
  then show ?thesis using assms by (auto simp: tsc_samples_by_timestamps_def tc.len)
next
  case False
  let ?a = "max (tss ! 0) (tsc_first_timestamp c)" and ?b = "min (tss ! (length tss - 1)) (tsc_last_timestamp c)"
  have "tss ! 0 \<le> t \<and> t \<le> tss ! (length tss - 1)" if "t \<in> set tss" for t
    using ksorted_hd [of id tss t] ksorted_last [of id tss t] that assms(2) False
    by (simp add: ksorted_def hd_conv_nth last_conv_nth)
  then have "filter (\<lambda>s. timestamp s \<in> set tss \<and> in_range ?a ?b s) (tsc_samples lg c)
      = filter (\<lambda>s. timestamp s \<in> set tss) (tsc_samples lg c)"
    using ends [OF assms(1)] by (intro filter_cong) (auto simp: in_range_def)
  moreover have "tsorted (filter (in_range ?a ?b) (tsc_samples lg c))" using tc.valid [OF assms(1)] by (simp add: ksorted_filter)
  ultimately show ?thesis using False assms
    by (simp add: tsc_samples_by_timestamps_def Let_def tc.len range_iter sbt_loop_spec conj_commute)
qed

lemma has_samples:
  assumes "tsc_inv lg c"
  shows "tsc_has_samples_in_range lg c a b \<longleftrightarrow> (\<exists>s\<in>set (tsc_samples lg c). in_range a b s)"
  using ends [OF assms] assms
  by (force simp: tsc_has_samples_in_range_def is_empty range_iter filter_empty_conv tsc_overlaps_def in_range_def)

lemma splits_in_two:
  assumes "tsc_inv lg c" "48 \<le> tsc_max_size c" "tsc_max_size c < 2 ^ 53" "tsc_should_split c"
  shows "\<exists>l r. tsc_split lg c = Inr (l, r) \<and> tsc_inv lg l \<and> tsc_inv lg r \<and> tsc_samples lg l \<noteq> [] \<and> tsc_samples lg r \<noteq> [] \<and>
    tsc_samples lg l @ tsc_samples lg r = tsc_samples lg c \<and> tsc_limits l = tsc_limits c \<and> tsc_limits r = tsc_limits c"
  using tc.split [OF assms(1)] tsc_should_split_two [OF assms(4,1-3)] tsc_limits(5) by blast

text \<open>The compressed encodings take an upsert also past their last sample when they are full.\<close>

lemma upsert_cases:
  assumes "tsc_inv lg c" "valid_ts (timestamp s)" "tsc_samples lg c \<noteq> []"
    "tsc_is_compressed c \<or> timestamp s \<le> timestamp (List.last (tsc_samples lg c)) \<or> \<not> tsc_is_full c"
  shows "case list_insert p s (tsc_samples lg c) of
      Inl e \<Rightarrow> tsc_upsert_sample lg c s p = Inl e
    | Inr xs \<Rightarrow> \<exists>c'. tsc_upsert_sample lg c s p = Inr (length xs, c') \<and> tsc_inv lg c' \<and> tsc_samples lg c' = xs"
proof (cases "tsc_is_compressed c")
  case True
  then consider g where "c = GorillaC g" | g where "c = ChimpC g" by (cases c) auto
  then show ?thesis
  proof cases
    case 1
    then show ?thesis using assms gc_upsert_eq [of g s p] by (auto split: sum.splits)
  next
    case 2
    then show ?thesis using assms cpc.upsert_eq [of g s p] cpc.inv_of_rel
      by (fastforce simp: cc_inv_def cc_samples_def cc_upsert_sample_def split: sum.split)
  qed
next
  case False
  then show ?thesis using assms tc.upsert_ok [OF assms(1-3)] tc.upsert_err [OF assms(1-3)] by (auto split: sum.split)
qed

lemma upserts:
  assumes "tsc_inv lg c" "valid_ts (timestamp s)" "tsc_samples lg c \<noteq> []"
    "tsc_is_compressed c \<or> timestamp s \<le> timestamp (List.last (tsc_samples lg c)) \<or> \<not> tsc_is_full c"
  shows "list_insert p s (tsc_samples lg c) = Inr xs \<Longrightarrow>
      \<exists>c'. tsc_upsert lg c s p = ((length xs, AddOk s), c') \<and> tsc_inv lg c' \<and> tsc_samples lg c' = xs \<and> tsc_limits c' = tsc_limits c"
    "list_insert p s (tsc_samples lg c) = Inl e \<Longrightarrow> tsc_upsert lg c s p = ((0, AddDuplicate), c)"
proof -
  assume "list_insert p s (tsc_samples lg c) = Inr xs"
  with upsert_cases [OF assms, of p] obtain c' where c': "tsc_upsert_sample lg c s p = Inr (length xs, c')" "tsc_inv lg c'"
    "tsc_samples lg c' = xs" by auto
  then show "\<exists>c'. tsc_upsert lg c s p = ((length xs, AddOk s), c') \<and> tsc_inv lg c' \<and> tsc_samples lg c' = xs \<and>
      tsc_limits c' = tsc_limits c"
    using tsc_limits(3) [OF c'(1)] by (simp add: tsc_upsert_def)
next
  assume e: "list_insert p s (tsc_samples lg c) = Inl e"
  then obtain msg where "e = DuplicateSample msg" using list_insert_error by blast
  then show "tsc_upsert lg c s p = ((0, AddDuplicate), c)" using upsert_cases [OF assms, of p] e by (simp add: tsc_upsert_def)
qed

text \<open>Whatever its outcome, an upsert inserts the sample or leaves the chunk alone.\<close>

lemma upsert_outcomes:
  assumes "tsc_inv lg c" "valid_ts (timestamp s)" "tsc_samples lg c \<noteq> []" "tsc_upsert lg c s p = ((n, r), c')"
  shows "if add_result_is_ok r then r = AddOk s \<and> n = length (tsc_samples lg c') \<and> tsc_inv lg c' \<and>
      list_insert p s (tsc_samples lg c) = Inr (tsc_samples lg c') \<and> tsc_limits c' = tsc_limits c
    else c' = c \<and> n = 0"
proof (cases "tsc_upsert_sample lg c s p")
  case (Inl e)
  then show ?thesis using assms(4) by (auto simp: tsc_upsert_def split: tsdb_error.splits)
next
  case (Inr nc)
  then obtain n1 c1 where u: "tsc_upsert_sample lg c s p = Inr (n1, c1)" by (cases nc) auto
  then show ?thesis using assms(4) tc.upsert_sound [OF assms(1-3) u] tsc_limits(3) [OF u] by (auto simp: tsc_upsert_def)
qed

end

section \<open>Filtered reads\<close>

definition fsi_accepts :: "filtered_sample_iterator \<Rightarrow> sample \<Rightarrow> bool" where
  "fsi_accepts it s \<longleftrightarrow> (case fsi_ts_filter it of None \<Rightarrow> True | Some f \<Rightarrow> tf_matches f (timestamp s)) \<and>
     (case fsi_value_filter it of None \<Rightarrow> True | Some vf \<Rightarrow> vf_is_match vf (val s))"

lemma tf_matches_new [simp]: "tf_matches (tf_new tss) ts \<longleftrightarrow> ts \<in> set tss"
  by (simp add: tf_new_def)

text \<open>When the bounds hold for every accepted timestamp, one step finds the next accepted sample.\<close>

lemma fsi_next_loop_spec:
  assumes "\<And>ts f. fsi_ts_filter it = Some f \<Longrightarrow> tf_matches f ts \<Longrightarrow> fsi_first_ts it \<le> ts \<and> ts \<le> fsi_last_ts it"
  shows "tsorted ss \<Longrightarrow> fsi_next_loop it ss = (case dropWhile (\<lambda>s. \<not> fsi_accepts it s) ss of [] \<Rightarrow> None | s # rest \<Rightarrow> Some (s, rest))"
proof (induction ss)
  case (Cons s ss)
  show ?case
  proof (cases "fsi_ts_filter it")
    case None
    then show ?thesis using Cons by (auto simp: fsi_accepts_def Let_def split: option.split)
  next
    case (Some f)
    have IH: "fsi_next_loop it ss = (case dropWhile (\<lambda>s. \<not> fsi_accepts it s) ss of [] \<Rightarrow> None | s # rest \<Rightarrow> Some (s, rest))"
      using Cons by simp
    show ?thesis
    proof (cases "fsi_last_ts it < timestamp s")
      case True
      then have "\<forall>x\<in>set (s # ss). \<not> fsi_accepts it x"
        using assms [OF Some] Cons.prems by (force simp: fsi_accepts_def Some)
      then have none: "\<not> fsi_accepts it s" "dropWhile (\<lambda>s. \<not> fsi_accepts it s) ss = []"
        unfolding dropWhile_eq_Nil_conv by auto
      then have "fsi_next_loop it ss = None" by (simp add: IH del: dropWhile_eq_Nil_conv)
      then show ?thesis using True none by (simp add: Some Let_def del: dropWhile_eq_Nil_conv)
    next
      case False
      then show ?thesis using assms [OF Some, of "timestamp s"]
        by (auto simp: IH Let_def Some fsi_accepts_def split: option.split)
    qed
  qed
qed simp

lemma fsi_items_spec:
  assumes "\<And>ts f. fsi_ts_filter it = Some f \<Longrightarrow> tf_matches f ts \<Longrightarrow> fsi_first_ts it \<le> ts \<and> ts \<le> fsi_last_ts it"
    "tsorted (fsi_inner it)"
  shows "fsi_items it = filter (fsi_accepts it) (fsi_inner it)"
  using assms
proof (induction "length (fsi_inner it)" arbitrary: it rule: less_induct)
  case less
  have next_spec: "fsi_next_loop it (fsi_inner it) =
      (case dropWhile (\<lambda>s. \<not> fsi_accepts it s) (fsi_inner it) of [] \<Rightarrow> None | s # rest \<Rightarrow> Some (s, rest))"
    by (rule fsi_next_loop_spec) (use less.prems in auto)
  show ?case
  proof (cases "dropWhile (\<lambda>s. \<not> fsi_accepts it s) (fsi_inner it)")
    case Nil
    then have "filter (fsi_accepts it) (fsi_inner it) = []" by (simp add: filter_empty_conv)
    moreover have "fsi_next_loop it (fsi_inner it) = None" using Nil by (simp add: next_spec del: dropWhile_eq_Nil_conv)
    ultimately show ?thesis by (subst fsi_items.simps) simp
  next
    case (Cons s rest)
    have split: "fsi_inner it = takeWhile (\<lambda>s. \<not> fsi_accepts it s) (fsi_inner it) @ s # rest"
      using Cons takeWhile_dropWhile_id by metis
    have acc: "fsi_accepts it s" using Cons by (metis (no_types, lifting) dropWhile_eq_Cons_conv)
    have rest: "tsorted rest" "length rest < length (fsi_inner it)"
      using less.prems(2) by (subst (asm) split, simp add: ksorted_append) (subst split, simp)
    have "fsi_accepts (it\<lparr>fsi_inner := rest\<rparr>) = fsi_accepts it" by (simp add: fun_eq_iff fsi_accepts_def)
    then have "fsi_items (it\<lparr>fsi_inner := rest\<rparr>) = filter (fsi_accepts it) rest"
      using less.hyps [of "it\<lparr>fsi_inner := rest\<rparr>"] less.prems(1) rest by simp
    then have "fsi_items it = s # filter (fsi_accepts it) rest"
      using next_spec less.prems(2) Cons by (subst fsi_items.simps) simp
    moreover have "filter (fsi_accepts it) (fsi_inner it) = s # filter (fsi_accepts it) rest"
      using acc by (subst split) (auto simp: filter_empty_conv dest: set_takeWhileD)
    ultimately show ?thesis by simp
  qed
qed

context chimp_log
begin

lemma filtered_iter:
  assumes "tsc_inv lg c" "\<And>tss. tsf = Some tss \<Longrightarrow> sorted_wrt (<) tss"
  shows "fsi_items (tsc_filtered_iter lg c a b tsf vf) = filter (\<lambda>s. in_range a b s \<and>
     (case tsf of None \<Rightarrow> True | Some tss \<Rightarrow> timestamp s \<in> set tss) \<and>
     (case vf of None \<Rightarrow> True | Some f \<Rightarrow> vf_is_match f (val s))) (tsc_samples lg c)"
proof -
  have bounds: "tss ! 0 \<le> t \<and> t \<le> tss ! (length tss - 1)" if "tsf = Some tss" "t \<in> set tss" for tss t
    using ksorted_hd [of id tss t] ksorted_last [of id tss t] that assms(2) [OF that(1)]
    by (cases "tss = []") (auto simp: ksorted_def hd_conv_nth last_conv_nth)
  let ?it = "tsc_filtered_iter lg c a b tsf vf"
  have "tsorted (fsi_inner ?it)" using tc.valid [OF assms(1)] 
    by (simp add: tsc_filtered_iter_def fsi_new_def range_iter [OF assms(1)] ksorted_filter split: option.split)
  moreover have "fsi_first_ts ?it \<le> ts \<and> ts \<le> fsi_last_ts ?it" if "fsi_ts_filter ?it = Some f" "tf_matches f ts" for ts f
    using that bounds by (auto simp: tsc_filtered_iter_def fsi_new_def split: option.splits)
  ultimately have "fsi_items ?it = filter (fsi_accepts ?it) (fsi_inner ?it)" by (intro fsi_items_spec)
  also have "\<dots> = filter (\<lambda>s. in_range a b s \<and> (case tsf of None \<Rightarrow> True | Some tss \<Rightarrow> timestamp s \<in> set tss) \<and>
     (case vf of None \<Rightarrow> True | Some f \<Rightarrow> vf_is_match f (val s))) (tsc_samples lg c)"
    using bounds by (auto simp: tsc_filtered_iter_def fsi_new_def range_iter [OF assms(1)] fsi_accepts_def in_range_def
        split: option.split intro!: filter_cong)
  finally show ?thesis .
qed

end

section \<open>Serialization\<close>

lemma soft_cap_samples:
  "gc_inv g \<Longrightarrow> gc_inv (g\<lparr>encoder := ge_set_soft_cap n (encoder g)\<rparr>) \<and>
     gc_samples (g\<lparr>encoder := ge_set_soft_cap n (encoder g)\<rparr>) = gc_samples g"
proof -
  assume "gc_inv g"
  then have "gorilla_rel (ge_set_soft_cap n (encoder g)) (gc_samples g)"
    by (simp add: gc_inv_def gc_samples_def kc_inv_def gorilla_rel_def ge_set_soft_cap_def)
  from gor.inv_of_rel [OF this, of g] show ?thesis by (simp add: gc_inv_def gc_samples_def)
qed

context chimp_log
begin

lemma soft_cap_chimp:
  "cc_inv lg g \<Longrightarrow> cc_inv lg (g\<lparr>encoder := cp_set_soft_cap n (encoder g)\<rparr>) \<and>
     cc_samples lg (g\<lparr>encoder := cp_set_soft_cap n (encoder g)\<rparr>) = cc_samples lg g"
proof -
  assume "cc_inv lg g"
  moreover have "cp_state (cp_set_soft_cap n (encoder g)) = cp_state (encoder g)"
    by (simp add: cp_set_soft_cap_def cp_state_def)
  ultimately have "chimp_rel lg (cp_set_soft_cap n (encoder g)) (cc_samples lg g)"
    by (simp add: cc_inv_def cc_samples_def kc_inv_def chimp_rel_def chimp_holds_def) (auto simp: cp_set_soft_cap_def)
  from cpc.inv_of_rel [OF this, of g] show ?thesis by (simp add: cc_inv_def cc_samples_def)
qed

lemma chunk_round_trip:
  assumes "tsc_inv lg c" "tsc_max_size c < 2 ^ 64" "tsc_len c < 2 ^ 64" "tsc_size c < 2 ^ 64"
    "\<And>u. c = UncompressedC u \<Longrightarrow> uc_max_elements u < 2 ^ 64"
  shows "\<exists>c'. tsc_deserialize (tsc_serialize c []) = Inr c' \<and> tsc_inv lg c' \<and> tsc_samples lg c' = tsc_samples lg c \<and>
    tsc_max_size c' = tsc_max_size c \<and> tsc_get_encoding c' = tsc_get_encoding c"
proof (cases c)
  case (UncompressedC u)
  then have "uc_deserialize (uc_serialize u []) = Inr u" using assms by (intro uc_deserialize_serialize) (simp_all add: uc_len_def)
  moreover have "uc_serialize u [1] = 1 # uc_serialize u []"
    unfolding uc_serialize_def uc_serialize_raw_def Let_def uc_serialize_samples
    using write_uvarint_append by (metis append.assoc append_Cons append_Nil)
  ultimately show ?thesis using assms(1) UncompressedC by (simp add: tsc_deserialize_def encoding_from_u8_def)
next
  case (GorillaC g)
  then have "gc_deserialize (gc_serialize g []) = Inr (g\<lparr>encoder := ge_set_soft_cap (max_size g) (encoder g)\<rparr>)"
    using assms by (intro gc_deserialize_serialize) simp_all
  moreover have "gc_serialize g [2] = 2 # gc_serialize g []"
    by (simp add: gc_serialize_def ge_serialize_bytes write_uvarint_normal)
  ultimately show ?thesis using assms(1) GorillaC soft_cap_samples [of g "max_size g"]
    by (simp add: tsc_deserialize_def encoding_from_u8_def)
next
  case (ChimpC g)
  then have "cc_deserialize (cc_serialize g []) = Inr (g\<lparr>encoder := cp_set_soft_cap (max_size g) (encoder g)\<rparr>)"
    using assms by (intro cc_deserialize_serialize [OF accurate]) simp_all
  moreover have "cc_serialize g [3] = 3 # cc_serialize g []"
    by (simp add: cc_serialize_def cp_serialize_bytes write_uvarint_normal)
  ultimately show ?thesis using assms(1) ChimpC soft_cap_chimp [of g "max_size g"]
    by (simp add: tsc_deserialize_def encoding_from_u8_def)
qed

end

section \<open>Properties\<close>

text \<open>C28: A filtered read of a well-formed chunk of any encoding gives, in order, exactly the samples in the time range
  whose timestamp is in the (ascending) timestamp filter and whose value passes the value filter, where these are given.\<close>

theorem chunk_filtered_read:
  assumes "log10_ok lg" "tsc_inv lg c" "\<And>tss. tsf = Some tss \<Longrightarrow> sorted_wrt (<) tss"
  shows "fsi_items (tsc_filtered_iter lg c a b tsf vf) = filter (\<lambda>s. in_range a b s \<and>
     (case tsf of None \<Rightarrow> True | Some tss \<Rightarrow> timestamp s \<in> set tss) \<and>
     (case vf of None \<Rightarrow> True | Some f \<Rightarrow> vf_is_match f (val s))) (tsc_samples lg c)"
  using assms(2,3) by (rule chimp_log.filtered_iter [OF chimp_log.intro [OF assms(1)]])

theorem chunk_filtered_read_witness:
  "fsi_items (tsc_filtered_iter log10_ref (UncompressedC uc_example) 15 400 (Some [10, 20, 25, 300]) None) =
     [sample_new 20 0x3ff0000000000000, sample_new 300 5]"
  using chunk_filtered_read [OF log10_ref_ok, of "UncompressedC uc_example" "Some [10, 20, 25, 300]" 15 400 None]
  by (simp add: in_range_def)

text \<open>C29: Looking up an ascending list of timestamps in a chunk gives the samples stored at them, in order: the loop that
  walks the samples and the timestamps together misses none and repeats none.\<close>

theorem chunk_samples_by_timestamps:
  assumes "log10_ok lg" "tsc_inv lg c" "sorted_wrt (<) tss"
  shows "tsc_samples_by_timestamps lg c tss = Inr (filter (\<lambda>s. timestamp s \<in> set tss) (tsc_samples lg c))"
  using assms(2,3) by (rule chimp_log.samples_by_timestamps [OF chimp_log.intro [OF assms(1)]])

theorem chunk_samples_by_timestamps_witness:
  "tsc_samples_by_timestamps log10_ref (UncompressedC uc_example) [5, 10, 200, 300, 301] = Inr [sample_new 10 0, sample_new 300 5]"
  using chunk_samples_by_timestamps [OF log10_ref_ok, of "UncompressedC uc_example" "[5, 10, 200, 300, 301]"] by simp

text \<open>C30: A chunk of any encoding, written with \<open>serialize\<close>, is read back by \<open>deserialize\<close> as a well-formed chunk of the
  same encoding and size limit with the same samples.\<close>

theorem chunk_serialize_roundtrip:
  assumes "log10_ok lg" "tsc_inv lg c" "tsc_max_size c < 2 ^ 64" "tsc_len c < 2 ^ 64" "tsc_size c < 2 ^ 64"
    "\<And>u. c = UncompressedC u \<Longrightarrow> uc_max_elements u < 2 ^ 64"
  shows "\<exists>c'. tsc_deserialize (tsc_serialize c []) = Inr c' \<and> tsc_inv lg c' \<and> tsc_samples lg c' = tsc_samples lg c \<and>
    tsc_max_size c' = tsc_max_size c \<and> tsc_get_encoding c' = tsc_get_encoding c"
  using assms(2-6) by (rule chimp_log.chunk_round_trip [OF chimp_log.intro [OF assms(1)]])

theorem chunk_serialize_roundtrip_witness:
  "\<exists>c'. tsc_deserialize (tsc_serialize (UncompressedC uc_example) []) = Inr c' \<and> tsc_samples log10_ref c' = uc_samples uc_example"
  using chunk_serialize_roundtrip [OF log10_ref_ok, of "UncompressedC uc_example"]
  by (auto simp: uc_len_def uc_size_def SAMPLE_SIZE_def)



text \<open>C27: A chunk with a valid size limit that is due for a split (its utilization, computed in floating point, is at least
  1.2) splits into two non-empty well-formed chunks whose samples, in order, are the chunk's.\<close>

theorem chunk_split_halves:
  assumes "log10_ok lg" "tsc_inv lg c" "validate_chunk_size (tsc_max_size c) = Inr ()" "tsc_should_split c"
  shows "\<exists>l r. tsc_split lg c = Inr (l, r) \<and> tsc_inv lg l \<and> tsc_inv lg r \<and> tsc_samples lg l \<noteq> [] \<and> tsc_samples lg r \<noteq> [] \<and>
    tsc_samples lg l @ tsc_samples lg r = tsc_samples lg c"
proof -
  have sz: "48 \<le> tsc_max_size c" "tsc_max_size c < 2 ^ 53" using assms(3) unfolding validate_chunk_size_ok by simp_all
  show ?thesis using chimp_log.splits_in_two [OF chimp_log.intro [OF assms(1)] assms(2) sz assms(4)] by blast
qed

definition tsc_overfull :: timeseries_chunk where
  "tsc_overfull = UncompressedC \<lparr>uc_max_size = 48, uc_samples = map (\<lambda>t. sample_new t 0) [1, 2, 3, 4, 5, 6], uc_max_elements = 3\<rparr>"

lemma tsc_overfull_split: "tsc_should_split tsc_overfull"
proof -
  have "f64_of_int 96 = 0x4058000000000000" "f64_of_int 48 = 0x4048000000000000"
    by (simp_all add: f64_of_int_def f64_round_pack_def Let_def)
  moreover have "f64_div 0x4058000000000000 0x4048000000000000 = 0x4000000000000000"
    by (simp add: f64_div_def f64_round_pack_def Let_def numeral_fields is_nan_def is_infinite_def f64_sig_def f64_exp2_def)
  moreover have "tsc_max_size tsc_overfull = 48" "tsc_size tsc_overfull = 96"
    by (simp_all add: tsc_overfull_def uc_size_def SAMPLE_SIZE_def)
  ultimately have "tsc_utilization tsc_overfull = 0x4000000000000000" by (simp add: tsc_utilization_def)
  then show ?thesis
    by (simp add: tsc_should_split_def SPLIT_FACTOR_def f64_le_def f64_key_def is_nan_def numeral_fields)
qed

theorem chunk_split_halves_witness:
  "\<exists>l r. tsc_split log10_ref tsc_overfull = Inr (l, r) \<and> tsc_samples log10_ref l \<noteq> [] \<and> tsc_samples log10_ref r \<noteq> [] \<and>
    tsc_samples log10_ref l @ tsc_samples log10_ref r = map (\<lambda>t. sample_new t 0) [1, 2, 3, 4, 5, 6]"
proof -
  have "tsc_inv log10_ref tsc_overfull" by (simp add: tsc_overfull_def uc_inv_def valid_ts_def i64_max_def)
  moreover have "validate_chunk_size (tsc_max_size tsc_overfull) = Inr ()"
    unfolding validate_chunk_size_ok by (simp add: tsc_overfull_def)
  moreover have "tsc_samples log10_ref tsc_overfull = map (\<lambda>t. sample_new t 0) [1, 2, 3, 4, 5, 6]"
    by (simp add: tsc_overfull_def)
  ultimately show ?thesis using chunk_split_halves [OF log10_ref_ok _ _ tsc_overfull_split] by auto
qed

end
