(* ===== verification/Chunk_Index.thy ===== *)
theory Chunk_Index
  imports Timeseries_Chunk
begin

text \<open>
  The searches of \<open>src/series/time_series.rs\<close> over the ordered chunks of a series. A series of at most
  16 chunks is scanned, a longer one searched by bisection; both find the first chunk that reaches the
  timestamp. \<open>chunks_ok\<close> is what the series promises of its chunks.
\<close>

section \<open>Searches\<close>

text \<open>\<open>Iterator::position\<close> and \<open>rposition\<close>.\<close>

fun position :: "('a \<Rightarrow> bool) \<Rightarrow> 'a list \<Rightarrow> nat option" where
  "position p [] = None"
| "position p (x # xs) = (if p x then Some 0 else map_option Suc (position p xs))"

fun rposition :: "('a \<Rightarrow> bool) \<Rightarrow> 'a list \<Rightarrow> nat option" where
  "rposition p [] = None"
| "rposition p (x # xs) =
     (case rposition p xs of Some i \<Rightarrow> Some (Suc i) | None \<Rightarrow> if p x then Some 0 else None)"

definition LINEAR_SCAN_MAX :: nat where
  "LINEAR_SCAN_MAX = 16"

definition chunk_probe :: "timestamp \<Rightarrow> timeseries_chunk \<Rightarrow> ordering" where
  "chunk_probe ts probe =
     (if ts < tsc_first_timestamp probe then Greater
      else if tsc_last_timestamp probe < ts then Less
      else Equal)"

definition binary_search_chunks_by_timestamp :: "timeseries_chunk list \<Rightarrow> timestamp \<Rightarrow> nat \<times> bool" where
  "binary_search_chunks_by_timestamp chunks ts =
     (case binary_search_by (chunk_probe ts) chunks of Inr pos \<Rightarrow> (pos, True) | Inl pos \<Rightarrow> (pos, False))"

definition find_start_chunk_index :: "timeseries_chunk list \<Rightarrow> timestamp \<Rightarrow> nat" where
  "find_start_chunk_index arr ts =
     (if arr = [] then 0
      else if ts \<le> tsc_first_timestamp (hd arr) then 0
      else if length arr \<le> LINEAR_SCAN_MAX then
        (case position (\<lambda>x. ts \<le> tsc_last_timestamp x) arr of Some i \<Rightarrow> i | None \<Rightarrow> length arr)
      else fst (binary_search_chunks_by_timestamp arr ts))"

definition get_chunk_index :: "timeseries_chunk list \<Rightarrow> timestamp \<Rightarrow> nat \<times> bool" where
  "get_chunk_index chunks ts =
     (if chunks = [] then (0, False)
      else if length chunks \<le> LINEAR_SCAN_MAX then
        (case position (\<lambda>c. tsc_is_timestamp_in_range c ts) chunks of
           Some i \<Rightarrow> (i, True) | None \<Rightarrow> (length chunks, False))
      else binary_search_chunks_by_timestamp chunks ts)"

definition find_last_ge_index :: "timeseries_chunk list \<Rightarrow> timestamp \<Rightarrow> nat \<times> bool" where
  "find_last_ge_index chunks ts =
     (if chunks = [] then (0, False)
      else if length chunks \<le> LINEAR_SCAN_MAX then
        (case rposition (\<lambda>x. tsc_first_timestamp x \<le> ts) chunks of
           None \<Rightarrow> (0, False) | Some idx \<Rightarrow> (idx, tsc_is_timestamp_in_range (chunks ! idx) ts))
      else binary_search_chunks_by_timestamp chunks ts)"

text \<open>\<open>get_chunk_index_bounds\<close>, where the caller has found the series not empty.\<close>

definition chunk_index_bounds :: "timeseries_chunk list \<Rightarrow> timestamp \<Rightarrow> timestamp \<Rightarrow> (nat \<times> nat) option" where
  "chunk_index_bounds chunks start end_ts =
     (let len = length chunks; start_idx = find_start_chunk_index chunks start in
      if len \<le> start_idx then None
      else
        let (idx, found) = find_last_ge_index (drop start_idx chunks) end_ts;
            end_idx = min (start_idx + idx) (len - 1)
        in if start_idx = end_idx \<and> end_ts < tsc_first_timestamp (chunks ! start_idx) then None
           else Some (start_idx, end_idx))"

section \<open>Ordered chunks\<close>

definition chunks_samples :: "(f64 \<Rightarrow> f64) \<Rightarrow> timeseries_chunk list \<Rightarrow> sample list" where
  "chunks_samples lg cs = concat (map (tsc_samples lg) cs)"

definition limits_ok :: "nat \<times> nat \<Rightarrow> bool" where
  "limits_ok l \<longleftrightarrow> 48 \<le> fst l \<and> fst l < 2 ^ 53 \<and> fst l div 16 \<le> snd l"

definition chunk_ok :: "(f64 \<Rightarrow> f64) \<Rightarrow> timeseries_chunk \<Rightarrow> bool" where
  "chunk_ok lg c \<longleftrightarrow> tsc_inv lg c \<and> tsc_samples lg c \<noteq> [] \<and>
     limits_ok (tsc_limits c)"

definition chunks_ok :: "(f64 \<Rightarrow> f64) \<Rightarrow> timeseries_chunk list \<Rightarrow> bool" where
  "chunks_ok lg cs \<longleftrightarrow> (\<forall>c\<in>set cs. chunk_ok lg c) \<and> valid_samples (chunks_samples lg cs)"

lemma chunk_ok_size: "chunk_ok lg c \<Longrightarrow> 48 \<le> tsc_max_size c \<and> tsc_max_size c < 2 ^ 53"
  by (simp add: chunk_ok_def limits_ok_def tsc_max_size_limits)

lemma chunks_samples_simps [simp]:
  "chunks_samples lg [] = []" "chunks_samples lg (c # cs) = tsc_samples lg c @ chunks_samples lg cs"
  "chunks_samples lg (cs @ ds) = chunks_samples lg cs @ chunks_samples lg ds"
  by (simp_all add: chunks_samples_def)

lemma set_chunks_samples: "s \<in> set (chunks_samples lg cs) \<longleftrightarrow> (\<exists>c\<in>set cs. s \<in> set (tsc_samples lg c))"
  by (auto simp: chunks_samples_def)

lemma chunks_ok_simps [simp]:
  "chunks_ok lg []"
  "chunks_ok lg (c # cs) \<longleftrightarrow> chunk_ok lg c \<and> valid_samples (tsc_samples lg c) \<and> chunks_ok lg cs \<and>
     (\<forall>x\<in>set (tsc_samples lg c). \<forall>y\<in>set (chunks_samples lg cs). timestamp x < timestamp y)"
  by (auto simp: chunks_ok_def valid_samples_append)

lemma chunks_ok_append:
  "chunks_ok lg (cs @ ds) \<longleftrightarrow> chunks_ok lg cs \<and> chunks_ok lg ds \<and>
     (\<forall>x\<in>set (chunks_samples lg cs). \<forall>y\<in>set (chunks_samples lg ds). timestamp x < timestamp y)"
  by (auto simp: chunks_ok_def valid_samples_append)

lemma chunks_ok_valid: "chunks_ok lg cs \<Longrightarrow> valid_samples (chunks_samples lg cs)"
  by (simp add: chunks_ok_def)

lemma position_None: "position p xs = None \<longleftrightarrow> (\<forall>x\<in>set xs. \<not> p x)"
  by (induction xs) auto

lemma position_Some:
  "position p xs = Some i \<Longrightarrow> i < length xs \<and> p (xs ! i) \<and> (\<forall>j<i. \<not> p (xs ! j))"
proof (induction xs arbitrary: i)
  case (Cons x xs)
  then show ?case by (cases i) (auto simp: nth_Cons split: if_splits nat.split)
qed simp

lemma rposition_None: "rposition p xs = None \<longleftrightarrow> (\<forall>x\<in>set xs. \<not> p x)"
  by (induction xs) (auto split: option.splits)

lemma rposition_Some:
  "rposition p xs = Some i \<Longrightarrow> i < length xs \<and> p (xs ! i) \<and> (\<forall>j. i < j \<and> j < length xs \<longrightarrow> \<not> p (xs ! j))"
proof (induction xs arbitrary: i)
  case (Cons x xs)
  show ?case
  proof (cases "rposition p xs")
    case None
    then have "\<forall>y\<in>set xs. \<not> p y" by (simp add: rposition_None)
    then show ?thesis using Cons.prems None by (auto simp: nth_Cons split: if_splits nat.split)
  next
    case (Some k)
    then show ?thesis using Cons.IH [OF Some] Cons.prems by (auto simp: nth_Cons split: nat.split)
  qed
qed simp

section \<open>The chunk that reaches a timestamp\<close>

lemma chunk_probe_iff:
  "chunk_probe ts c = Greater \<longleftrightarrow> ts < tsc_first_timestamp c"
  "chunk_probe ts c = Less \<longleftrightarrow> tsc_first_timestamp c \<le> ts \<and> tsc_last_timestamp c < ts"
  "chunk_probe ts c = Equal \<longleftrightarrow> tsc_first_timestamp c \<le> ts \<and> ts \<le> tsc_last_timestamp c"
  by (auto simp: chunk_probe_def)

context chimp_log
begin

lemma chunk_bounds:
  assumes "chunk_ok lg c"
  shows "tsc_first_timestamp c = timestamp (hd (tsc_samples lg c))" "tsc_last_timestamp c = timestamp (List.last (tsc_samples lg c))"
    "tsc_first_timestamp c \<le> tsc_last_timestamp c"
proof -
  have c: "tsc_inv lg c" "tsc_samples lg c \<noteq> []" using assms by (simp_all add: chunk_ok_def)
  show "tsc_first_timestamp c = timestamp (hd (tsc_samples lg c))" "tsc_last_timestamp c = timestamp (List.last (tsc_samples lg c))"
    using tc.first tc.last c by simp_all
  show "tsc_first_timestamp c \<le> tsc_last_timestamp c" using order_trans [OF ends [OF c(1) hd_in_set [OF c(2)]]] .
qed

lemma chunks_apart:
  assumes "chunks_ok lg cs" "i < j" "j < length cs"
  shows "tsc_last_timestamp (cs ! i) < tsc_first_timestamp (cs ! j)"
proof -
  have "cs = take j cs @ cs ! j # drop (Suc j) cs" using assms(3) by (rule id_take_nth_drop)
  then have "chunks_ok lg (take j cs @ cs ! j # drop (Suc j) cs)" using assms(1) by simp
  moreover have "cs ! i \<in> set (take j cs)" using assms(2,3) by (auto simp: in_set_conv_nth intro!: exI [of _ i])
  ultimately have "\<forall>x\<in>set (tsc_samples lg (cs ! i)). \<forall>y\<in>set (tsc_samples lg (cs ! j)). timestamp x < timestamp y"
    by (auto simp: chunks_ok_append set_chunks_samples)
  moreover have "chunk_ok lg (cs ! i)" "chunk_ok lg (cs ! j)" using assms by (simp_all add: chunks_ok_def)
  ultimately show ?thesis by (simp add: chunk_bounds chunk_ok_def)
qed

lemma chunks_keys:
  assumes "chunks_ok lg cs" shows "ksorted tsc_last_timestamp cs" "ksorted tsc_first_timestamp cs"
proof -
  have "tsc_first_timestamp (cs ! i) \<le> tsc_last_timestamp (cs ! i)" if "i < length cs" for i
    using assms that by (intro chunk_bounds(3)) (simp add: chunks_ok_def)
  then show "ksorted tsc_last_timestamp cs" "ksorted tsc_first_timestamp cs"
    using chunks_apart [OF assms] unfolding ksorted_def sorted_wrt_iff_nth_less by (meson less_le_trans le_less_trans less_trans)+
qed

lemma probe_sorted: assumes "chunks_ok lg cs" shows "cmp_sorted (chunk_probe ts) cs"
  unfolding cmp_sorted_def sorted_wrt_iff_nth_less
proof (intro allI impI)
  fix i j assume "i < j" "j < length cs"
  moreover have "chunk_ok lg (cs ! i)" using assms calculation by (simp add: chunks_ok_def)
  ultimately show "rank (chunk_probe ts (cs ! i)) \<le> rank (chunk_probe ts (cs ! j))"
    using chunks_apart [OF assms, of i j] chunk_bounds(3) [of "cs ! i"] by (auto simp: chunk_probe_def)
qed

text \<open>Both searches give the first chunk whose last timestamp is not below \<open>ts\<close>.\<close>

lemma bisect_chunks:
  assumes "chunks_ok lg cs"
  shows "binary_search_chunks_by_timestamp cs ts =
    (let i = lower_bound tsc_last_timestamp ts cs in (i, i < length cs \<and> tsc_first_timestamp (cs ! i) \<le> ts))"
proof (cases "binary_search_by (chunk_probe ts) cs")
  case (Inl i)
  note sp = binary_search_by_Inl [OF probe_sorted [OF assms] Inl]
  have above: "ts < tsc_first_timestamp (cs ! j)" if "i \<le> j" "j < length cs" for j
    using sp that by (simp add: chunk_probe_iff)
  have "i = lower_bound tsc_last_timestamp ts cs"
  proof (rule lower_bound_unique [OF chunks_keys(1) [OF assms]])
    show "i \<le> length cs" using sp by simp
    show "tsc_last_timestamp (cs ! j) < ts" if "j < i" for j
      using sp that by (simp add: chunk_probe_iff)
    show "ts \<le> tsc_last_timestamp (cs ! j)" if "i \<le> j" "j < length cs" for j
      using above [OF that] chunk_bounds(3) [of "cs ! j"] assms that by (simp add: chunks_ok_def)
  qed
  then show ?thesis using Inl above [of i] by (auto simp: binary_search_chunks_by_timestamp_def Let_def)
next
  case (Inr i)
  note sp = binary_search_by_Inr [OF probe_sorted [OF assms] Inr]
  then have r: "i < length cs" "tsc_first_timestamp (cs ! i) \<le> ts" "ts \<le> tsc_last_timestamp (cs ! i)"
    by (auto simp: chunk_probe_iff)
  have "i = lower_bound tsc_last_timestamp ts cs"
  proof (rule lower_bound_unique [OF chunks_keys(1) [OF assms]])
    show "i \<le> length cs" using r by simp
    show "tsc_last_timestamp (cs ! j) < ts" if "j < i" for j using chunks_apart [OF assms that] r by simp
    show "ts \<le> tsc_last_timestamp (cs ! j)" if "i \<le> j" "j < length cs" for j
      using ksorted_nth_mono [OF chunks_keys(1) [OF assms] that] r(3) by simp
  qed
  then show ?thesis using Inr r by (simp add: binary_search_chunks_by_timestamp_def Let_def)
qed

lemma position_last:
  assumes "chunks_ok lg cs"
  shows "(case position (\<lambda>x. ts \<le> tsc_last_timestamp x) cs of Some i \<Rightarrow> i | None \<Rightarrow> length cs) = lower_bound tsc_last_timestamp ts cs"
proof (cases "position (\<lambda>x. ts \<le> tsc_last_timestamp x) cs")
  case None
  then have "tsc_last_timestamp (cs ! j) < ts" if "j < length cs" for j
    using that unfolding position_None by (simp add: not_le)
  then have "length cs = lower_bound tsc_last_timestamp ts cs" by (intro lower_bound_unique chunks_keys assms) auto
  then show ?thesis using None by simp
next
  case (Some i)
  note sp = position_Some [OF Some]
  have "i = lower_bound tsc_last_timestamp ts cs"
    using sp ksorted_nth_mono [OF chunks_keys(1) [OF assms], of i]
    by (intro lower_bound_unique chunks_keys assms) force+
  then show ?thesis using Some by simp
qed

lemma start_index:
  assumes "chunks_ok lg cs" shows "find_start_chunk_index cs ts = lower_bound tsc_last_timestamp ts cs"
proof -
  have "0 = lower_bound tsc_last_timestamp ts cs" if "cs \<noteq> []" "ts \<le> tsc_first_timestamp (hd cs)"
  proof (rule lower_bound_unique [OF chunks_keys(1) [OF assms]])
    fix j assume "j < length cs"
    have "chunk_ok lg (cs ! 0)" using assms that(1) by (simp add: chunks_ok_def)
    then have "ts \<le> tsc_last_timestamp (cs ! 0)" using that chunk_bounds(3) [of "cs ! 0"] by (simp add: hd_conv_nth)
    then show "ts \<le> tsc_last_timestamp (cs ! j)"
      using ksorted_nth_mono [OF chunks_keys(1) [OF assms], of 0 j] \<open>j < length cs\<close> by simp
  qed simp_all
  then show ?thesis using position_last [OF assms, of ts]
    by (simp add: find_start_chunk_index_def bisect_chunks [OF assms] Let_def) (simp add: lower_bound_def)
qed

lemma chunk_index_found:
  assumes "chunks_ok lg cs"
  shows "snd (get_chunk_index cs ts) \<longleftrightarrow>
      (let i = lower_bound tsc_last_timestamp ts cs in i < length cs \<and> tsc_first_timestamp (cs ! i) \<le> ts)"
    "snd (get_chunk_index cs ts) \<Longrightarrow> fst (get_chunk_index cs ts) = lower_bound tsc_last_timestamp ts cs"
proof -
  let ?l = "lower_bound tsc_last_timestamp ts cs"
  have unique: "i = ?l" if "i < length cs" "tsc_is_timestamp_in_range (cs ! i) ts" for i
    using that chunks_apart [OF assms, of _ i] ksorted_nth_mono [OF chunks_keys(1) [OF assms], of i]
    by (intro lower_bound_unique chunks_keys assms) (force simp: tsc_is_timestamp_in_range_def)+
  have inside: "tsc_is_timestamp_in_range (cs ! ?l) ts" if "?l < length cs" "tsc_first_timestamp (cs ! ?l) \<le> ts"
    using that lower_bound_ge [OF chunks_keys(1) [OF assms], of ts ?l] by (simp add: tsc_is_timestamp_in_range_def)
  have "(snd (get_chunk_index cs ts) \<longleftrightarrow> ?l < length cs \<and> tsc_first_timestamp (cs ! ?l) \<le> ts) \<and>
    (snd (get_chunk_index cs ts) \<longrightarrow> fst (get_chunk_index cs ts) = ?l)"
  proof (cases "length cs \<le> LINEAR_SCAN_MAX \<and> cs \<noteq> []")
    case True
    show ?thesis
    proof (cases "position (\<lambda>c. tsc_is_timestamp_in_range c ts) cs")
      case None
      then have "\<not> (?l < length cs \<and> tsc_first_timestamp (cs ! ?l) \<le> ts)" using inside by (auto simp: position_None)
      then show ?thesis using True None by (simp add: get_chunk_index_def)
    next
      case (Some i)
      then show ?thesis using True position_Some [OF Some] unique [of i]
        by (auto simp: get_chunk_index_def tsc_is_timestamp_in_range_def)
    qed
  next
    case False
    then show ?thesis by (auto simp: get_chunk_index_def bisect_chunks [OF assms] Let_def)
  qed
  then show "snd (get_chunk_index cs ts) \<longleftrightarrow> (let i = ?l in i < length cs \<and> tsc_first_timestamp (cs ! i) \<le> ts)"
    "snd (get_chunk_index cs ts) \<Longrightarrow> fst (get_chunk_index cs ts) = ?l" by (simp_all add: Let_def)
qed

text \<open>The chunks outside the bounds hold no sample of the range.\<close>

lemma filter_chunks_samples:
  "filter P (chunks_samples lg cs) = concat (map (\<lambda>c. filter P (tsc_samples lg c)) cs)"
  by (simp add: chunks_samples_def filter_concat comp_def)

lemma outside_range:
  assumes "\<forall>c\<in>set cs. chunk_ok lg c \<and> (tsc_last_timestamp c < a \<or> b < tsc_first_timestamp c)"
  shows "filter (in_range a b) (chunks_samples lg cs) = []"
proof -
  have "\<not> in_range a b s" if "c \<in> set cs" "s \<in> set (tsc_samples lg c)" for c s
  proof -
    have "tsc_inv lg c" "tsc_last_timestamp c < a \<or> b < tsc_first_timestamp c" using assms that(1) by (auto simp: chunk_ok_def)
    then show ?thesis using ends [OF _ that(2)] by (auto simp: in_range_def)
  qed
  then show ?thesis by (auto simp: filter_empty_conv set_chunks_samples)
qed

lemma last_ge_index:
  assumes "chunks_ok lg cs" "k < length cs" "fst (find_last_ge_index cs b) < k"
  shows "b < tsc_first_timestamp (cs ! k)"
proof (cases "length cs \<le> LINEAR_SCAN_MAX")
  case True
  have ne: "cs \<noteq> []" using assms(2) by auto
  show ?thesis
  proof (cases "rposition (\<lambda>x. tsc_first_timestamp x \<le> b) cs")
    case None
    then show ?thesis using assms(2) by (simp add: rposition_None not_le)
  next
    case (Some i)
    then show ?thesis using rposition_Some [OF Some] True ne assms(2,3) by (simp add: find_last_ge_index_def not_le)
  qed
next
  case False
  let ?l = "lower_bound tsc_last_timestamp b cs"
  have "?l < k" using assms(3) False by (simp add: find_last_ge_index_def bisect_chunks [OF assms(1)] Let_def split: if_splits)
  moreover have "b \<le> tsc_last_timestamp (cs ! ?l)"
    using lower_bound_ge [OF chunks_keys(1) [OF assms(1)], of b ?l] \<open>?l < k\<close> assms(2) by simp
  ultimately show ?thesis using chunks_apart [OF assms(1) _ assms(2)] by fastforce
qed

lemma chunks_ok_drop: "chunks_ok lg cs \<Longrightarrow> chunks_ok lg (drop n cs)"
  using append_take_drop_id [of n cs] chunks_ok_append by metis

lemma chunks_ok_take: "chunks_ok lg cs \<Longrightarrow> chunks_ok lg (take n cs)"
  using append_take_drop_id [of n cs] chunks_ok_append by metis

lemma index_bounds_None:
  assumes "chunks_ok lg cs" "chunk_index_bounds cs a b = None"
  shows "filter (in_range a b) (chunks_samples lg cs) = []"
proof (rule outside_range, rule ballI)
  fix c assume "c \<in> set cs"
  then obtain k where k: "k < length cs" "c = cs ! k" by (auto simp: in_set_conv_nth)
  let ?l = "lower_bound tsc_last_timestamp a cs"
  have "chunk_ok lg c" using assms(1) \<open>c \<in> set cs\<close> by (simp add: chunks_ok_def)
  moreover have "tsc_last_timestamp c < a \<or> b < tsc_first_timestamp c"
  proof (cases "k < ?l")
    case True
    then show ?thesis using lower_bound_less [OF True] k by simp
  next
    case False
    then have "b < tsc_first_timestamp (cs ! ?l)" using assms(2) k(1)
      by (simp add: chunk_index_bounds_def start_index [OF assms(1)] Let_def split: if_splits prod.splits)
    then show ?thesis using ksorted_nth_mono [OF chunks_keys(2) [OF assms(1)], of ?l k] False k by simp
  qed
  ultimately show "chunk_ok lg c \<and> (tsc_last_timestamp c < a \<or> b < tsc_first_timestamp c)" by simp
qed

lemma index_bounds_Some:
  assumes "chunks_ok lg cs" "chunk_index_bounds cs a b = Some (i, j)"
  shows "i \<le> j" "j < length cs" "i = lower_bound tsc_last_timestamp a cs"
    "filter (in_range a b) (chunks_samples lg (take i cs)) = []"
    "filter (in_range a b) (chunks_samples lg (drop (Suc j) cs)) = []"
proof -
  have ij: "i = lower_bound tsc_last_timestamp a cs" "i < length cs"
      "j = min (i + fst (find_last_ge_index (drop i cs) b)) (length cs - 1)"
    using assms(2) by (auto simp: chunk_index_bounds_def start_index [OF assms(1)] Let_def split: if_splits prod.splits)
  show "i = lower_bound tsc_last_timestamp a cs" by (rule ij(1))
  show "i \<le> j" "j < length cs" using ij(2,3) by simp_all
  show "filter (in_range a b) (chunks_samples lg (take i cs)) = []"
  proof (rule outside_range, rule ballI)
    fix c assume "c \<in> set (take i cs)"
    then obtain k where k: "k < i" "c = cs ! k" by (auto simp: in_set_conv_nth)
    then show "chunk_ok lg c \<and> (tsc_last_timestamp c < a \<or> b < tsc_first_timestamp c)"
      using lower_bound_less [of k tsc_last_timestamp a cs] assms(1) ij(1,2) by (simp add: chunks_ok_def)
  qed
  show "filter (in_range a b) (chunks_samples lg (drop (Suc j) cs)) = []"
  proof (rule outside_range, rule ballI)
    fix c assume "c \<in> set (drop (Suc j) cs)"
    then obtain k where "k < length (drop (Suc j) cs)" "c = drop (Suc j) cs ! k" by (metis in_set_conv_nth)
    then have k: "Suc j + k < length cs" "c = cs ! (Suc j + k)" by simp_all
    then have "fst (find_last_ge_index (drop i cs) b) < Suc j + k - i" using ij(3) by (simp add: min_def split: if_splits)
    then have "b < tsc_first_timestamp (drop i cs ! (Suc j + k - i))"
      using last_ge_index [OF chunks_ok_drop [OF assms(1), of i], of "Suc j + k - i" b] k(1) \<open>i \<le> j\<close> by simp
    then show "chunk_ok lg c \<and> (tsc_last_timestamp c < a \<or> b < tsc_first_timestamp c)"
      using k \<open>i \<le> j\<close> assms(1) by (simp add: chunks_ok_def)
  qed
qed

end

end
