(* ===== verification/Series_Iterator.thy ===== *)
theory Series_Iterator
  imports Chunk_Index
begin

text \<open>
  \<open>src/series/series_sample_iterator.rs\<close>: the iterator over the samples of a series in a time range, in
  both directions. It walks the chunks from one end, skips those outside the range, and stops at the first
  that lies beyond it.
\<close>

section \<open>The iterator\<close>

record series_sample_iterator =
  ssi_chunks :: "timeseries_chunk list"
  ssi_is_reverse :: bool
  ssi_buffer :: "sample list"
  ssi_buffer_pos :: nat
  ssi_sample_iter :: "sample list"
  ssi_chunk_index :: nat
  ssi_chunks_done :: bool
  ssi_start :: timestamp
  ssi_end :: timestamp

text \<open>The two loops of \<open>next_chunk\<close>: the chunk, and the new \<open>chunk_index\<close> and \<open>chunks_done\<close>.\<close>

function ssi_forward ::
  "timeseries_chunk list \<Rightarrow> timestamp \<Rightarrow> timestamp \<Rightarrow> nat \<Rightarrow> timeseries_chunk option \<times> nat \<times> bool" where
  "ssi_forward cs start end_ts idx =
     (if idx < length cs then
        let chunk = cs ! idx in
        if end_ts < tsc_first_timestamp chunk then (None, length cs + 1, True)
        else if start \<le> tsc_last_timestamp chunk \<and> \<not> tsc_is_empty chunk then (Some chunk, idx + 1, False)
        else ssi_forward cs start end_ts (idx + 1)
      else (None, idx, True))"
  by auto
termination
  by (relation "measure (\<lambda>(cs, _, _, idx). length cs - idx)") auto

fun ssi_backward ::
  "timeseries_chunk list \<Rightarrow> timestamp \<Rightarrow> timestamp \<Rightarrow> nat \<Rightarrow> timeseries_chunk option \<times> nat \<times> bool" where
  "ssi_backward cs start end_ts idx =
     (let chunk = cs ! idx in
      if tsc_last_timestamp chunk < start then (None, idx, True)
      else if tsc_first_timestamp chunk \<le> end_ts \<and> \<not> tsc_is_empty chunk then (Some chunk, idx - 1, idx = 0)
      else if idx = 0 then (None, idx, True)
      else ssi_backward cs start end_ts (idx - 1))"

declare ssi_forward.simps [simp del] ssi_backward.simps [simp del]

definition ssi_next_chunk :: "series_sample_iterator \<Rightarrow> timeseries_chunk option \<times> series_sample_iterator" where
  "ssi_next_chunk it =
     (if ssi_chunks_done it then (None, it)
      else case (if ssi_is_reverse it then ssi_backward else ssi_forward)
          (ssi_chunks it) (ssi_start it) (ssi_end it) (ssi_chunk_index it) of
        (chunk, idx, don) \<Rightarrow> (chunk, it\<lparr>ssi_chunk_index := idx, ssi_chunks_done := don\<rparr>))"

definition ssi_fill_buffer_reverse ::
  "(f64 \<Rightarrow> f64) \<Rightarrow> timeseries_chunk \<Rightarrow> series_sample_iterator \<Rightarrow> series_sample_iterator" where
  "ssi_fill_buffer_reverse lg chunk it =
     (let end_ts = min (tsc_last_timestamp chunk) (ssi_end it); start_ts = max (tsc_first_timestamp chunk) (ssi_start it) in
      if end_ts < start_ts then it\<lparr>ssi_buffer := [], ssi_buffer_pos := 0\<rparr>
      else
        let buffer = (case chunk of
            UncompressedC c \<Rightarrow> (case uc_get_range_as_ref c start_ts end_ts of Some sl \<Rightarrow> sl | None \<Rightarrow> [])
          | _ \<Rightarrow> tsc_range_iter lg chunk start_ts end_ts)
        in it\<lparr>ssi_buffer := buffer, ssi_buffer_pos := length buffer\<rparr>)"

definition ssi_load_next_chunk :: "(f64 \<Rightarrow> f64) \<Rightarrow> series_sample_iterator \<Rightarrow> bool \<times> series_sample_iterator" where
  "ssi_load_next_chunk lg it =
     (case ssi_next_chunk it of
        (None, it1) \<Rightarrow> (False, it1)
      | (Some chunk, it1) \<Rightarrow>
          (True, if ssi_is_reverse it1 then ssi_fill_buffer_reverse lg chunk it1
                 else it1\<lparr>ssi_sample_iter := tsc_range_iter lg chunk (ssi_start it1) (ssi_end it1)\<rparr>))"

definition ssi_new ::
  "(f64 \<Rightarrow> f64) \<Rightarrow> timeseries_chunk list \<Rightarrow> bool \<Rightarrow> timestamp \<Rightarrow> timestamp \<Rightarrow> bool \<Rightarrow> series_sample_iterator" where
  "ssi_new lg cs series_empty start end_ts is_reverse =
     snd (ssi_load_next_chunk lg
       \<lparr>ssi_chunks = cs, ssi_is_reverse = is_reverse, ssi_buffer = [], ssi_buffer_pos = 0, ssi_sample_iter = [],
        ssi_chunk_index = (if is_reverse \<and> \<not> series_empty then length cs - 1 else 0),
        ssi_chunks_done = (cs = [] \<or> end_ts < start), ssi_start = start, ssi_end = end_ts\<rparr>)"

text \<open>\<open>next_reverse\<close>, and the forward iterator's \<open>next\<close>.\<close>

definition ssi_take :: "series_sample_iterator \<Rightarrow> (sample \<times> series_sample_iterator) option" where
  "ssi_take it =
     (if ssi_is_reverse it then
        if 0 < ssi_buffer_pos it
        then Some (ssi_buffer it ! (ssi_buffer_pos it - 1), it\<lparr>ssi_buffer_pos := ssi_buffer_pos it - 1\<rparr>)
        else None
      else case ssi_sample_iter it of [] \<Rightarrow> None | s # ss \<Rightarrow> Some (s, it\<lparr>ssi_sample_iter := ss\<rparr>))"

text \<open>The chunks still to load.\<close>

definition ssi_left :: "series_sample_iterator \<Rightarrow> nat" where
  "ssi_left it =
     (if ssi_chunks_done it then 0
      else if ssi_is_reverse it then Suc (ssi_chunk_index it)
      else Suc (length (ssi_chunks it) - ssi_chunk_index it))"

lemma ssi_forward_left:
  "ssi_forward cs a b i = (Some c, j, don) \<Longrightarrow> \<not> don \<and> i < j \<and> j \<le> length cs"
  by (induction cs a b i rule: ssi_forward.induct) (subst (asm) (2) ssi_forward.simps, auto simp: Let_def split: if_splits)

lemma ssi_backward_left:
  "ssi_backward cs a b i = (Some c, j, don) \<Longrightarrow> j \<le> i \<and> (\<not> don \<longrightarrow> j < i)"
  by (induction cs a b i rule: ssi_backward.induct) (subst (asm) (2) ssi_backward.simps, auto simp: Let_def split: if_splits)

lemma ssi_load_left:
  assumes "ssi_load_next_chunk lg it = (True, it')" shows "ssi_left it' < ssi_left it"
proof -
  have fill: "ssi_left (ssi_fill_buffer_reverse lg c x) = ssi_left x" for c x
    by (simp add: ssi_fill_buffer_reverse_def ssi_left_def Let_def)
  have left: "ssi_left (it\<lparr>ssi_sample_iter := xs\<rparr>) = ssi_left it" for it xs by (simp add: ssi_left_def)
  from assms obtain c it1 where n: "ssi_next_chunk it = (Some c, it1)" and e: "ssi_left it' = ssi_left it1"
    by (auto simp: ssi_load_next_chunk_def fill left split: prod.splits option.splits)
  then have "ssi_left it1 < ssi_left it"
    using ssi_forward_left [of "ssi_chunks it" "ssi_start it" "ssi_end it" "ssi_chunk_index it" c]
      ssi_backward_left [of "ssi_chunks it" "ssi_start it" "ssi_end it" "ssi_chunk_index it" c]
    by (auto simp: ssi_next_chunk_def ssi_left_def split: if_splits prod.splits)
  then show ?thesis using e by simp
qed

lemma ssi_ended:
  "ssi_forward cs a b i = (None, j, don) \<Longrightarrow> don"
  "ssi_backward cs a b i = (None, j, don) \<Longrightarrow> don"
proof -
  show "ssi_forward cs a b i = (None, j, don) \<Longrightarrow> don"
    by (induction cs a b i rule: ssi_forward.induct) (subst (asm) (2) ssi_forward.simps, auto simp: Let_def split: if_splits)
  show "ssi_backward cs a b i = (None, j, don) \<Longrightarrow> don"
    by (induction cs a b i rule: ssi_backward.induct) (subst (asm) (2) ssi_backward.simps, auto simp: Let_def split: if_splits)
qed

function ssi_next :: "(f64 \<Rightarrow> f64) \<Rightarrow> series_sample_iterator \<Rightarrow> (sample \<times> series_sample_iterator) option" where
  "ssi_next lg it =
     (case ssi_take it of
        Some r \<Rightarrow> Some r
      | None \<Rightarrow> (case ssi_load_next_chunk lg it of (loaded, it1) \<Rightarrow> if loaded then ssi_next lg it1 else None))"
  by auto
termination
  by (relation "measure (\<lambda>(lg, it). ssi_left it)") (auto dest!: ssi_load_left [OF sym])

declare ssi_next.simps [simp del]

lemma ssi_take_left:
  "ssi_take it = Some (s, it') \<Longrightarrow> ssi_left it' = ssi_left it \<and>
     length (ssi_sample_iter it') + ssi_buffer_pos it' < length (ssi_sample_iter it) + ssi_buffer_pos it"
  by (auto simp: ssi_take_def ssi_left_def split: if_splits list.splits)

lemma ssi_next_left:
  "ssi_next lg it = Some (s, it') \<Longrightarrow> ssi_left it' < ssi_left it \<or> ssi_left it' = ssi_left it \<and>
     length (ssi_sample_iter it') + ssi_buffer_pos it' < length (ssi_sample_iter it) + ssi_buffer_pos it"
proof (induction lg it rule: ssi_next.induct)
  case (1 lg it)
  show ?case
  proof (cases "ssi_take it")
    case None
    obtain l it1 where l: "ssi_load_next_chunk lg it = (l, it1)" by fastforce
    then have "l" "ssi_next lg it1 = Some (s, it')" using 1(2) None by (subst (asm) ssi_next.simps, simp split: if_splits)+
    then show ?thesis using 1(1) [OF None l [symmetric]] ssi_load_left [of lg it it1] l by fastforce
  next
    case (Some r)
    then show ?thesis using 1(2) ssi_take_left [of it s it'] by (subst (asm) ssi_next.simps) simp
  qed
qed

text \<open>What a consumer of the iterator receives.\<close>

function ssi_items :: "(f64 \<Rightarrow> f64) \<Rightarrow> series_sample_iterator \<Rightarrow> sample list" where
  "ssi_items lg it = (case ssi_next lg it of None \<Rightarrow> [] | Some (s, it') \<Rightarrow> s # ssi_items lg it')"
  by auto
termination
  by (relation "measures [\<lambda>(lg, it). ssi_left it, \<lambda>(lg, it). length (ssi_sample_iter it) + ssi_buffer_pos it]")
    (auto dest: ssi_next_left)

declare ssi_items.simps [simp del]


section \<open>The iterator yields the samples of the range\<close>

text \<open>What is still to come: the samples at hand, and those of the chunks not yet loaded.\<close>

definition ssi_inv :: "(f64 \<Rightarrow> f64) \<Rightarrow> series_sample_iterator \<Rightarrow> bool" where
  "ssi_inv lg it \<longleftrightarrow> chunks_ok lg (ssi_chunks it) \<and> ssi_buffer_pos it \<le> length (ssi_buffer it) \<and>
     (ssi_is_reverse it \<and> \<not> ssi_chunks_done it \<longrightarrow> ssi_chunk_index it < length (ssi_chunks it))"

definition ssi_pending :: "series_sample_iterator \<Rightarrow> sample list" where
  "ssi_pending it = (if ssi_is_reverse it then rev (take (ssi_buffer_pos it) (ssi_buffer it)) else ssi_sample_iter it)"

definition ssi_unread :: "(f64 \<Rightarrow> f64) \<Rightarrow> series_sample_iterator \<Rightarrow> sample list" where
  "ssi_unread lg it =
     (if ssi_chunks_done it then []
      else if ssi_is_reverse it then
        rev (filter (in_range (ssi_start it) (ssi_end it)) (chunks_samples lg (take (Suc (ssi_chunk_index it)) (ssi_chunks it))))
      else filter (in_range (ssi_start it) (ssi_end it)) (chunks_samples lg (drop (ssi_chunk_index it) (ssi_chunks it))))"

lemma ssi_take_None: "ssi_inv lg it \<Longrightarrow> ssi_take it = None \<longleftrightarrow> ssi_pending it = []"
  by (auto simp: ssi_take_def ssi_pending_def ssi_inv_def split: list.splits)

lemma ssi_take_Some:
  assumes "ssi_inv lg it" "ssi_take it = Some (s, it')"
  shows "ssi_inv lg it' \<and> ssi_pending it = s # ssi_pending it' \<and> ssi_unread lg it' = ssi_unread lg it"
proof (cases "ssi_is_reverse it")
  case True
  then have "0 < ssi_buffer_pos it" and s: "s = ssi_buffer it ! (ssi_buffer_pos it - 1)"
    and i: "it' = it\<lparr>ssi_buffer_pos := ssi_buffer_pos it - 1\<rparr>"
    using assms by (auto simp: ssi_take_def split: if_splits)
  then obtain n where n: "ssi_buffer_pos it = Suc n" by (cases "ssi_buffer_pos it") auto
  have "n < length (ssi_buffer it)" using assms(1) n by (simp add: ssi_inv_def)
  then have "take (Suc n) (ssi_buffer it) = take n (ssi_buffer it) @ [s]" using s n by (simp add: take_Suc_conv_app_nth)
  then show ?thesis using assms(1) True n by (simp add: i ssi_inv_def ssi_pending_def ssi_unread_def)
next
  case False
  then show ?thesis using assms by (auto simp: ssi_take_def ssi_inv_def ssi_pending_def ssi_unread_def split: list.splits)
qed

context chimp_log
begin

lemma forward_chunks:
  assumes "chunks_ok lg cs" "ssi_forward cs a b i = (r, j, don)"
  shows "(case r of
      None \<Rightarrow> filter (in_range a b) (chunks_samples lg (drop i cs)) = [] \<and> don
    | Some c \<Rightarrow> chunk_ok lg c \<and> \<not> don \<and>
        filter (in_range a b) (chunks_samples lg (drop i cs)) =
          filter (in_range a b) (tsc_samples lg c) @ filter (in_range a b) (chunks_samples lg (drop j cs)))"
  using assms
proof (induction cs a b i rule: ssi_forward.induct)
  case (1 cs a b i)
  show ?case
  proof (cases "i < length cs")
    case True
    have d: "drop i cs = cs ! i # drop (Suc i) cs" using True by (rule Cons_nth_drop_Suc [symmetric])
    have ok: "chunk_ok lg (cs ! i)" using True 1(2) by (simp add: chunks_ok_def)
    consider (beyond) "b < tsc_first_timestamp (cs ! i)" | (take) "\<not> b < tsc_first_timestamp (cs ! i)" "a \<le> tsc_last_timestamp (cs ! i)"
      | (skip) "\<not> b < tsc_first_timestamp (cs ! i)" "\<not> a \<le> tsc_last_timestamp (cs ! i)" by blast
    then show ?thesis
    proof cases
      case beyond
      have "b < tsc_first_timestamp c" if "c \<in> set (drop i cs)" for c
      proof -
        obtain k where "k < length (drop i cs)" "c = drop i cs ! k" using \<open>c \<in> _\<close> by (metis in_set_conv_nth)
        then have "c = cs ! (i + k)" "i + k < length cs" by simp_all
        then show ?thesis using beyond chunks_apart [OF 1(2), of i "i + k"] chunk_bounds(3) [OF ok] by (cases k) auto
      qed
      then have "filter (in_range a b) (chunks_samples lg (drop i cs)) = []"
        by (intro outside_range) (use 1(2) in \<open>auto simp: chunks_ok_def dest: in_set_dropD\<close>)
      then show ?thesis using 1(3) beyond True by (simp add: ssi_forward.simps [of _ _ _ i])
    next
      case take
      then show ?thesis using 1(3) True ok is_empty [of "cs ! i"]
        by (auto simp: ssi_forward.simps [of _ _ _ i] d chunk_ok_def)
    next
      case skip
      have "filter (in_range a b) (tsc_samples lg (cs ! i)) = []"
        using outside_range [of "[cs ! i]" a b] ok skip by simp
      then show ?thesis using 1(1) [OF True refl] skip 1(2,3) True
        by (simp add: d ssi_forward.simps [of _ _ _ i] split: option.splits)
    qed
  qed (use 1(3) in \<open>simp add: ssi_forward.simps [of _ _ _ i]\<close>)
qed

lemma backward_chunks:
  assumes "chunks_ok lg cs" "i < length cs" "ssi_backward cs a b i = (r, j, don)"
  shows "(case r of
      None \<Rightarrow> filter (in_range a b) (chunks_samples lg (take (Suc i) cs)) = [] \<and> don
    | Some c \<Rightarrow> chunk_ok lg c \<and> (\<not> don \<longrightarrow> j < length cs) \<and>
        filter (in_range a b) (chunks_samples lg (take (Suc i) cs)) =
          (if don then [] else filter (in_range a b) (chunks_samples lg (take (Suc j) cs))) @ filter (in_range a b) (tsc_samples lg c))"
  using assms
proof (induction cs a b i rule: ssi_backward.induct)
  case (1 cs a b i)
  have d: "take (Suc i) cs = take i cs @ [cs ! i]" using 1(3) by (rule take_Suc_conv_app_nth)
  have ok: "chunk_ok lg (cs ! i)" using 1(2,3) by (simp add: chunks_ok_def)
  consider (beyond) "tsc_last_timestamp (cs ! i) < a" | (take) "\<not> tsc_last_timestamp (cs ! i) < a" "tsc_first_timestamp (cs ! i) \<le> b"
    | (skip) "\<not> tsc_last_timestamp (cs ! i) < a" "\<not> tsc_first_timestamp (cs ! i) \<le> b" by blast
  then show ?case
  proof cases
    case beyond
    have "tsc_last_timestamp c < a" if "c \<in> set (take (Suc i) cs)" for c
    proof -
      obtain k where "k < length (take (Suc i) cs)" "c = take (Suc i) cs ! k"
        using \<open>c \<in> _\<close> by (metis in_set_conv_nth)
      then have "c = cs ! k" "k \<le> i" by simp_all
      then show ?thesis using beyond chunks_apart [OF 1(2) _ 1(3), of k] chunk_bounds(3) [OF ok] by (cases "k = i") auto
    qed
    then have "filter (in_range a b) (chunks_samples lg (take (Suc i) cs)) = []"
      by (intro outside_range) (use 1(2) in \<open>auto simp: chunks_ok_def dest: in_set_takeD\<close>)
    then show ?thesis using 1(4) beyond by (simp add: ssi_backward.simps [of _ _ _ i])
  next
    case take
    have "ssi_backward cs a b i = (Some (cs ! i), i - 1, i = 0)"
      using take ok is_empty [of "cs ! i"] by (simp add: ssi_backward.simps [of _ _ _ i] chunk_ok_def)
    then show ?thesis using 1(3,4) ok by (cases i) (auto simp: take_Suc_conv_app_nth)
  next
    case skip
    have e: "filter (in_range a b) (tsc_samples lg (cs ! i)) = []"
      using outside_range [of "[cs ! i]" a b] ok skip by simp
    show ?thesis
    proof (cases i)
      case 0
      then show ?thesis using skip 1(4) e d by (auto simp: ssi_backward.simps [of _ _ _ 0])
    next
      case (Suc k)
      have "\<not> (tsc_first_timestamp (cs ! i) \<le> b \<and> \<not> tsc_is_empty (cs ! i))" using skip by simp
      from 1(1) [OF refl skip(1) this] show ?thesis using skip 1(2-4) e Suc
        by (simp add: ssi_backward.simps [of _ _ _ "Suc k"] d [unfolded Suc] split: option.splits if_splits)
    qed
  qed
qed

lemma fill_reverse:
  assumes "chunk_ok lg c"
  shows "ssi_fill_buffer_reverse lg c it =
    it\<lparr>ssi_buffer := filter (in_range (ssi_start it) (ssi_end it)) (tsc_samples lg c),
       ssi_buffer_pos := length (filter (in_range (ssi_start it) (ssi_end it)) (tsc_samples lg c))\<rparr>"
proof -
  have c: "tsc_inv lg c" using assms by (simp add: chunk_ok_def)
  let ?a = "max (tsc_first_timestamp c) (ssi_start it)" and ?b = "min (tsc_last_timestamp c) (ssi_end it)"
  have f: "filter (in_range (ssi_start it) (ssi_end it)) (tsc_samples lg c) = filter (in_range ?a ?b) (tsc_samples lg c)"
    using ends [OF c] by (intro filter_cong) (auto simp: in_range_def)
  have "(case c of UncompressedC c \<Rightarrow> (case uc_get_range_as_ref c ?a ?b of Some sl \<Rightarrow> sl | None \<Rightarrow> [])
      | _ \<Rightarrow> tsc_range_iter lg c ?a ?b) = tsc_range_iter lg c ?a ?b"
    by (cases c) (auto simp: uc_range_iter_def uc_get_range_slice_def split: option.splits)
  moreover have "filter (in_range ?a ?b) (tsc_samples lg c) = []" if "?b < ?a"
    using that by (auto simp: filter_empty_conv in_range_def)
  ultimately show ?thesis unfolding f by (simp add: ssi_fill_buffer_reverse_def Let_def range_iter [OF c])
qed

lemma iterator_loads:
  assumes "ssi_inv lg it" "ssi_load_next_chunk lg it = (loaded, it')"
  shows "(if loaded then ssi_inv lg it' \<and> ssi_unread lg it = ssi_pending it' @ ssi_unread lg it' else ssi_unread lg it = [])"
proof (cases "ssi_chunks_done it")
  case True
  then show ?thesis using assms(2) by (simp add: ssi_load_next_chunk_def ssi_next_chunk_def ssi_unread_def)
next
  case False
  have ok: "chunks_ok lg (ssi_chunks it)" using assms(1) by (simp add: ssi_inv_def)
  show ?thesis
  proof (cases "ssi_is_reverse it")
    case True
    obtain r j don where b: "ssi_backward (ssi_chunks it) (ssi_start it) (ssi_end it) (ssi_chunk_index it) = (r, j, don)"
      by (metis prod_cases3)
    note sp = backward_chunks [OF ok _ b]
    show ?thesis
    proof (cases r)
      case None
      then show ?thesis using sp assms False True b
        by (simp add: ssi_load_next_chunk_def ssi_next_chunk_def ssi_unread_def ssi_inv_def)
    next
      case (Some c)
      have lt: "ssi_chunk_index it < length (ssi_chunks it)" using assms(1) False True by (simp add: ssi_inv_def)
      have c: "chunk_ok lg c" using sp [OF lt] Some by simp
      define it1 where "it1 = it\<lparr>ssi_chunk_index := j, ssi_chunks_done := don\<rparr>"
      have it': "loaded" "it' = ssi_fill_buffer_reverse lg c it1"
        using assms(2) False True b Some by (simp_all add: ssi_load_next_chunk_def ssi_next_chunk_def it1_def)
      then show ?thesis using fill_reverse [OF c, of it1] sp [OF lt] Some ok True False
        by (auto simp: it1_def ssi_inv_def ssi_pending_def ssi_unread_def)
    qed
  next
    case f: False
    obtain r j don where b: "ssi_forward (ssi_chunks it) (ssi_start it) (ssi_end it) (ssi_chunk_index it) = (r, j, don)"
      by (metis prod_cases3)
    then show ?thesis using forward_chunks [OF ok b] assms False f
      by (cases r) (auto simp: ssi_load_next_chunk_def ssi_next_chunk_def ssi_unread_def ssi_inv_def ssi_pending_def
          range_iter chunk_ok_def)
  qed
qed

lemma iterator_next:
  assumes "L = lg" "ssi_inv L it"
  shows "(case ssi_next L it of
      None \<Rightarrow> ssi_pending it @ ssi_unread L it = []
    | Some (s, it') \<Rightarrow> ssi_inv L it' \<and> ssi_pending it @ ssi_unread L it = s # ssi_pending it' @ ssi_unread L it')"
  using assms
proof (induction L it rule: ssi_next.induct)
  case (1 L it)
  note inv = 1(3) [unfolded 1(2)]
  show ?case
  proof (cases "ssi_take it")
    case None
    obtain l it1 where l: "ssi_load_next_chunk lg it = (l, it1)" by fastforce
    have p: "ssi_pending it = []" using ssi_take_None [OF inv] None by simp
    show ?thesis
    proof (cases l)
      case True
      then have "ssi_inv L it1" "ssi_unread L it = ssi_pending it1 @ ssi_unread L it1"
        using iterator_loads [OF inv l] 1(2) by simp_all
      then show ?thesis using 1(1) [OF None _ True 1(2), of it1] l None p 1(2) True
        by (simp add: ssi_next.simps [of _ it] split: option.splits prod.splits)
    next
      case False
      then show ?thesis using iterator_loads [OF inv l] l None p 1(2) by (simp add: ssi_next.simps [of _ it])
    qed
  next
    case (Some r)
    then show ?thesis using ssi_take_Some [OF inv] 1(2) by (cases r) (simp add: ssi_next.simps [of _ it])
  qed
qed

lemma iterator_items:
  assumes "L = lg" "ssi_inv L it" shows "ssi_items L it = ssi_pending it @ ssi_unread L it"
  using assms
proof (induction L it rule: ssi_items.induct)
  case (1 L it)
  then show ?case using iterator_next [OF 1(2,3)] by (subst ssi_items.simps) (auto split: option.splits prod.splits)
qed

lemma iterator_range:
  assumes "chunks_ok lg cs" "emp \<longleftrightarrow> cs = []"
  shows "ssi_items lg (ssi_new lg cs emp a b is_reverse) =
    (if is_reverse then rev else id) (filter (in_range a b) (chunks_samples lg cs))"
proof -
  define it where "it = \<lparr>ssi_chunks = cs, ssi_is_reverse = is_reverse, ssi_buffer = [], ssi_buffer_pos = 0, ssi_sample_iter = [],
        ssi_chunk_index = (if is_reverse \<and> \<not> emp then length cs - 1 else 0),
        ssi_chunks_done = (cs = [] \<or> b < a), ssi_start = a, ssi_end = b\<rparr>"
  obtain l it' where l: "ssi_load_next_chunk lg it = (l, it')" by fastforce
  have inv: "ssi_inv lg it" using assms by (auto simp: it_def ssi_inv_def)
  have empty: "filter (in_range a b) (chunks_samples lg cs) = []" if "b < a"
    using that by (auto simp: filter_empty_conv in_range_def)
  have "ssi_unread lg it = (if is_reverse then rev else id) (filter (in_range a b) (chunks_samples lg cs))"
    using assms(2) empty by (cases cs) (auto simp: it_def ssi_unread_def)
  moreover have "ssi_items lg it' = ssi_unread lg it"
  proof (cases l)
    case True
    then show ?thesis using iterator_loads [OF inv l] iterator_items [OF refl, of it'] by simp
  next
    case False
    have "ssi_take it' = None \<and> \<not> fst (ssi_load_next_chunk lg it')"
      using l False by (auto simp: ssi_load_next_chunk_def ssi_next_chunk_def it_def ssi_take_def
          split: option.splits prod.splits if_splits dest!: ssi_ended)
    then have "ssi_items lg it' = []"
      by (subst ssi_items.simps, subst ssi_next.simps) (simp add: case_prod_unfold)
    then show ?thesis using iterator_loads [OF inv l] False by simp
  qed
  ultimately show ?thesis using l by (simp add: ssi_new_def it_def)
qed

end

end
