(* ===== verification/Time_Series.thy ===== *)
theory Time_Series
  imports Rounding Series_Iterator
begin

text \<open>
  \<open>src/series/time_series.rs\<close>: the series, a list of chunks with a summary of what they hold. The identity of
  the series, its key, labels, compaction rules and the database number take no part in the operations here
  and are left out; of the link to a source series only its presence is kept. \<open>retention\<close> is the
  \<open>Duration\<close> in nanoseconds. \<open>seal_chunk\<close> and \<open>optimize\<close> return spare memory and change nothing modelled.
\<close>

section \<open>The series\<close>

record time_series =
  ts_retention :: nat
  ts_sample_duplicates :: sample_duplicate_policy
  ts_chunk_encoding :: chunk_encoding
  ts_rounding :: "rounding_strategy option"
  ts_chunk_size_bytes :: nat
  ts_chunks :: "timeseries_chunk list"
  ts_total_samples :: nat
  ts_first_timestamp :: timestamp
  ts_last_sample :: "sample option"
  ts_src_series :: bool
  ts_last_forward_close :: "sample option"

text \<open>\<open>TimeSeriesOptions\<close>, \<open>src/series/types.rs\<close>.\<close>

record time_series_options =
  opt_src :: bool
  opt_chunk_encoding :: chunk_encoding
  opt_chunk_size :: "nat option"
  opt_retention :: "nat option"
  opt_duplicate_policy :: "duplicate_policy option"
  opt_ignore :: "(u64 \<times> f64) option"
  opt_rounding :: "rounding_strategy option"

definition DEFAULT_CHUNK_SIZE_BYTES :: nat where
  "DEFAULT_CHUNK_SIZE_BYTES = 4 * 1024"

definition options_default :: time_series_options where
  "options_default = \<lparr>opt_src = False, opt_chunk_encoding = EncChimp, opt_chunk_size = Some DEFAULT_CHUNK_SIZE_BYTES,
     opt_retention = None, opt_duplicate_policy = None, opt_ignore = None, opt_rounding = None\<rparr>"

definition options_empty :: time_series_options where
  "options_empty = options_default\<lparr>opt_chunk_size := None\<rparr>"

definition ts_default :: time_series where
  "ts_default = \<lparr>ts_retention = 0,
     ts_sample_duplicates = \<lparr>policy = None, max_time_delta = 0, max_value_delta = 0\<rparr>,
     ts_chunk_encoding = EncChimp, ts_rounding = None, ts_chunk_size_bytes = DEFAULT_CHUNK_SIZE_BYTES, ts_chunks = [],
     ts_total_samples = 0, ts_first_timestamp = 0, ts_last_sample = None, ts_src_series = False,
     ts_last_forward_close = None\<rparr>"

definition ts_with_options :: "host \<Rightarrow> time_series_options \<Rightarrow> time_series tsdb_result" where
  "ts_with_options h opts =
     bindR (case opt_chunk_size opts of
         None \<Rightarrow> Inr ts_default
       | Some sz \<Rightarrow> bindR (validate_chunk_size sz) (\<lambda>_. Inr (ts_default\<lparr>ts_chunk_size_bytes := sz\<rparr>)))
     (\<lambda>res.
       let (td, vd) = (case opt_ignore opts of Some i \<Rightarrow> i | None \<Rightarrow> (0, 0)) in
       Inr (res\<lparr>ts_chunk_encoding := opt_chunk_encoding opts,
         ts_retention := (case opt_retention opts of Some r \<Rightarrow> r | None \<Rightarrow> host_retention_period h),
         ts_rounding := opt_rounding opts,
         ts_sample_duplicates := \<lparr>policy = opt_duplicate_policy opts, max_time_delta = td, max_value_delta = vd\<rparr>,
         ts_src_series := opt_src opts\<rparr>))"

definition ts_update_last_sample :: "time_series \<Rightarrow> time_series" where
  "ts_update_last_sample s =
     s\<lparr>ts_last_sample := (if ts_chunks s = [] then None else tsc_last_sample (List.last (ts_chunks s)))\<rparr>"

definition ts_update_first_last_timestamps :: "time_series \<Rightarrow> time_series" where
  "ts_update_first_last_timestamps s =
     s\<lparr>ts_first_timestamp := (if ts_chunks s = [] then 0 else tsc_first_timestamp (hd (ts_chunks s))),
       ts_last_sample := (if ts_chunks s = [] then None else tsc_last_sample (List.last (ts_chunks s)))\<rparr>"

definition ts_from_chunk :: "host \<Rightarrow> timeseries_chunk \<Rightarrow> time_series tsdb_result" where
  "ts_from_chunk h c =
     map_ok (\<lambda>ts. ts_update_first_last_timestamps (ts\<lparr>ts_total_samples := tsc_len c, ts_chunks := ts_chunks ts @ [c]\<rparr>))
       (ts_with_options h (options_default\<lparr>opt_chunk_size := Some (tsc_max_size c), opt_chunk_encoding := tsc_get_encoding c\<rparr>))"

definition ts_len :: "time_series \<Rightarrow> nat" where
  "ts_len s = ts_total_samples s"

definition ts_is_empty :: "time_series \<Rightarrow> bool" where
  "ts_is_empty s \<longleftrightarrow> ts_len s = 0"

definition ts_is_compressed :: "time_series \<Rightarrow> bool" where
  "ts_is_compressed s \<longleftrightarrow> ts_chunk_encoding s \<noteq> EncUncompressed"

definition ts_last_timestamp :: "time_series \<Rightarrow> timestamp" where
  "ts_last_timestamp s = (case ts_last_sample s of Some l \<Rightarrow> timestamp l | None \<Rightarrow> 0)"

definition ts_data_size :: "time_series \<Rightarrow> nat" where
  "ts_data_size s = sum_list (map tsc_size (ts_chunks s))"

definition ts_recalculate_total_samples :: "time_series \<Rightarrow> time_series" where
  "ts_recalculate_total_samples s = s\<lparr>ts_total_samples := sum_list (map tsc_len (ts_chunks s))\<rparr>"

definition ts_create_chunk :: "time_series \<Rightarrow> timeseries_chunk" where
  "ts_create_chunk s = tsc_new (ts_chunk_encoding s) (ts_chunk_size_bytes s)"

definition ts_append_chunk :: "time_series \<Rightarrow> time_series" where
  "ts_append_chunk s = s\<lparr>ts_chunks := ts_chunks s @ [ts_create_chunk s]\<rparr>"

definition ts_adjust_value :: "host \<Rightarrow> time_series \<Rightarrow> f64 \<Rightarrow> f64" where
  "ts_adjust_value h s v = (case ts_rounding s of None \<Rightarrow> v | Some r \<Rightarrow> rounding_round h r v)"

definition ts_make_sample :: "host \<Rightarrow> time_series \<Rightarrow> timestamp \<Rightarrow> f64 \<Rightarrow> sample" where
  "ts_make_sample h s ts v = \<lparr>timestamp = ts, val = ts_adjust_value h s v\<rparr>"

section \<open>Retention\<close>

definition as_millis :: "nat \<Rightarrow> nat" where
  "as_millis ns = ns div 1000000"

definition ts_get_min_timestamp :: "time_series \<Rightarrow> timestamp" where
  "ts_get_min_timestamp s =
     (if ts_retention s = 0 then ts_first_timestamp s
      else case ts_last_sample s of
          None \<Rightarrow> 0
        | Some l \<Rightarrow> max (i64_saturating_sub (timestamp l) (i64 (int (as_millis (ts_retention s))))) 0)"

definition ts_is_older_than_retention :: "time_series \<Rightarrow> timestamp \<Rightarrow> bool" where
  "ts_is_older_than_retention s ts = (if ts_retention s = 0 then False else ts < ts_get_min_timestamp s)"

definition head_trim_due :: "timeseries_chunk \<Rightarrow> timestamp \<Rightarrow> bool" where
  "head_trim_due c min_timestamp =
     (if \<not> tsc_is_compressed c then True
      else
        let first = tsc_first_timestamp c; expired = min_timestamp - first; span = tsc_last_timestamp c - first
        in span \<le> expired * 4)"

definition ts_remove_expired_chunks :: "timestamp \<Rightarrow> time_series \<Rightarrow> nat \<times> time_series" where
  "ts_remove_expired_chunks min_timestamp s =
     (let expired = length (takeWhile (\<lambda>c. tsc_last_timestamp c < min_timestamp) (ts_chunks s)) in
      if expired = 0 then (0, s)
      else (sum_list (map tsc_len (take expired (ts_chunks s))), s\<lparr>ts_chunks := drop expired (ts_chunks s)\<rparr>))"

text \<open>On an error the chunks already removed are gone, and the summary is not updated.\<close>

definition ts_trim_expired :: "host \<Rightarrow> bool \<Rightarrow> time_series \<Rightarrow> nat tsdb_result \<times> time_series" where
  "ts_trim_expired h force s =
     (let min_timestamp = ts_get_min_timestamp s in
      if min_timestamp \<le> ts_first_timestamp s then (Inr 0, s)
      else
        let (deleted, s1) = ts_remove_expired_chunks min_timestamp s;
            finish = (\<lambda>deleted_count s2.
              let s3 = s2\<lparr>ts_total_samples := ts_total_samples s2 - deleted_count\<rparr>
              in (Inr deleted_count, if 0 < deleted_count then ts_update_first_last_timestamps s3 else s3))
        in case ts_chunks s1 of
            [] \<Rightarrow> finish deleted s1
          | chunk # rest \<Rightarrow>
              if tsc_first_timestamp chunk < min_timestamp \<and> (force \<or> head_trim_due chunk min_timestamp) then
                case tsc_remove_range (host_log10 h) chunk 0 (i64 (min_timestamp - 1)) of
                  Inr (n, chunk1) \<Rightarrow> finish (deleted + n) (s1\<lparr>ts_chunks := chunk1 # rest\<rparr>)
                | Inl _ \<Rightarrow> (Inl RemoveRangeError, s1)
              else finish deleted s1)"

definition ts_trim :: "host \<Rightarrow> time_series \<Rightarrow> nat tsdb_result \<times> time_series" where
  "ts_trim h s = ts_trim_expired h True s"

definition ts_trim_lazily :: "host \<Rightarrow> time_series \<Rightarrow> nat tsdb_result \<times> time_series" where
  "ts_trim_lazily h s = ts_trim_expired h False s"

definition ts_apply_retention :: "host \<Rightarrow> time_series \<Rightarrow> time_series" where
  "ts_apply_retention h s = (if ts_retention s = 0 then s else snd (ts_trim_lazily h s))"

section \<open>Adding a sample\<close>

definition CHUNK_SPLIT :: string where
  "CHUNK_SPLIT = ''TSDB: could not split chunk''"

definition NO_CHUNKS :: string where
  "NO_CHUNKS = ''Internal error: no chunks available in upsert''"

definition ts_record_appended_sample :: "sample \<Rightarrow> time_series \<Rightarrow> time_series" where
  "ts_record_appended_sample sample s =
     s\<lparr>ts_first_timestamp := (if ts_total_samples s = 0 then timestamp sample else ts_first_timestamp s),
       ts_last_sample := Some sample, ts_total_samples := ts_total_samples s + 1\<rparr>"

definition ts_add_chunk_with_sample :: "host \<Rightarrow> sample \<Rightarrow> time_series \<Rightarrow> time_series tsdb_result" where
  "ts_add_chunk_with_sample h sample s =
     map_ok (\<lambda>chunk. ts_record_appended_sample sample (s\<lparr>ts_chunks := ts_chunks s @ [chunk]\<rparr>))
       (tsc_add_sample (host_log10 h) sample (ts_create_chunk s))"

definition ts_handle_full_chunk :: "host \<Rightarrow> sample \<Rightarrow> time_series \<Rightarrow> sample_add_result \<times> time_series" where
  "ts_handle_full_chunk h sample s =
     (case ts_add_chunk_with_sample h sample s of
        Inr s1 \<Rightarrow> (AddOk sample, s1)
      | Inl (DuplicateSample _) \<Rightarrow> (AddDuplicate, s)
      | Inl _ \<Rightarrow> (AddError CANNOT_ADD_SAMPLE, s))"

text \<open>\<open>get_last_chunk\<close> makes sure that there is one.\<close>

definition ts_get_last_chunk :: "time_series \<Rightarrow> timeseries_chunk \<times> time_series" where
  "ts_get_last_chunk s =
     (let s1 = (if ts_chunks s = [] then ts_append_chunk s else s) in (List.last (ts_chunks s1), s1))"

definition ts_add_sample_internal :: "host \<Rightarrow> sample \<Rightarrow> time_series \<Rightarrow> sample_add_result \<times> time_series" where
  "ts_add_sample_internal h sample s =
     (let (chunk, s1) = ts_get_last_chunk s in
      if tsc_is_full chunk then ts_handle_full_chunk h sample s1
      else case tsc_add_sample (host_log10 h) sample chunk of
          Inr chunk1 \<Rightarrow> (AddOk sample, ts_record_appended_sample sample (s1\<lparr>ts_chunks := butlast (ts_chunks s1) @ [chunk1]\<rparr>))
        | Inl (CapacityFull _) \<Rightarrow> ts_handle_full_chunk h sample s1
        | Inl _ \<Rightarrow> (AddError CANNOT_ADD_SAMPLE, s1))"

definition ts_validate_sample ::
  "host \<Rightarrow> time_series \<Rightarrow> sample \<Rightarrow> sample \<Rightarrow> duplicate_policy option \<Rightarrow> sample_add_result" where
  "ts_validate_sample h s sample last_sample on_duplicate =
     (if is_duplicate (host_duplicate_policy h) (ts_sample_duplicates s) sample last_sample on_duplicate
      then AddIgnored (timestamp last_sample) else AddOk sample)"

text \<open>The chunk an upsert goes to.\<close>

definition ts_upsert_target :: "time_series \<Rightarrow> timestamp \<Rightarrow> nat" where
  "ts_upsert_target s ts =
     (let (pos, found) = get_chunk_index (ts_chunks s) ts in
      if found then pos
      else case position (\<lambda>c. ts < tsc_first_timestamp c) (ts_chunks s) of
          Some i \<Rightarrow> i
        | None \<Rightarrow> length (ts_chunks s) - 1)"

definition ts_split_upsert ::
  "host \<Rightarrow> sample \<Rightarrow> duplicate_policy \<Rightarrow> nat \<Rightarrow> timeseries_chunk \<Rightarrow> time_series \<Rightarrow> sample_add_result \<times> time_series" where
  "ts_split_upsert h sample pol target_idx chunk s =
     (case tsc_split (host_log10 h) chunk of
        Inl _ \<Rightarrow> (AddError CHUNK_SPLIT, s)
      | Inr (lower, new_chunk) \<Rightarrow>
          let into_new = (0 < tsc_len new_chunk \<and> tsc_first_timestamp new_chunk \<le> timestamp sample);
              old_size = (if into_new then tsc_len new_chunk else tsc_len lower);
              ((size, res), half) = tsc_upsert (host_log10 h) (if into_new then new_chunk else lower) sample pol;
              added = size - old_size;
              (lower1, new1) = (if into_new then (lower, half) else (half, new_chunk));
              chunks1 = (ts_chunks s)[target_idx := lower1];
              chunks2 = (if 0 < tsc_len new1 then
                  let insert_at = partition_point (\<lambda>c. tsc_first_timestamp c \<le> tsc_first_timestamp new1) chunks1
                  in take insert_at chunks1 @ new1 # drop insert_at chunks1
                else chunks1);
              s1 = s\<lparr>ts_chunks := chunks2\<rparr>
          in if \<not> add_result_is_ok res then (res, s1)
             else (AddOk sample, ts_update_first_last_timestamps (s1\<lparr>ts_total_samples := ts_total_samples s1 + added\<rparr>)))"

definition ts_upsert_sample ::
  "host \<Rightarrow> sample \<Rightarrow> duplicate_policy option \<Rightarrow> time_series \<Rightarrow> sample_add_result \<times> time_series" where
  "ts_upsert_sample h sample override s =
     (let pol = resolve_policy (host_duplicate_policy h) (ts_sample_duplicates s) override;
          at_front = (timestamp sample \<le> ts_first_timestamp s) in
      if at_front \<and> ts_is_older_than_retention s (timestamp sample) then (AddTooOld, s)
      else
        let target_idx = (if at_front then 0 else ts_upsert_target s (timestamp sample));
            is_last = (target_idx + 1 = length (ts_chunks s)) in
        if length (ts_chunks s) \<le> target_idx then (AddError NO_CHUNKS, s)
        else
          let chunk = ts_chunks s ! target_idx in
          if tsc_should_split chunk then ts_split_upsert h sample pol target_idx chunk s
          else
            let old_size = tsc_len chunk; ((size, res), chunk1) = tsc_upsert (host_log10 h) chunk sample pol;
                s1 = s\<lparr>ts_chunks := (ts_chunks s)[target_idx := chunk1]\<rparr> in
            if add_result_is_ok res then
              let s2 = s1\<lparr>ts_total_samples := ts_total_samples s1 + (size - old_size)\<rparr>;
                  s3 = (if is_last then ts_update_last_sample s2 else s2)
              in (res, s3\<lparr>ts_first_timestamp := min (timestamp sample) (ts_first_timestamp s3)\<rparr>)
            else (res, s1))"

definition ts_add_deferring_retention ::
  "host \<Rightarrow> timestamp \<Rightarrow> f64 \<Rightarrow> duplicate_policy option \<Rightarrow> time_series \<Rightarrow> sample_add_result \<times> time_series" where
  "ts_add_deferring_retention h ts v dp_override s =
     (let sample = ts_make_sample h s ts v in
      if ts_is_older_than_retention s ts then (AddTooOld, s)
      else case ts_last_sample s of
          None \<Rightarrow> ts_add_sample_internal h sample s
        | Some l \<Rightarrow>
            if timestamp l \<le> ts \<and> \<not> add_result_is_ok (ts_validate_sample h s sample l dp_override)
            then (AddIgnored (timestamp l), s)
            else if ts \<le> timestamp l then ts_upsert_sample h sample dp_override s
            else ts_add_sample_internal h sample s)"

definition ts_add_reporting_insert ::
  "host \<Rightarrow> timestamp \<Rightarrow> f64 \<Rightarrow> duplicate_policy option \<Rightarrow> time_series \<Rightarrow> (sample_add_result \<times> bool) \<times> time_series" where
  "ts_add_reporting_insert h ts v dp_override s =
     (let samples_before = ts_total_samples s; (result, s1) = ts_add_deferring_retention h ts v dp_override s;
          inserted = (samples_before < ts_total_samples s1)
      in ((result, inserted), if add_result_is_ok result then ts_apply_retention h s1 else s1))"

definition ts_add ::
  "host \<Rightarrow> timestamp \<Rightarrow> f64 \<Rightarrow> duplicate_policy option \<Rightarrow> time_series \<Rightarrow> sample_add_result \<times> time_series" where
  "ts_add h ts v dp_override s =
     (case ts_add_reporting_insert h ts v dp_override s of ((result, _), s1) \<Rightarrow> (result, s1))"

definition INVALID_INCREMENT_VALUE :: string where
  "INVALID_INCREMENT_VALUE = ''TSDB: invalid increase/decrease value''"

definition CANNOT_INCREMENT_DECREMENT_NAN :: string where
  "CANNOT_INCREMENT_DECREMENT_NAN = ''TSDB: cannot increment/decrement NaN value''"

definition OLD_INCREMENT :: string where
  "OLD_INCREMENT = ''TSDB: timestamp must be equal to or higher than the maximum existing timestamp''"

definition ts_increment_sample_value ::
  "host \<Rightarrow> timestamp option \<Rightarrow> f64 \<Rightarrow> time_series \<Rightarrow> (string + sample_add_result) \<times> time_series" where
  "ts_increment_sample_value h timestamp_opt delta s =
     (if is_nan delta then (Inl INVALID_INCREMENT_VALUE, s)
      else
        let go = (\<lambda>ts last_ts v.
          if ts < last_ts then (Inl OLD_INCREMENT, s)
          else case ts_add h ts v (Some KeepLast) s of (r, s1) \<Rightarrow> (Inr r, s1))
        in case ts_last_sample s of
            Some l \<Rightarrow>
              if is_nan (val l) then (Inl CANNOT_INCREMENT_DECREMENT_NAN, s)
              else go (case timestamp_opt of Some t \<Rightarrow> t | None \<Rightarrow> timestamp l) (timestamp l) (f64_add (val l) delta)
          | None \<Rightarrow>
              let ts = (case timestamp_opt of Some t \<Rightarrow> t | None \<Rightarrow> host_now h) in go ts ts delta)"

section \<open>Splitting after a merge\<close>

definition SPLIT_SLACK_DIVISOR :: nat where
  "SPLIT_SLACK_DIVISOR = 4"

definition ts_needs_split :: "timeseries_chunk \<Rightarrow> bool" where
  "ts_needs_split c \<longleftrightarrow>
     (let mx = tsc_max_size c in tsc_is_full c \<and> mx + mx div SPLIT_SLACK_DIVISOR < tsc_size c)"

text \<open>
  One chunk of the loop, serial or parallel: the chunk left in place, the upper half if there is one, and
  whether the split failed.
\<close>

definition ts_split_one :: "(f64 \<Rightarrow> f64) \<Rightarrow> timeseries_chunk \<Rightarrow> timeseries_chunk \<times> timeseries_chunk list \<times> bool" where
  "ts_split_one lg c =
     (if \<not> ts_needs_split c then (c, [], False)
      else case tsc_split lg c of Inr (lower, upper) \<Rightarrow> (lower, [upper], False) | Inl _ \<Rightarrow> (c, [], True))"

text \<open>The merge of the two runs by first timestamp.\<close>

fun ts_merge_runs :: "timeseries_chunk list \<Rightarrow> timeseries_chunk list \<Rightarrow> timeseries_chunk list" where
  "ts_merge_runs (x # xs) (y # ys) =
     (if tsc_first_timestamp x \<le> tsc_first_timestamp y then x # ts_merge_runs xs (y # ys) else y # ts_merge_runs (x # xs) ys)"
| "ts_merge_runs xs [] = xs"
| "ts_merge_runs [] ys = ys"

definition ts_split_chunks_if_needed :: "host \<Rightarrow> time_series \<Rightarrow> unit tsdb_result \<times> time_series" where
  "ts_split_chunks_if_needed h s =
     (if \<not> (\<exists>c\<in>set (ts_chunks s). ts_needs_split c) then (Inr (), s)
      else
        let parts = map (ts_split_one (host_log10 h)) (ts_chunks s);
            existing = map fst parts;
            new_chunks = concat (map (fst \<circ> snd) parts);
            errored = (\<exists>p\<in>set parts. snd (snd p));
            chunks1 = (if new_chunks = [] then existing else ts_merge_runs existing (sort_key tsc_first_timestamp new_chunks))
        in (if errored then Inl ChunkSplitError else Inr (), s\<lparr>ts_chunks := chunks1\<rparr>))"

section \<open>Deleting a range\<close>

text \<open>A series is empty when its count is zero, whatever its chunks hold.\<close>

definition ts_get_chunk_index_bounds :: "time_series \<Rightarrow> timestamp \<Rightarrow> timestamp \<Rightarrow> (nat \<times> nat) option" where
  "ts_get_chunk_index_bounds s start end_ts =
     (if ts_is_empty s \<or> end_ts < start then None else chunk_index_bounds (ts_chunks s) start end_ts)"

definition ts_remove_internal ::
  "(f64 \<Rightarrow> f64) \<Rightarrow> timestamp \<Rightarrow> timestamp \<Rightarrow> timeseries_chunk \<Rightarrow> (nat \<times> timeseries_chunk) tsdb_result" where
  "ts_remove_internal lg start_ts end_ts c =
     (if tsc_is_contained_by_range c start_ts end_ts then Inr (tsc_len c, tsc_clear c)
      else tsc_remove_range lg c start_ts end_ts)"

text \<open>
  The loop over the chunks of the range. On an error the chunks before it stay changed; the parallel form of
  the loop, for compressed chunks, may have changed others as well.
\<close>

fun ts_remove_loop ::
  "(f64 \<Rightarrow> f64) \<Rightarrow> timestamp \<Rightarrow> timestamp \<Rightarrow> timeseries_chunk list \<Rightarrow> nat \<Rightarrow> nat tsdb_result \<times> timeseries_chunk list" where
  "ts_remove_loop lg start_ts end_ts [] n = (Inr n, [])"
| "ts_remove_loop lg start_ts end_ts (c # cs) n =
     (case ts_remove_internal lg start_ts end_ts c of
        Inl e \<Rightarrow> (Inl e, c # cs)
      | Inr (k, c1) \<Rightarrow> (case ts_remove_loop lg start_ts end_ts cs (n + k) of (r, cs1) \<Rightarrow> (r, c1 # cs1)))"

definition ts_remove_live :: "host \<Rightarrow> timestamp \<Rightarrow> timestamp \<Rightarrow> time_series \<Rightarrow> nat tsdb_result \<times> time_series" where
  "ts_remove_live h start_ts end_ts s =
     (if end_ts < start_ts then (Inr 0, s)
      else case ts_get_chunk_index_bounds s start_ts end_ts of
          None \<Rightarrow> (Inr 0, s)
        | Some (i, j) \<Rightarrow>
            (case ts_remove_loop (host_log10 h) start_ts end_ts (take (Suc j - i) (drop i (ts_chunks s))) 0 of
               (r, changed) \<Rightarrow>
                 let s1 = s\<lparr>ts_chunks := take i (ts_chunks s) @ changed @ drop (Suc j) (ts_chunks s)\<rparr> in
                 case r of
                   Inl e \<Rightarrow> (Inl e, s1)
                 | Inr deleted \<Rightarrow>
                     (Inr deleted, ts_update_first_last_timestamps
                       (s1\<lparr>ts_chunks := filter (\<lambda>c. \<not> tsc_is_empty c) (ts_chunks s1),
                           ts_total_samples := ts_total_samples s1 - deleted\<rparr>))))"

definition ts_remove_range :: "host \<Rightarrow> timestamp \<Rightarrow> timestamp \<Rightarrow> time_series \<Rightarrow> nat tsdb_result \<times> time_series" where
  "ts_remove_range h start_ts end_ts s =
     (if end_ts < start_ts then (Inr 0, s)
      else if ts_retention s = 0 then ts_remove_live h start_ts end_ts s
      else case ts_trim h s of
          (Inl e, s1) \<Rightarrow> (Inl e, s1)
        | (Inr _, s1) \<Rightarrow> ts_remove_live h (max start_ts (ts_get_min_timestamp s1)) end_ts s1)"

section \<open>Reads\<close>

definition ts_overlaps :: "time_series \<Rightarrow> timestamp \<Rightarrow> timestamp \<Rightarrow> bool" where
  "ts_overlaps s start_ts end_ts \<longleftrightarrow> \<not> ts_is_empty s \<and> start_ts \<le> ts_last_timestamp s \<and> ts_first_timestamp s \<le> end_ts"

text \<open>The results of the chunks in order, or an error when one of them gives one.\<close>

fun concat_results :: "'a list tsdb_result list \<Rightarrow> 'a list tsdb_result" where
  "concat_results [] = Inr []"
| "concat_results (r # rs) = bindR r (\<lambda>xs. map_ok ((@) xs) (concat_results rs))"

definition get_range_parallel ::
  "(f64 \<Rightarrow> f64) \<Rightarrow> timeseries_chunk list \<Rightarrow> timestamp \<Rightarrow> timestamp \<Rightarrow> sample list tsdb_result" where
  "get_range_parallel lg cs start end_ts =
     (case cs of
        [] \<Rightarrow> Inr []
      | [c] \<Rightarrow> tsc_get_range lg c start end_ts
      | _ \<Rightarrow> concat_results (map (\<lambda>c. tsc_get_range lg c start end_ts) cs))"

definition ts_get_range :: "host \<Rightarrow> time_series \<Rightarrow> timestamp \<Rightarrow> timestamp \<Rightarrow> sample list" where
  "ts_get_range h s start_time end_time =
     (let start = max start_time (ts_get_min_timestamp s) in
      if end_time < start then []
      else if \<not> ts_overlaps s start end_time then []
      else case ts_get_chunk_index_bounds s start end_time of
          None \<Rightarrow> []
        | Some (i, j) \<Rightarrow>
            let cs = take (Suc j - i) (drop i (ts_chunks s));
                samples = (case get_range_parallel (host_log10 h) cs start end_time of Inr xs \<Rightarrow> xs | Inl _ \<Rightarrow> [])
            in if 1 < length cs then sort_key timestamp samples else samples)"

definition ts_get_sample :: "host \<Rightarrow> time_series \<Rightarrow> timestamp \<Rightarrow> sample option tsdb_result" where
  "ts_get_sample h s ts =
     (let (index, found) = get_chunk_index (ts_chunks s) ts in
      if found then
        map_ok (\<lambda>xs. if xs = [] then None else Some (List.last xs)) (tsc_get_range (host_log10 h) (ts_chunks s ! index) ts ts)
      else Inr None)"

definition ts_chunk_containing_timestamp :: "time_series \<Rightarrow> timestamp \<Rightarrow> timeseries_chunk option" where
  "ts_chunk_containing_timestamp s ts =
     (let (index, found) = get_chunk_index (ts_chunks s) ts in
      if found \<and> index < length (ts_chunks s) then Some (ts_chunks s ! index) else None)"

text \<open>
  The timestamps of each chunk, gathered in a hash map by chunk index; \<open>perm\<close> is the order in which the map
  hands back its values.
\<close>

fun meta_insert :: "nat \<Rightarrow> timestamp \<Rightarrow> (nat \<times> timestamp list) list \<Rightarrow> (nat \<times> timestamp list) list" where
  "meta_insert i ts [] = [(i, [ts])]"
| "meta_insert i ts ((j, tss) # m) = (if i = j then (j, tss @ [ts]) # m else (j, tss) # meta_insert i ts m)"

definition meta_map :: "timeseries_chunk list \<Rightarrow> timestamp list \<Rightarrow> (nat \<times> timestamp list) list" where
  "meta_map cs tss =
     fold (\<lambda>ts m. let (index, found) = get_chunk_index cs ts in
       if found \<and> index < length cs then meta_insert index ts m else m) tss []"

definition ts_samples_by_timestamps ::
  "((nat \<times> timestamp list) list \<Rightarrow> (nat \<times> timestamp list) list) \<Rightarrow> host \<Rightarrow> time_series \<Rightarrow> timestamp list \<Rightarrow> sample list tsdb_result" where
  "ts_samples_by_timestamps perm h s tss =
     (if ts_is_empty s \<or> tss = [] then Inr []
      else
        let metas = perm (meta_map (ts_chunks s) tss) in
        if metas = [] then Inr []
        else map_ok (\<lambda>samples. if 1 < length metas then sort_key timestamp samples else samples)
          (concat_results (map (\<lambda>(i, ts). tsc_samples_by_timestamps (host_log10 h) (ts_chunks s ! i) ts) metas)))"

definition ts_get_range_filtered ::
  "((nat \<times> timestamp list) list \<Rightarrow> (nat \<times> timestamp list) list) \<Rightarrow> host \<Rightarrow> time_series \<Rightarrow> timestamp \<Rightarrow> timestamp \<Rightarrow>
     timestamp list option \<Rightarrow> value_filter option \<Rightarrow> sample list" where
  "ts_get_range_filtered perm h s start_timestamp end_timestamp timestamp_filter value_filter =
     (let start = max start_timestamp (ts_get_min_timestamp s) in
      if end_timestamp < start then []
      else
        let samples = (case timestamp_filter of
              Some tsf \<Rightarrow> (case ts_samples_by_timestamps perm h s (filter_timestamp_slice tsf start end_timestamp) of
                  Inr xs \<Rightarrow> xs | Inl _ \<Rightarrow> [])
            | None \<Rightarrow> ts_get_range h s start end_timestamp)
        in case value_filter of Some vf \<Rightarrow> filter_samples_by_value samples vf | None \<Rightarrow> samples)"

definition ts_stored_range_iter :: "host \<Rightarrow> time_series \<Rightarrow> timestamp \<Rightarrow> timestamp \<Rightarrow> series_sample_iterator" where
  "ts_stored_range_iter h s start end_ts = ssi_new (host_log10 h) (ts_chunks s) (ts_is_empty s) start end_ts False"

definition ts_range_iter :: "host \<Rightarrow> time_series \<Rightarrow> timestamp \<Rightarrow> timestamp \<Rightarrow> series_sample_iterator" where
  "ts_range_iter h s start end_ts =
     ssi_new (host_log10 h) (ts_chunks s) (ts_is_empty s) (max start (ts_get_min_timestamp s)) end_ts False"

text \<open>\<open>SeriesSampleIterator::from_range_options\<close>.\<close>

definition ssi_from_range_options :: "host \<Rightarrow> time_series \<Rightarrow> timestamp \<times> timestamp \<Rightarrow> bool \<Rightarrow> series_sample_iterator" where
  "ssi_from_range_options h s window is_reverse =
     (let (start, end_ts) = window
      in ssi_new (host_log10 h) (ts_chunks s) (ts_is_empty s) (max start (ts_get_min_timestamp s)) end_ts is_reverse)"

definition ts_iter :: "host \<Rightarrow> time_series \<Rightarrow> series_sample_iterator" where
  "ts_iter h s = ts_range_iter h s (ts_first_timestamp s) (ts_last_timestamp s)"

definition ts_visible_first_timestamp :: "host \<Rightarrow> time_series \<Rightarrow> timestamp" where
  "ts_visible_first_timestamp h s =
     (let min_timestamp = ts_get_min_timestamp s in
      if min_timestamp \<le> ts_first_timestamp s then ts_first_timestamp s
      else case ssi_next (host_log10 h) (ts_range_iter h s min_timestamp (ts_last_timestamp s)) of
          Some (sample, _) \<Rightarrow> timestamp sample
        | None \<Rightarrow> ts_first_timestamp s)"

definition ts_visible_total_samples :: "host \<Rightarrow> time_series \<Rightarrow> nat" where
  "ts_visible_total_samples h s =
     (let min_timestamp = ts_get_min_timestamp s in
      if min_timestamp \<le> ts_first_timestamp s then ts_total_samples s
      else
        let expired = sum_list (map (\<lambda>c.
            if tsc_last_timestamp c < min_timestamp then tsc_len c
            else length (tsc_range_iter (host_log10 h) c (tsc_first_timestamp c) (i64 (min_timestamp - 1))))
            (takeWhile (\<lambda>c. tsc_first_timestamp c < min_timestamp) (ts_chunks s)))
        in ts_total_samples s - expired)"

definition ts_has_samples_in_range :: "host \<Rightarrow> time_series \<Rightarrow> timestamp \<Rightarrow> timestamp \<Rightarrow> bool" where
  "ts_has_samples_in_range h s start_time end_time =
     (if \<not> ts_overlaps s start_time end_time then False
      else
        let min_timestamp = max (ts_get_min_timestamp s) start_time in
        case ts_get_chunk_index_bounds s min_timestamp end_time of
          None \<Rightarrow> False
        | Some (i, j) \<Rightarrow> (\<exists>c\<in>set (take (Suc j - i) (drop i (ts_chunks s))).
            tsc_has_samples_in_range (host_log10 h) c min_timestamp end_time))"

definition ts_live_forward_close :: "host \<Rightarrow> time_series \<Rightarrow> sample option" where
  "ts_live_forward_close h s =
     (case ts_last_forward_close s of
        None \<Rightarrow> None
      | Some published \<Rightarrow>
          if ts_is_older_than_retention s (timestamp published) then None
          else case ts_get_sample h s (timestamp published) of Inr r \<Rightarrow> r | Inl _ \<Rightarrow> None)"

definition ts_reported_last_sample :: "host \<Rightarrow> time_series \<Rightarrow> sample option" where
  "ts_reported_last_sample h s =
     (if host_strict_compat h \<and> ts_src_series s \<and> \<not> ts_is_empty s then
        (case ts_live_forward_close h s of Some current \<Rightarrow> Some current | None \<Rightarrow> ts_last_sample s)
      else ts_last_sample s)"

end
