(* ===== verification/Series_Laws.thy ===== *)
theory Series_Laws
  imports Time_Series
begin

text \<open>
  The laws of a series: what it holds is one strictly ordered list of samples, the summary fields describe that
  list, and every operation acts on it as on a sorted list. The laws are proved for every host whose
  \<open>log10\<close> is as accurate as the Chimp encoding relies on.
\<close>

section \<open>The samples of a series and the invariant\<close>

definition ts_samples :: "host \<Rightarrow> time_series \<Rightarrow> sample list" where
  "ts_samples h s = chunks_samples (host_log10 h) (ts_chunks s)"

text \<open>The fields a write does not touch.\<close>

definition ts_config :: "time_series \<Rightarrow> time_series" where
  "ts_config s = s\<lparr>ts_chunks := [], ts_total_samples := 0, ts_first_timestamp := 0, ts_last_sample := None\<rparr>"

definition ts_inv :: "host \<Rightarrow> time_series \<Rightarrow> bool" where
  "ts_inv h s \<longleftrightarrow>
     chunks_ok (host_log10 h) (ts_chunks s) \<and> 48 \<le> ts_chunk_size_bytes s \<and> ts_chunk_size_bytes s < 2 ^ 53 \<and>
     ts_total_samples s = length (ts_samples h s) \<and>
     ts_first_timestamp s = (if ts_samples h s = [] then 0 else timestamp (hd (ts_samples h s))) \<and>
     ts_last_sample s = (if ts_samples h s = [] then None else Some (List.last (ts_samples h s)))"

lemma ts_config_simps [simp]:
  "ts_config (s\<lparr>ts_chunks := cs\<rparr>) = ts_config s" "ts_config (s\<lparr>ts_total_samples := n\<rparr>) = ts_config s"
  "ts_config (s\<lparr>ts_first_timestamp := t\<rparr>) = ts_config s" "ts_config (s\<lparr>ts_last_sample := l\<rparr>) = ts_config s"
  "ts_config (ts_update_first_last_timestamps s) = ts_config s" "ts_config (ts_update_last_sample s) = ts_config s"
  "ts_config (ts_record_appended_sample x s) = ts_config s"
  by (simp_all add: ts_config_def ts_update_first_last_timestamps_def ts_update_last_sample_def ts_record_appended_sample_def)

lemma ts_config_eqD:
  assumes "ts_config s = ts_config t"
  shows "ts_retention s = ts_retention t" "ts_sample_duplicates s = ts_sample_duplicates t"
    "ts_chunk_encoding s = ts_chunk_encoding t" "ts_rounding s = ts_rounding t" "ts_chunk_size_bytes s = ts_chunk_size_bytes t"
    "ts_src_series s = ts_src_series t" "ts_last_forward_close s = ts_last_forward_close t"
  using arg_cong [OF assms, of ts_retention]
    arg_cong [OF assms, of ts_sample_duplicates]
    arg_cong [OF assms, of ts_chunk_encoding]
    arg_cong [OF assms, of ts_rounding]
    arg_cong [OF assms, of ts_chunk_size_bytes]
    arg_cong [OF assms, of ts_src_series]
    arg_cong [OF assms, of ts_last_forward_close]
  by (simp_all add: ts_config_def)

lemma ts_samples_simps [simp]:
  "ts_samples h (s\<lparr>ts_chunks := cs\<rparr>) = chunks_samples (host_log10 h) cs" "ts_samples h (s\<lparr>ts_total_samples := n\<rparr>) = ts_samples h s"
  "ts_samples h (s\<lparr>ts_first_timestamp := t\<rparr>) = ts_samples h s" "ts_samples h (s\<lparr>ts_last_sample := l\<rparr>) = ts_samples h s"
  "ts_samples h (ts_update_first_last_timestamps s) = ts_samples h s" "ts_samples h (ts_update_last_sample s) = ts_samples h s"
  "ts_samples h (ts_record_appended_sample x s) = ts_samples h s"
  by (simp_all add: ts_samples_def ts_update_first_last_timestamps_def ts_update_last_sample_def ts_record_appended_sample_def)

lemma ts_inv_valid: "ts_inv h s \<Longrightarrow> valid_samples (ts_samples h s)"
  by (simp add: ts_inv_def ts_samples_def chunks_ok_valid)

lemma chunks_samples_Nil: "chunks_ok lg cs \<Longrightarrow> chunks_samples lg cs = [] \<longleftrightarrow> cs = []"
  by (cases cs) (auto simp: chunk_ok_def)

lemma ts_chunks_Nil: "ts_inv h s \<Longrightarrow> ts_samples h s = [] \<longleftrightarrow> ts_chunks s = []"
  by (simp add: ts_inv_def ts_samples_def chunks_samples_Nil)

lemma ts_invD:
  assumes "ts_inv h s"
  shows "chunks_ok (host_log10 h) (ts_chunks s)" "48 \<le> ts_chunk_size_bytes s" "ts_chunk_size_bytes s < 2 ^ 53"
    "ts_total_samples s = length (ts_samples h s)"
    "ts_first_timestamp s = (if ts_samples h s = [] then 0 else timestamp (hd (ts_samples h s)))"
    "ts_last_sample s = (if ts_samples h s = [] then None else Some (List.last (ts_samples h s)))"
  using assms unfolding ts_inv_def by blast+

lemma ts_ends:
  assumes "ts_inv h s" "x \<in> set (ts_samples h s)"
  shows "ts_first_timestamp s \<le> timestamp x" "timestamp x \<le> ts_last_timestamp s"
  using ts_invD(5,6) [OF assms(1)] ts_inv_valid [OF assms(1)] assms(2) ksorted_hd [of timestamp "ts_samples h s" x]
    ksorted_last [of timestamp "ts_samples h s" x] by (auto simp: ts_last_timestamp_def)

lemma ts_is_empty_iff: "ts_inv h s \<Longrightarrow> ts_is_empty s \<longleftrightarrow> ts_chunks s = []"
  using ts_chunks_Nil [of h s] ts_invD(4) [of h s] by (metis length_0_conv ts_is_empty_def ts_len_def)

text \<open>The window a reader sees.\<close>

definition ts_visible :: "host \<Rightarrow> time_series \<Rightarrow> sample list" where
  "ts_visible h s = filter (\<lambda>x. ts_get_min_timestamp s \<le> timestamp x) (ts_samples h s)"

section \<open>Insertion into a list in parts\<close>

lemma list_insert_left:
  "\<forall>a\<in>set as. timestamp a < timestamp x \<Longrightarrow> list_insert p x (as @ bs) = map_ok ((@) as) (list_insert p x bs)"
  by (cases "list_insert p x bs"; induction as; simp)

lemma list_insert_right:
  "\<forall>c\<in>set cs. timestamp x < timestamp c \<Longrightarrow> list_insert p x (bs @ cs) = map_ok (\<lambda>ys. ys @ cs) (list_insert p x bs)"
proof (induction bs)
  case Nil
  then show ?case by (cases cs) auto
next
  case (Cons b bs)
  then show ?case by (cases "list_insert p x bs"; cases "duplicate_value p (timestamp b) (val b) (val x)") auto
qed

lemma list_insert_between:
  assumes "\<forall>a\<in>set as. timestamp a < timestamp x" "\<forall>c\<in>set cs. timestamp x < timestamp c"
  shows "list_insert p x (as @ bs @ cs) = map_ok (\<lambda>ys. as @ ys @ cs) (list_insert p x bs)"
  using list_insert_left [OF assms(1), of p "bs @ cs"] list_insert_right [OF assms(2), of p bs]
  by (cases "list_insert p x bs") auto

lemma list_insert_hd:
  "list_insert p x xs = Inr ys \<Longrightarrow> ys \<noteq> [] \<and> timestamp (hd ys) = (if xs = [] then timestamp x else min (timestamp x) (timestamp (hd xs)))"
  by (cases xs) (auto simp: map_ok_eq_Inr_iff split: if_splits)

lemma partition_point_eq:
  assumes "k \<le> length xs" "\<And>j. j < k \<Longrightarrow> P (xs ! j)" "\<And>j. k \<le> j \<Longrightarrow> j < length xs \<Longrightarrow> \<not> P (xs ! j)"
  shows "partition_point P xs = k"
proof -
  let ?f = "\<lambda>x. if P x then Less else Greater"
  have s: "cmp_sorted ?f xs" unfolding cmp_sorted_def sorted_wrt_iff_nth_less
  proof (intro allI impI)
    fix i j assume "i < j" "j < length xs"
    then show "rank (?f (xs ! i)) \<le> rank (?f (xs ! j))" using assms(2) [of i] assms(3) [of i] assms(3) [of j] by (cases "i < k") auto
  qed
  show ?thesis
  proof (cases "binary_search_by ?f xs")
    case (Inl i)
    note sp = binary_search_by_Inl [OF s Inl]
    have "\<not> i < k" using sp assms(2) [of i] assms(1) by (auto split: if_splits)
    moreover have "\<not> k < i" using sp assms(3) [of k] by (auto split: if_splits)
    ultimately show ?thesis using Inl by (simp add: partition_point_def)
  next
    case (Inr i)
    then show ?thesis using binary_search_by_Inr [OF s Inr] by (simp split: if_splits)
  qed
qed

text \<open>
  What an add does to the series, whatever it answers: it inserts the sample under the duplicate policy and
  says so, or it leaves the stored samples as they were.
\<close>

definition ts_added :: "host \<Rightarrow> duplicate_policy \<Rightarrow> sample \<Rightarrow> time_series \<Rightarrow> sample_add_result \<times> time_series \<Rightarrow> bool" where
  "ts_added h p x s out \<longleftrightarrow>
     (case out of (r, s') \<Rightarrow> ts_inv h s' \<and> ts_config s' = ts_config s \<and>
       (if add_result_is_ok r then r = AddOk x \<and> list_insert p x (ts_samples h s) = Inr (ts_samples h s')
        else ts_samples h s' = ts_samples h s))"

text \<open>The answer an add gives, in terms of the sorted list.\<close>

definition ts_add_answer :: "host \<Rightarrow> timestamp \<Rightarrow> f64 \<Rightarrow> duplicate_policy option \<Rightarrow> time_series \<Rightarrow> sample_add_result" where
  "ts_add_answer h ts v ov s =
     (let x = ts_make_sample h s ts v;
          inserted = (case list_insert (resolve_policy (host_duplicate_policy h) (ts_sample_duplicates s) ov) x (ts_samples h s) of
            Inl e \<Rightarrow> AddDuplicate | Inr ys \<Rightarrow> AddOk x) in
      if ts_is_older_than_retention s ts then AddTooOld
      else case ts_last_sample s of
          None \<Rightarrow> inserted
        | Some l \<Rightarrow>
            if timestamp l \<le> ts \<and> is_duplicate (host_duplicate_policy h) (ts_sample_duplicates s) x l ov
            then AddIgnored (timestamp l) else inserted)"

text \<open>
  An uncompressed chunk with fewer than twice the samples it is meant to hold: the lower half of its split has
  room. Compressed chunks need no room to take an insertion.
\<close>

fun tsc_roomy :: "timeseries_chunk \<Rightarrow> bool" where
  "tsc_roomy (UncompressedC c) \<longleftrightarrow> uc_len c < 2 * uc_max_elements c"
| "tsc_roomy (GorillaC c) \<longleftrightarrow> True"
| "tsc_roomy (ChimpC c) \<longleftrightarrow> True"

lemma tsc_roomy_split:
  assumes "tsc_roomy c" "tsc_split lg c = Inr (l, r)" "2 \<le> length (tsc_samples lg c)"
  shows "tsc_is_compressed l \<or> \<not> tsc_is_full l"
proof (cases c)
  case (UncompressedC u)
  then have "l = UncompressedC (u\<lparr>uc_samples := take (length (uc_samples u) div 2) (uc_samples u)\<rparr>)"
    using assms(2,3) by (auto simp: uc_split_def Let_def split: if_splits)
  then show ?thesis using assms(1) UncompressedC by (simp add: uc_is_full_def uc_len_def)
qed (use assms(2) in \<open>auto simp: map_ok_eq_Inr_iff\<close>)

lemma ts_chunks_id [simp]: "s\<lparr>ts_chunks := ts_chunks s\<rparr> = s"
  by (cases s) simp

text \<open>The chunks left after a trim, the number of samples it drops, and what is known of them.\<close>

definition trim_cut :: "host \<Rightarrow> time_series \<Rightarrow> bool \<Rightarrow> nat \<Rightarrow> timeseries_chunk list \<Rightarrow> bool" where
  "trim_cut h s force n cs \<longleftrightarrow>
     chunks_ok (host_log10 h) cs \<and> chunks_samples (host_log10 h) cs = drop n (ts_samples h s) \<and>
     n + length (chunks_samples (host_log10 h) cs) = length (ts_samples h s) \<and> (n = 0 \<longrightarrow> cs = ts_chunks s) \<and>
     (\<forall>x\<in>set (take n (ts_samples h s)). timestamp x < ts_get_min_timestamp s) \<and>
     (force \<longrightarrow> (\<forall>x\<in>set (chunks_samples (host_log10 h) cs). ts_get_min_timestamp s \<le> timestamp x))"

text \<open>What a delete keeps of a chunk.\<close>

definition keeps :: "host \<Rightarrow> timestamp \<Rightarrow> timestamp \<Rightarrow> timeseries_chunk \<Rightarrow> timeseries_chunk \<Rightarrow> bool" where
  "keeps h a b c c' \<longleftrightarrow> tsc_inv (host_log10 h) c' \<and> tsc_limits c' = tsc_limits c \<and>
     tsc_samples (host_log10 h) c' = filter (\<lambda>x. \<not> in_range a b x) (tsc_samples (host_log10 h) c)"

section \<open>Writes\<close>

locale series_host =
  fixes h :: host
  assumes host_log: "log10_ok (host_log10 h)"

sublocale series_host \<subseteq> chimp_log "host_log10 h"
  by unfold_locales (rule host_log)

context series_host
begin

lemma chunks_ends:
  assumes "chunks_ok (host_log10 h) cs" "cs \<noteq> []"
  shows "tsc_first_timestamp (hd cs) = timestamp (hd (chunks_samples (host_log10 h) cs))"
    "tsc_last_sample (List.last cs) = Some (List.last (chunks_samples (host_log10 h) cs))"
    "tsc_last_timestamp (List.last cs) = timestamp (List.last (chunks_samples (host_log10 h) cs))"
proof -
  obtain c ds where c: "cs = c # ds" using assms(2) by (cases cs) auto
  then show "tsc_first_timestamp (hd cs) = timestamp (hd (chunks_samples (host_log10 h) cs))"
    using assms(1) by (simp add: chunk_bounds chunk_ok_def hd_append)
  obtain es d where d: "cs = es @ [d]" using assms(2) by (cases cs rule: rev_cases) auto
  then have ok: "chunk_ok (host_log10 h) d" using assms(1) by (simp add: chunks_ok_append)
  then show "tsc_last_sample (List.last cs) = Some (List.last (chunks_samples (host_log10 h) cs))"
    "tsc_last_timestamp (List.last cs) = timestamp (List.last (chunks_samples (host_log10 h) cs))"
    by (simp_all add: d last_sample chunk_ok_def chunk_bounds last_append)
qed

lemma first_of_head:
  assumes "ts_inv h s" "ts_chunks s = c # cs" shows "ts_first_timestamp s = tsc_first_timestamp c"
proof -
  have "ts_samples h s \<noteq> []" "ts_chunks s \<noteq> []" using assms(2) ts_chunks_Nil [OF assms(1)] by simp_all
  then show ?thesis using ts_invD(5) [OF assms(1)] chunks_ends(1) [OF ts_invD(1) [OF assms(1)]]
    unfolding ts_samples_def [symmetric] by (simp add: assms(2))
qed

lemma summary_refreshed:
  assumes "chunks_ok (host_log10 h) (ts_chunks s)" "48 \<le> ts_chunk_size_bytes s" "ts_chunk_size_bytes s < 2 ^ 53"
    "ts_total_samples s = length (ts_samples h s)"
  shows "ts_inv h (ts_update_first_last_timestamps s)"
proof -
  have "ts_chunks s = [] \<longleftrightarrow> ts_samples h s = []" using chunks_samples_Nil [OF assms(1)] by (simp add: ts_samples_def)
  then show ?thesis using assms chunks_ends [OF assms(1)] unfolding ts_inv_def ts_samples_simps
    by (simp add: ts_update_first_last_timestamps_def ts_samples_def)
qed

lemma new_series:
  assumes "ts_with_options h opts = Inr s" shows "ts_inv h s \<and> ts_samples h s = []"
proof -
  have s: "ts_chunks s = []" "ts_total_samples s = 0" "ts_first_timestamp s = 0" "ts_last_sample s = None"
    "48 \<le> ts_chunk_size_bytes s" "ts_chunk_size_bytes s \<le> 1048576"
    using assms by (auto simp: ts_with_options_def ts_default_def DEFAULT_CHUNK_SIZE_BYTES_def validate_chunk_size_def
        MIN_CHUNK_SIZE_def MAX_CHUNK_SIZE_def split: option.splits prod.splits if_splits)
  have "(1048576 :: nat) < 2 ^ 53" by simp
  then show ?thesis using s by (simp add: ts_inv_def ts_samples_def)
qed

lemma series_of_chunk:
  assumes "ts_from_chunk h c = Inr s" "chunk_ok (host_log10 h) c"
  shows "ts_inv h s \<and> ts_samples h s = tsc_samples (host_log10 h) c"
proof -
  let ?o = "options_default\<lparr>opt_chunk_size := Some (tsc_max_size c), opt_chunk_encoding := tsc_get_encoding c\<rparr>"
  obtain t where t: "ts_with_options h ?o = Inr t"
    "s = ts_update_first_last_timestamps (t\<lparr>ts_total_samples := tsc_len c, ts_chunks := ts_chunks t @ [c]\<rparr>)"
    using assms(1) by (auto simp: ts_from_chunk_def map_ok_eq_Inr_iff)
  note n = new_series [OF t(1)]
  then have e: "ts_chunks t = []" using ts_chunks_Nil by blast
  have "valid_samples (tsc_samples (host_log10 h) c)" using assms(2) tc.valid by (simp add: chunk_ok_def)
  then have "ts_inv h s" using n e assms(2) ts_invD(2,3) [of h t] tc.len unfolding t(2)
    by (intro summary_refreshed) (simp_all add: chunk_ok_def)
  then show ?thesis by (simp add: t(2) e)
qed

lemma created:
  assumes "ts_inv h s" "valid_ts (timestamp x)"
  shows "\<exists>c. tsc_add_sample (host_log10 h) x (ts_create_chunk s) = Inr c \<and> chunk_ok (host_log10 h) c \<and>
    tsc_samples (host_log10 h) c = [x]"
proof -
  note b = ts_invD(2,3) [OF assms(1)]
  let ?n = "tsc_new (ts_chunk_encoding s) (ts_chunk_size_bytes s)"
  obtain c where c: "tsc_add_sample (host_log10 h) x ?n = Inr c" "tsc_inv (host_log10 h) c" "tsc_samples (host_log10 h) c = [x]"
    using tc.add_sample [where c = ?n and s = x] tsc_new_sizes(3) [OF b(1)] assms(2) by (auto simp: created_chunk)
  moreover have "tsc_limits c = tsc_limits ?n" using tsc_limits(1) [OF c(1)] .
  ultimately show ?thesis using b tsc_new_sizes(1,2) [where enc = "ts_chunk_encoding s" and sz = "ts_chunk_size_bytes s"]
    by (auto simp: ts_create_chunk_def chunk_ok_def limits_ok_def)
qed

lemma recorded:
  assumes "ts_inv h s" "chunks_ok (host_log10 h) cs" "chunks_samples (host_log10 h) cs = ts_samples h s @ [x]"
  shows "ts_inv h (ts_record_appended_sample x (s\<lparr>ts_chunks := cs\<rparr>))"
  using assms(2,3) ts_invD [OF assms(1)] unfolding ts_inv_def ts_samples_simps
  by (simp add: ts_record_appended_sample_def hd_append)

lemma full_chunk_appends:
  assumes "ts_inv h s" "valid_samples (ts_samples h s @ [x])"
  shows "\<exists>s'. ts_handle_full_chunk h x s = (AddOk x, s') \<and> ts_inv h s' \<and> ts_samples h s' = ts_samples h s @ [x] \<and>
    ts_config s' = ts_config s"
proof -
  obtain c where c: "tsc_add_sample (host_log10 h) x (ts_create_chunk s) = Inr c" "chunk_ok (host_log10 h) c"
    "tsc_samples (host_log10 h) c = [x]" using created [OF assms(1)] assms(2) by (auto simp: valid_samples_append)
  then have "chunks_ok (host_log10 h) (ts_chunks s @ [c])"
    using ts_invD(1) [OF assms(1)] assms(2) by (simp add: chunks_ok_append valid_samples_append ts_samples_def)
  then have "ts_inv h (ts_record_appended_sample x (s\<lparr>ts_chunks := ts_chunks s @ [c]\<rparr>))"
    using c by (intro recorded [OF assms(1)]) (simp_all add: ts_samples_def)
  then show ?thesis using c by (simp add: ts_handle_full_chunk_def ts_add_chunk_with_sample_def) (simp add: ts_samples_def)
qed

lemma appends:
  assumes "ts_inv h s" "valid_samples (ts_samples h s @ [x])"
  shows "\<exists>s'. ts_add_sample_internal h x s = (AddOk x, s') \<and> ts_inv h s' \<and> ts_samples h s' = ts_samples h s @ [x] \<and>
    ts_config s' = ts_config s"
proof (cases "ts_chunks s" rule: rev_cases)
  case Nil
  have n: "\<not> tsc_is_full (ts_create_chunk s)" using tsc_new_sizes(3) ts_invD(2) [OF assms(1)] by (simp add: ts_create_chunk_def)
  obtain c where c: "tsc_add_sample (host_log10 h) x (ts_create_chunk s) = Inr c" "chunk_ok (host_log10 h) c"
    "tsc_samples (host_log10 h) c = [x]" using created [OF assms(1)] assms(2) by (auto simp: valid_samples_append)
  have e: "ts_samples h s = []" using Nil by (simp add: ts_samples_def)
  then have "ts_inv h (ts_record_appended_sample x (s\<lparr>ts_chunks := [c]\<rparr>))"
    using c assms(2) by (intro recorded [OF assms(1)]) simp_all
  then show ?thesis using c n Nil e
    by (simp add: ts_add_sample_internal_def ts_get_last_chunk_def ts_append_chunk_def)
next
  case (snoc ds d)
  show ?thesis
  proof (cases "tsc_is_full d")
    case True
    then show ?thesis using full_chunk_appends [OF assms] snoc
      by (simp add: ts_add_sample_internal_def ts_get_last_chunk_def)
  next
    case False
    have ok: "chunks_ok (host_log10 h) (ds @ [d])" using ts_invD(1) [OF assms(1)] snoc by simp
    then have d: "tsc_inv (host_log10 h) d" by (simp add: chunks_ok_append chunk_ok_def)
    have v: "valid_samples (tsc_samples (host_log10 h) d @ [x])"
      using assms(2) snoc by (simp add: ts_samples_def valid_samples_append)
    obtain c where c: "tsc_add_sample (host_log10 h) x d = Inr c" "tsc_inv (host_log10 h) c"
      "tsc_samples (host_log10 h) c = tsc_samples (host_log10 h) d @ [x]" using tc.add_sample [OF d False v] by blast
    then have "chunks_ok (host_log10 h) (ds @ [c])"
      using ok v assms(2) snoc tsc_limits(1) [OF c(1)]
      by (simp add: chunks_ok_append valid_samples_append ts_samples_def chunk_ok_def ball_Un)
    then have "ts_inv h (ts_record_appended_sample x (s\<lparr>ts_chunks := ds @ [c]\<rparr>))"
      using c snoc by (intro recorded [OF assms(1)]) (simp_all add: ts_samples_def)
    then show ?thesis using c False snoc
      by (simp add: ts_add_sample_internal_def ts_get_last_chunk_def) (simp add: ts_samples_def)
  qed
qed

text \<open>An upsert goes to the first chunk that reaches its timestamp.\<close>

lemma located:
  assumes "chunks_ok (host_log10 h) cs" "i = lower_bound tsc_last_timestamp ts cs" "i < length cs"
  shows "\<forall>a\<in>set (chunks_samples (host_log10 h) (take i cs)). timestamp a < ts"
    "\<forall>c\<in>set (chunks_samples (host_log10 h) (drop (Suc i) cs)). ts < timestamp c"
    "ts \<le> tsc_last_timestamp (cs ! i)"
proof -
  have inv: "tsc_inv (host_log10 h) c" if "c \<in> set cs" for c using that assms(1) by (simp add: chunks_ok_def chunk_ok_def)
  show le: "ts \<le> tsc_last_timestamp (cs ! i)" using lower_bound_ge [OF chunks_keys(1) [OF assms(1)]] assms(2,3) by simp
  show "\<forall>a\<in>set (chunks_samples (host_log10 h) (take i cs)). timestamp a < ts"
  proof
    fix a assume "a \<in> set (chunks_samples (host_log10 h) (take i cs))"
    then obtain c where c: "c \<in> set (take i cs)" "a \<in> set (tsc_samples (host_log10 h) c)" by (auto simp: set_chunks_samples)
    then obtain j where "j < i" "c = cs ! j" by (auto simp: in_set_conv_nth)
    then have "tsc_last_timestamp c < ts" using lower_bound_less [of j tsc_last_timestamp ts cs] assms(2) by simp
    then show "timestamp a < ts" using ends(2) [OF inv c(2)] c(1) by (auto dest: in_set_takeD)
  qed
  show "\<forall>c\<in>set (chunks_samples (host_log10 h) (drop (Suc i) cs)). ts < timestamp c"
  proof
    fix a assume "a \<in> set (chunks_samples (host_log10 h) (drop (Suc i) cs))"
    then obtain c where c: "c \<in> set (drop (Suc i) cs)" "a \<in> set (tsc_samples (host_log10 h) c)" by (auto simp: set_chunks_samples)
    obtain j where "j < length (drop (Suc i) cs)" "c = drop (Suc i) cs ! j" using c(1) by (metis in_set_conv_nth)
    then have "Suc i + j < length cs" "c = cs ! (Suc i + j)" by simp_all
    then have "ts < tsc_first_timestamp c" using chunks_apart [OF assms(1), of i "Suc i + j"] le by simp
    then show "ts < timestamp a" using ends(1) [OF inv c(2)] c(1) by (auto dest: in_set_dropD)
  qed
qed

lemma upsert_target:
  assumes "ts_inv h s" "ts_chunks s \<noteq> []" "ts \<le> timestamp (List.last (ts_samples h s))"
  shows "lower_bound tsc_last_timestamp ts (ts_chunks s) < length (ts_chunks s)"
    "(if ts \<le> ts_first_timestamp s then 0 else ts_upsert_target s ts) = lower_bound tsc_last_timestamp ts (ts_chunks s)"
proof -
  let ?cs = "ts_chunks s" and ?i = "lower_bound tsc_last_timestamp ts (ts_chunks s)"
  note ok = ts_invD(1) [OF assms(1)]
  have le: "ts \<le> tsc_last_timestamp (?cs ! (length ?cs - 1))"
    using assms(3) chunks_ends(3) [OF ok assms(2)] by (simp add: ts_samples_def last_conv_nth assms(2))
  show lt: "?i < length ?cs"
  proof (rule ccontr)
    assume "\<not> ?i < length ?cs"
    then have "length ?cs - 1 < ?i" using assms(2) by (metis Suc_pred' diff_less length_greater_0_conv less_numeral_extra(1) linorder_neqE_nat not_less_eq less_trans)
    then show False using lower_bound_less le by (metis not_le)
  qed
  show "(if ts \<le> ts_first_timestamp s then 0 else ts_upsert_target s ts) = ?i"
  proof (cases "ts \<le> ts_first_timestamp s")
    case True
    have "ts_first_timestamp s = tsc_first_timestamp (?cs ! 0)"
      using ts_invD(5) [OF assms(1)] ts_chunks_Nil [OF assms(1)] chunks_ends(1) [OF ok assms(2)] assms(2)
      by (simp add: ts_samples_def hd_conv_nth)
    moreover have "chunk_ok (host_log10 h) (?cs ! 0)" using ok assms(2) by (simp add: chunks_ok_def)
    ultimately have "ts \<le> tsc_last_timestamp (?cs ! 0)" using True chunk_bounds(3) [of "?cs ! 0"] by simp
    then show ?thesis using True lower_bound_less [of 0 tsc_last_timestamp ts ?cs] by (cases "?i = 0") auto
  next
    case False
    show ?thesis
    proof (cases "snd (get_chunk_index ?cs ts)")
      case True
      then show ?thesis using False chunk_index_found(2) [OF ok True] by (simp add: ts_upsert_target_def case_prod_unfold)
    next
      case miss: False
      then have above: "ts < tsc_first_timestamp (?cs ! ?i)" using chunk_index_found(1) [OF ok] lt by (simp add: Let_def)
      have below: "\<not> ts < tsc_first_timestamp (?cs ! j)" if "j < ?i" for j
        using lower_bound_less [OF that] chunk_bounds(3) [of "?cs ! j"] ok that lt by (simp add: chunks_ok_def)
      have "position (\<lambda>c. ts < tsc_first_timestamp c) ?cs = Some ?i"
      proof (cases "position (\<lambda>c. ts < tsc_first_timestamp c) ?cs")
        case None
        then show ?thesis using above lt by (simp add: position_None)
      next
        case (Some k)
        have "\<not> k < ?i" "\<not> ?i < k" using position_Some [OF Some] below above by auto
        then show ?thesis using Some by simp
      qed
      then show ?thesis using False miss by (simp add: ts_upsert_target_def case_prod_unfold)
    qed
  qed
qed

lemma chunks_replaced:
  assumes "chunks_ok (host_log10 h) cs" "i < length cs" "\<forall>d\<in>set ds. chunk_ok (host_log10 h) d"
    "chunks_samples (host_log10 h) ds = tsc_samples (host_log10 h) (cs ! i)"
  shows "chunks_ok (host_log10 h) (take i cs @ ds @ drop (Suc i) cs)"
    "chunks_samples (host_log10 h) (take i cs @ ds @ drop (Suc i) cs) = chunks_samples (host_log10 h) cs"
proof -
  have cs: "cs = take i cs @ cs ! i # drop (Suc i) cs" using assms(2) by (rule id_take_nth_drop)
  show eq: "chunks_samples (host_log10 h) (take i cs @ ds @ drop (Suc i) cs) = chunks_samples (host_log10 h) cs"
    using assms(4) arg_cong [OF cs, of "chunks_samples (host_log10 h)"] by simp
  show "chunks_ok (host_log10 h) (take i cs @ ds @ drop (Suc i) cs)"
    using assms(1,3) eq unfolding chunks_ok_def by (auto dest: in_set_takeD in_set_dropD)
qed

lemma chunks_inserted:
  assumes "chunks_ok (host_log10 h) cs" "i = lower_bound tsc_last_timestamp (timestamp x) cs" "i < length cs"
    "valid_ts (timestamp x)" "\<forall>d\<in>set ds. chunk_ok (host_log10 h) d"
    "list_insert p x (tsc_samples (host_log10 h) (cs ! i)) = Inr (chunks_samples (host_log10 h) ds)"
  shows "chunks_ok (host_log10 h) (take i cs @ ds @ drop (Suc i) cs)"
    "list_insert p x (chunks_samples (host_log10 h) cs) = Inr (chunks_samples (host_log10 h) (take i cs @ ds @ drop (Suc i) cs))"
proof -
  have cs: "cs = take i cs @ cs ! i # drop (Suc i) cs" using assms(3) by (rule id_take_nth_drop)
  show ins: "list_insert p x (chunks_samples (host_log10 h) cs) = Inr (chunks_samples (host_log10 h) (take i cs @ ds @ drop (Suc i) cs))"
    using list_insert_between [OF located(1,2) [OF assms(1-3)], of p] assms(6) by (subst cs) simp
  show "chunks_ok (host_log10 h) (take i cs @ ds @ drop (Suc i) cs)"
    using assms(1,5) list_insert_valid [OF chunks_ok_valid [OF assms(1)] assms(4) ins] unfolding chunks_ok_def
    by (auto dest: in_set_takeD in_set_dropD)
qed

lemma chunks_refused:
  assumes "chunks_ok (host_log10 h) cs" "i = lower_bound tsc_last_timestamp (timestamp x) cs" "i < length cs"
    "list_insert p x (tsc_samples (host_log10 h) (cs ! i)) = Inl e"
  shows "list_insert p x (chunks_samples (host_log10 h) cs) = Inl e"
proof -
  have cs: "cs = take i cs @ cs ! i # drop (Suc i) cs" using assms(3) by (rule id_take_nth_drop)
  show ?thesis using list_insert_between [OF located(1,2) [OF assms(1-3)], of p] assms(4) by (subst cs) simp
qed

lemma upsert_summary:
  assumes "ts_inv h s" "i < length (ts_chunks s)" "chunks_ok (host_log10 h) ((ts_chunks s)[i := d])"
    "list_insert p x (ts_samples h s) = Inr (chunks_samples (host_log10 h) ((ts_chunks s)[i := d]))"
    "list_insert p x (tsc_samples (host_log10 h) (ts_chunks s ! i)) = Inr (tsc_samples (host_log10 h) d)"
    "s3 = (if Suc i = length (ts_chunks s) then ts_update_last_sample else id) (s\<lparr>ts_chunks := (ts_chunks s)[i := d],
      ts_total_samples := ts_total_samples s + (length (tsc_samples (host_log10 h) d) - length (tsc_samples (host_log10 h) (ts_chunks s ! i)))\<rparr>)"
  shows "ts_inv h (s3\<lparr>ts_first_timestamp := min (timestamp x) (ts_first_timestamp s3)\<rparr>)"
proof -
  let ?cs = "(ts_chunks s)[i := d]" and ?c = "ts_chunks s ! i"
  note ok = ts_invD(1) [OF assms(1)] and s3_def = assms(6)
  have ne': "ts_chunks s \<noteq> []" and c: "tsc_inv (host_log10 h) ?c" "tsc_samples (host_log10 h) ?c \<noteq> []"
    using ok assms(2) by (auto simp: chunks_ok_def chunk_ok_def)
  have B: "ts_samples h s = chunks_samples (host_log10 h) (take i (ts_chunks s)) @ tsc_samples (host_log10 h) ?c @
      chunks_samples (host_log10 h) (drop (Suc i) (ts_chunks s))"
    using arg_cong [OF id_take_nth_drop [OF assms(2)], of "chunks_samples (host_log10 h)"] by (simp add: ts_samples_def)
  have Y: "chunks_samples (host_log10 h) ?cs = chunks_samples (host_log10 h) (take i (ts_chunks s)) @ tsc_samples (host_log10 h) d @
      chunks_samples (host_log10 h) (drop (Suc i) (ts_chunks s))" using assms(2) by (simp add: upd_conv_take_nth_drop)
  have ne: "ts_samples h s \<noteq> []" "chunks_samples (host_log10 h) ?cs \<noteq> []"
    using c(2) list_insert_hd [OF assms(4)] by (simp_all add: B)
  have "length (tsc_samples (host_log10 h) ?c) \<le> length (tsc_samples (host_log10 h) d)"
    using list_insert_length [OF _ assms(5)] tc.valid [OF c(1)] by auto
  then have total: "ts_total_samples s3 = length (chunks_samples (host_log10 h) ?cs)"
    using ts_invD(4) [OF assms(1)] by (simp add: s3_def ts_update_last_sample_def Y B tc.len [OF c(1)])
  have last: "ts_last_sample s3 = Some (List.last (chunks_samples (host_log10 h) ?cs))"
  proof (cases "Suc i = length (ts_chunks s)")
    case True
    then show ?thesis using chunks_ends(2) [OF assms(3)] ne' by (simp add: s3_def ts_update_last_sample_def)
  next
    case False
    then have "chunks_samples (host_log10 h) (drop (Suc i) (ts_chunks s)) \<noteq> []"
      using assms(2) chunks_samples_Nil [OF chunks_ok_drop [OF ok]] by simp
    then show ?thesis using False ts_invD(6) [OF assms(1)] ne by (simp add: s3_def B Y)
  qed
  have "ts_first_timestamp s3 = timestamp (hd (ts_samples h s))"
    using ts_invD(5) [OF assms(1)] ne by (simp add: s3_def ts_update_last_sample_def)
  then have first: "min (timestamp x) (ts_first_timestamp s3) = timestamp (hd (chunks_samples (host_log10 h) ?cs))"
    using list_insert_hd [OF assms(4)] ne by simp
  have s3: "ts_chunks s3 = ?cs" "ts_chunk_size_bytes s3 = ts_chunk_size_bytes s" "ts_samples h s3 = chunks_samples (host_log10 h) ?cs"
    by (simp_all add: s3_def ts_update_last_sample_def ts_samples_def)
  show ?thesis
    unfolding ts_inv_def ts_samples_simps s3 first using ts_invD(2,3) [OF assms(1)] assms(3) ne total last by (simp add: s3)
qed

lemma upsert_plain:
  assumes "ts_inv h s" "ts_chunks s \<noteq> []" "valid_ts (timestamp x)" "timestamp x \<le> timestamp (List.last (ts_samples h s))"
    "\<not> ts_is_older_than_retention s (timestamp x)"
    "\<not> tsc_should_split (ts_chunks s ! lower_bound tsc_last_timestamp (timestamp x) (ts_chunks s))"
    "p = resolve_policy (host_duplicate_policy h) (ts_sample_duplicates s) ov"
  shows "case list_insert p x (ts_samples h s) of
      Inl e \<Rightarrow> ts_upsert_sample h x ov s = (AddDuplicate, s)
    | Inr ys \<Rightarrow> \<exists>s'. ts_upsert_sample h x ov s = (AddOk x, s') \<and> ts_inv h s' \<and> ts_samples h s' = ys \<and> ts_config s' = ts_config s"
proof -
  define i where "i = lower_bound tsc_last_timestamp (timestamp x) (ts_chunks s)"
  note ok = ts_invD(1) [OF assms(1)]
  note t = upsert_target [OF assms(1,2,4), folded i_def]
  let ?c = "ts_chunks s ! i"
  have c: "chunk_ok (host_log10 h) ?c" using ok t(1) by (simp add: chunks_ok_def)
  then have c': "tsc_inv (host_log10 h) ?c" "tsc_samples (host_log10 h) ?c \<noteq> []" by (simp_all add: chunk_ok_def)
  have le: "timestamp x \<le> timestamp (List.last (tsc_samples (host_log10 h) ?c))"
    using located(3) [OF ok i_def t(1)] chunk_bounds(2) [OF c] by simp
  note ups = upserts [OF c'(1) assms(3) c'(2), of p]
  note unf = ts_upsert_sample_def Let_def assms(5) t(2) assms(7) [symmetric]
  show ?thesis
  proof (cases "list_insert p x (tsc_samples (host_log10 h) ?c)")
    case (Inl e)
    then have "ts_upsert_sample h x ov s = (AddDuplicate, s)" using ups(2) le assms(6) t(1) by (simp add: unf i_def [symmetric])
    then show ?thesis using chunks_refused [OF ok i_def t(1) Inl] by (simp add: ts_samples_def)
  next
    case (Inr ys)
    then obtain d where d: "tsc_upsert (host_log10 h) ?c x p = ((length ys, AddOk x), d)" "tsc_inv (host_log10 h) d"
      "tsc_samples (host_log10 h) d = ys" "tsc_limits d = tsc_limits ?c" using ups(1) le by blast
    have dok: "chunk_ok (host_log10 h) d" using c d list_insert_hd [OF Inr] by (simp add: chunk_ok_def)
    let ?cs = "(ts_chunks s)[i := d]"
    have upd: "?cs = take i (ts_chunks s) @ [d] @ drop (Suc i) (ts_chunks s)" using t(1) by (simp add: upd_conv_take_nth_drop)
    have new: "chunks_ok (host_log10 h) ?cs" and ins: "list_insert p x (ts_samples h s) = Inr (chunks_samples (host_log10 h) ?cs)"
      using chunks_inserted [OF ok i_def t(1) assms(3), of "[d]" p] Inr d(3) dok unfolding upd by (simp_all add: ts_samples_def)
    define s3 where "s3 = (if Suc i = length (ts_chunks s) then ts_update_last_sample else id)
      (s\<lparr>ts_chunks := ?cs, ts_total_samples := ts_total_samples s + (length ys - tsc_len ?c)\<rparr>)"
    have eq: "ts_upsert_sample h x ov s = (AddOk x, s3\<lparr>ts_first_timestamp := min (timestamp x) (ts_first_timestamp s3)\<rparr>)"
      using d(1) assms(6) t(1) by (simp add: unf i_def [symmetric] s3_def)
    have "ts_inv h (s3\<lparr>ts_first_timestamp := min (timestamp x) (ts_first_timestamp s3)\<rparr>)"
      using upsert_summary [OF assms(1) t(1) new ins] Inr d(3) c'(1) by (simp add: s3_def tc.len)
    then show ?thesis using eq ins by (auto simp: s3_def)
  qed
qed

text \<open>The upper half of a split goes right behind the lower one.\<close>

lemma insert_position:
  assumes "chunks_ok (host_log10 h) (take i cs @ [l, r] @ drop (Suc i) cs)" "i < length cs"
  defines "k \<equiv> partition_point (\<lambda>c. tsc_first_timestamp c \<le> tsc_first_timestamp r) (cs[i := l])"
  shows "take k (cs[i := l]) @ r # drop k (cs[i := l]) = take i cs @ [l, r] @ drop (Suc i) cs"
proof -
  let ?all = "take i cs @ [l, r] @ drop (Suc i) cs"
  have srt: "ksorted tsc_first_timestamp ?all" using chunks_keys(2) [OF assms(1)] .
  have len: "length ?all = Suc (length cs)" using assms(2) by simp
  have "k = Suc i" unfolding k_def
  proof (rule partition_point_eq)
    show "Suc i \<le> length (cs[i := l])" using assms(2) by simp
    show "tsc_first_timestamp (cs[i := l] ! j) \<le> tsc_first_timestamp r" if "j < Suc i" for j
      using that ksorted_nth_less [OF srt, of j "Suc i", unfolded len] assms(2) by (cases "j = i") (auto simp: nth_append)
    show "\<not> tsc_first_timestamp (cs[i := l] ! j) \<le> tsc_first_timestamp r" if "Suc i \<le> j" "j < length (cs[i := l])" for j
      using that ksorted_nth_less [OF srt, of "Suc i" "Suc j", unfolded len] assms(2) by (auto simp: nth_append Suc_diff_le)
  qed
  then show ?thesis using assms(2) by (simp add: upd_conv_take_nth_drop)
qed

lemma half_upsert:
  assumes "chunk_ok (host_log10 h) l" "chunk_ok (host_log10 h) r" "valid_ts (timestamp x)"
    "valid_samples (tsc_samples (host_log10 h) l @ tsc_samples (host_log10 h) r)"
    "timestamp x \<le> timestamp (List.last (tsc_samples (host_log10 h) r))"
    "into_new \<longleftrightarrow> tsc_first_timestamp r \<le> timestamp x"
    "tsc_upsert (host_log10 h) (if into_new then r else l) x p = ((n, res), half)"
    "l1 = (if into_new then l else half)" "r1 = (if into_new then half else r)"
    "B = tsc_samples (host_log10 h) l @ tsc_samples (host_log10 h) r"
  shows "if add_result_is_ok res then res = AddOk x \<and> n = length (tsc_samples (host_log10 h) half) \<and>
      chunk_ok (host_log10 h) l1 \<and> chunk_ok (host_log10 h) r1 \<and>
      list_insert p x B = Inr (tsc_samples (host_log10 h) l1 @ tsc_samples (host_log10 h) r1)
    else l1 = l \<and> r1 = r" (is ?sound)
    "tsc_is_compressed l \<or> \<not> tsc_is_full l \<Longrightarrow> res = (case list_insert p x B of Inl e \<Rightarrow> AddDuplicate | Inr ys \<Rightarrow> AddOk x)"
proof -
  let ?lg = "host_log10 h" and ?t = "if into_new then r else l"
  have t: "tsc_inv ?lg ?t" "tsc_samples ?lg ?t \<noteq> []" "chunk_ok ?lg ?t" using assms(1,2) by (simp_all add: chunk_ok_def)
  have ins: "list_insert p x B = map_ok (\<lambda>ys. if into_new then tsc_samples ?lg l @ ys else ys @ tsc_samples ?lg r)
      (list_insert p x (tsc_samples ?lg ?t))"
  proof (cases into_new)
    case True
    then have "timestamp (hd (tsc_samples ?lg r)) \<le> timestamp x" using assms(2,6) by (simp add: chunk_bounds)
    moreover have "hd (tsc_samples ?lg r) \<in> set (tsc_samples ?lg r)" using assms(2) by (simp add: chunk_ok_def)
    ultimately have "\<forall>a\<in>set (tsc_samples ?lg l). timestamp a < timestamp x"
      using assms(4) by (fastforce simp: valid_samples_append)
    then show ?thesis using list_insert_left True assms(10) by simp
  next
    case False
    then have "\<forall>b\<in>set (tsc_samples ?lg r). timestamp x < timestamp b"
      using assms(2,6) ends(1) [of r] by (fastforce simp: chunk_ok_def)
    then show ?thesis using list_insert_right False assms(10) by simp
  qed
  note out = upsert_outcomes [OF t(1) assms(3) t(2) assms(7)]
  show ?sound
  proof (cases "add_result_is_ok res")
    case True
    then have ok: "list_insert p x (tsc_samples ?lg ?t) = Inr (tsc_samples ?lg half)" "chunk_ok ?lg half"
      using out t(3) list_insert_hd [of p x "tsc_samples ?lg ?t"] by (auto simp: chunk_ok_def)
    then show ?thesis using True out ins assms(1,2,8,9) by simp
  next
    case False
    then show ?thesis using out assms(8,9) by simp
  qed
  assume room: "tsc_is_compressed l \<or> \<not> tsc_is_full l"
  have "tsc_is_compressed ?t \<or> timestamp x \<le> timestamp (List.last (tsc_samples ?lg ?t)) \<or> \<not> tsc_is_full ?t"
    using room assms(5) by auto
  note ups = upserts [OF t(1) assms(3) t(2) this, of p]
  show "res = (case list_insert p x B of Inl e \<Rightarrow> AddDuplicate | Inr ys \<Rightarrow> AddOk x)"
    using ups assms(7) unfolding ins by (cases "list_insert p x (tsc_samples ?lg ?t)") fastforce+
qed

lemma upsert_split:
  assumes "ts_inv h s" "valid_ts (timestamp x)" "i = lower_bound tsc_last_timestamp (timestamp x) (ts_chunks s)"
    "i < length (ts_chunks s)" "tsc_should_split (ts_chunks s ! i)"
  shows "ts_added h p x s (ts_split_upsert h x p i (ts_chunks s ! i) s)"
    "tsc_roomy (ts_chunks s ! i) \<Longrightarrow> fst (ts_split_upsert h x p i (ts_chunks s ! i) s) =
       (case list_insert p x (ts_samples h s) of Inl e \<Rightarrow> AddDuplicate | Inr ys \<Rightarrow> AddOk x)"
proof -
  let ?c = "ts_chunks s ! i" and ?lg = "host_log10 h"
  note ok = ts_invD(1) [OF assms(1)]
  have c: "chunk_ok ?lg ?c" using ok assms(4) by (simp add: chunks_ok_def)
  obtain l r where lr: "tsc_split ?lg ?c = Inr (l, r)" "tsc_samples ?lg l @ tsc_samples ?lg r = tsc_samples ?lg ?c"
    and l: "chunk_ok ?lg l" and r: "chunk_ok ?lg r"
    using splits_in_two [of ?c] c chunk_ok_size [OF c] assms(5) by (auto simp: chunk_ok_def)
  have v: "valid_samples (tsc_samples ?lg l @ tsc_samples ?lg r)" using tc.valid c lr(2) by (simp add: chunk_ok_def)
  have ri: "tsc_inv ?lg r" "tsc_samples ?lg r \<noteq> []" and li: "tsc_inv ?lg l" using l r by (simp_all add: chunk_ok_def)
  have le: "timestamp x \<le> timestamp (List.last (tsc_samples ?lg r))"
    using located(3) [OF ok assms(3,4)] chunk_bounds(2) [OF c] ri(2) by (simp add: lr(2) [symmetric])
  define into_new where "into_new \<longleftrightarrow> tsc_first_timestamp r \<le> timestamp x"
  obtain n res half where u: "tsc_upsert ?lg (if into_new then r else l) x p = ((n, res), half)" by (metis prod.collapse)
  define l1 where "l1 = (if into_new then l else half)"
  define r1 where "r1 = (if into_new then half else r)"
  note half = half_upsert [OF l r assms(2) v le into_new_def u l1_def r1_def lr(2) [symmetric]]
  have r1: "chunk_ok ?lg l1" "chunk_ok ?lg r1" using half(1) l r by (auto split: if_splits)
  let ?cs = "take i (ts_chunks s) @ [l1, r1] @ drop (Suc i) (ts_chunks s)"
  have cs: "chunks_ok ?lg ?cs" and ins: "if add_result_is_ok res then list_insert p x (ts_samples h s) = Inr (chunks_samples ?lg ?cs)
      else chunks_samples ?lg ?cs = ts_samples h s"
    using half(1) chunks_inserted [OF ok assms(3,4,2), of "[l1, r1]" p] chunks_replaced [OF ok assms(4), of "[l1, r1]"] r1 lr(2)
    by (auto simp: ts_samples_def split: if_splits)
  have eq: "ts_split_upsert h x p i ?c s = (if \<not> add_result_is_ok res then (res, s\<lparr>ts_chunks := ?cs\<rparr>)
      else (AddOk x, ts_update_first_last_timestamps (s\<lparr>ts_chunks := ?cs, ts_total_samples :=
        ts_total_samples s + (n - tsc_len (if into_new then r else l))\<rparr>)))"
    using lr(1) u insert_position [OF cs assms(4)] ri r1(2) tc.len
    by (cases into_new) (simp_all add: ts_split_upsert_def Let_def into_new_def [symmetric] l1_def r1_def chunk_ok_def)
  show "ts_added h p x s (ts_split_upsert h x p i ?c s)"
  proof (cases "add_result_is_ok res")
    case True
    have n: "n = length (tsc_samples ?lg half)" and B: "list_insert p x (tsc_samples ?lg ?c) = Inr (tsc_samples ?lg l1 @ tsc_samples ?lg r1)"
      using half(1) True by simp_all
    have "length (tsc_samples ?lg ?c) \<le> length (tsc_samples ?lg l1 @ tsc_samples ?lg r1)"
      using list_insert_length [OF _ B] v by (simp add: lr(2) split: if_splits)
    then have "ts_total_samples s + (n - tsc_len (if into_new then r else l)) = length (chunks_samples ?lg ?cs)"
      using ts_invD(4) [OF assms(1)] arg_cong [OF id_take_nth_drop [OF assms(4)], of "\<lambda>cs. length (chunks_samples ?lg cs)"]
      by (cases into_new) (auto simp: n l1_def r1_def ts_samples_def tc.len ri li lr(2) [symmetric])
    then show ?thesis using True cs ins ts_invD(2,3) [OF assms(1)] unfolding eq ts_added_def
      by (simp add: summary_refreshed)
  next
    case False
    then have "ts_inv h (s\<lparr>ts_chunks := ?cs\<rparr>)"
      using cs ins ts_invD [OF assms(1)] unfolding ts_inv_def ts_samples_simps by (simp del: chunks_samples_simps)
    then show ?thesis using False ins unfolding eq ts_added_def by simp
  qed
  show "fst (ts_split_upsert h x p i ?c s) = (case list_insert p x (ts_samples h s) of Inl e \<Rightarrow> AddDuplicate | Inr ys \<Rightarrow> AddOk x)"
    if room: "tsc_roomy ?c"
  proof -
    have "2 \<le> length (tsc_samples ?lg ?c)"
      using ri(2) l unfolding lr(2) [symmetric] chunk_ok_def
      by (cases "tsc_samples ?lg l"; cases "tsc_samples ?lg r") auto
    then have res: "res = (case list_insert p x (tsc_samples ?lg ?c) of Inl e \<Rightarrow> AddDuplicate | Inr ys \<Rightarrow> AddOk x)"
      using half(2) tsc_roomy_split [OF room lr(1)] by blast
    have "fst (ts_split_upsert h x p i ?c s) = res" using half(1) by (simp add: eq)
    moreover have "(case list_insert p x (ts_samples h s) of Inl e \<Rightarrow> AddDuplicate | Inr ys \<Rightarrow> AddOk x) = res"
      using res chunks_refused [OF ok assms(3,4), of p] ins by (auto simp: ts_samples_def split: sum.splits)
    ultimately show ?thesis by simp
  qed
qed

lemma upserted:
  assumes "ts_inv h s" "ts_chunks s \<noteq> []" "valid_ts (timestamp x)" "timestamp x \<le> timestamp (List.last (ts_samples h s))"
    "\<not> ts_is_older_than_retention s (timestamp x)"
    "p = resolve_policy (host_duplicate_policy h) (ts_sample_duplicates s) ov"
  shows "ts_added h p x s (ts_upsert_sample h x ov s) \<and> ((\<forall>c\<in>set (ts_chunks s). tsc_roomy c) \<longrightarrow>
    fst (ts_upsert_sample h x ov s) = (case list_insert p x (ts_samples h s) of Inl e \<Rightarrow> AddDuplicate | Inr ys \<Rightarrow> AddOk x))"
proof (cases "tsc_should_split (ts_chunks s ! lower_bound tsc_last_timestamp (timestamp x) (ts_chunks s))")
  case True
  note t = upsert_target [OF assms(1,2,4)]
  have "ts_upsert_sample h x ov s = ts_split_upsert h x p (lower_bound tsc_last_timestamp (timestamp x) (ts_chunks s))
      (ts_chunks s ! lower_bound tsc_last_timestamp (timestamp x) (ts_chunks s)) s"
    using True t(1) assms(5) by (simp add: ts_upsert_sample_def Let_def t(2) assms(6) [symmetric])
  then show ?thesis using upsert_split [OF assms(1,3) refl t(1) True, of p] t(1) by simp
next
  case False
  from upsert_plain [OF assms(1-5) False assms(6)] show ?thesis
    using assms(1) by (cases "list_insert p x (ts_samples h s)") (auto simp: ts_added_def)
qed

lemma add_deferred:
  assumes "ts_inv h s" "valid_ts ts" "x = ts_make_sample h s ts v"
    "p = resolve_policy (host_duplicate_policy h) (ts_sample_duplicates s) ov"
  shows "ts_added h p x s (ts_add_deferring_retention h ts v ov s)"
    "\<forall>c\<in>set (ts_chunks s). tsc_roomy c \<Longrightarrow> fst (ts_add_deferring_retention h ts v ov s) = ts_add_answer h ts v ov s"
proof -
  have ts: "timestamp x = ts" by (simp add: assms(3) ts_make_sample_def)
  note unf = ts_add_deferring_retention_def ts_add_answer_def Let_def assms(3,4) [symmetric] ts_validate_sample_def
  have stay: "ts_added h p x s (r, s)" if "\<not> add_result_is_ok r" for r using that assms(1) by (simp add: ts_added_def)
  have app: "ts_added h p x s (ts_add_sample_internal h x s) \<and> fst (ts_add_sample_internal h x s) = AddOk x \<and>
      list_insert p x (ts_samples h s) = Inr (ts_samples h s @ [x])"
    if new: "ts_samples h s \<noteq> [] \<Longrightarrow> timestamp (List.last (ts_samples h s)) < ts"
  proof -
    note v = ts_inv_valid [OF assms(1)]
    have sn: "valid_samples (ts_samples h s @ [x])" using valid_samples_snoc [OF v, of x] assms(2) ts new by simp
    then have "list_insert p x (ts_samples h s) = Inr (ts_samples h s @ [x])"
      by (intro list_insert_snoc) (simp add: valid_samples_append)
    then show ?thesis using appends [OF assms(1) sn] by (auto simp: ts_added_def)
  qed
  consider (old) "ts_is_older_than_retention s ts" | (empty) "\<not> ts_is_older_than_retention s ts" "ts_samples h s = []"
    | (ignored) l where "\<not> ts_is_older_than_retention s ts" "ts_last_sample s = Some l" "timestamp l \<le> ts"
        "is_duplicate (host_duplicate_policy h) (ts_sample_duplicates s) x l ov"
    | (later) l where "\<not> ts_is_older_than_retention s ts" "ts_last_sample s = Some l" "timestamp l < ts"
        "\<not> is_duplicate (host_duplicate_policy h) (ts_sample_duplicates s) x l ov"
    | (within) l where "\<not> ts_is_older_than_retention s ts" "ts_last_sample s = Some l" "ts \<le> timestamp l"
        "\<not> (timestamp l \<le> ts \<and> is_duplicate (host_duplicate_policy h) (ts_sample_duplicates s) x l ov)"
    using ts_invD(6) [OF assms(1)] by (metis linorder_not_le less_imp_le)
  then have "ts_added h p x s (ts_add_deferring_retention h ts v ov s) \<and>
    ((\<forall>c\<in>set (ts_chunks s). tsc_roomy c) \<longrightarrow> fst (ts_add_deferring_retention h ts v ov s) = ts_add_answer h ts v ov s)"
  proof cases
    case old
    then show ?thesis using stay by (simp add: unf)
  next
    case empty
    then show ?thesis using app ts_invD(6) [OF assms(1)] by (simp add: unf)
  next
    case ignored
    then show ?thesis using stay by (simp add: unf)
  next
    case later
    then show ?thesis using app ts_invD(6) [OF assms(1)] by (auto simp: unf split: if_splits)
  next
    case within
    have ne: "ts_samples h s \<noteq> []" and l: "l = List.last (ts_samples h s)"
      using ts_invD(6) [OF assms(1)] within(2) by (auto split: if_splits)
    have cs: "ts_chunks s \<noteq> []" using ne ts_chunks_Nil [OF assms(1)] by simp
    have le: "timestamp x \<le> timestamp (List.last (ts_samples h s))" using within(3) ts l by simp
    have vx: "valid_ts (timestamp x)" using assms(2) ts by simp
    have d: "ts_add_deferring_retention h ts v ov s = ts_upsert_sample h x ov s"
      and a: "ts_add_answer h ts v ov s = (case list_insert p x (ts_samples h s) of Inl e \<Rightarrow> AddDuplicate | Inr ys \<Rightarrow> AddOk x)"
      using within by (auto simp: unf)
    show ?thesis unfolding d a using upserted [OF assms(1) cs vx le _ assms(4)] within(1) ts by simp
  qed
  then show "ts_added h p x s (ts_add_deferring_retention h ts v ov s)"
    "\<forall>c\<in>set (ts_chunks s). tsc_roomy c \<Longrightarrow> fst (ts_add_deferring_retention h ts v ov s) = ts_add_answer h ts v ov s"
    by blast+
qed

text \<open>A trim drops a prefix of expired samples, all of them when it is forced.\<close>

lemma min_timestamp_i64:
  "ts_inv h s \<Longrightarrow> 0 \<le> ts_get_min_timestamp s \<and> ts_get_min_timestamp s \<le> i64_max"
  using ts_inv_valid [of h s] ts_invD(5) [of h s]
  by (cases "ts_samples h s")
    (auto simp: ts_get_min_timestamp_def i64_saturating_sub_def i64_max_def i64_min_def valid_ts_def split: option.split)

lemma expired_chunks:
  assumes "chunks_ok (host_log10 h) cs" "ds = dropWhile (\<lambda>c. tsc_last_timestamp c < m) cs"
    "n = sum_list (map tsc_len (takeWhile (\<lambda>c. tsc_last_timestamp c < m) cs))"
  shows "chunks_ok (host_log10 h) ds" "chunks_samples (host_log10 h) ds = drop n (chunks_samples (host_log10 h) cs)"
    "n + length (chunks_samples (host_log10 h) ds) = length (chunks_samples (host_log10 h) cs)"
    "\<forall>x\<in>set (take n (chunks_samples (host_log10 h) cs)). timestamp x < m"
    "n = 0 \<Longrightarrow> ds = cs"
proof -
  let ?lg = "host_log10 h" and ?t = "takeWhile (\<lambda>c. tsc_last_timestamp c < m) cs"
  have cs: "cs = ?t @ ds" by (simp add: assms(2))
  have inv: "tsc_inv ?lg c" if "c \<in> set cs" for c using that assms(1) by (simp add: chunks_ok_def chunk_ok_def)
  have n: "n = length (chunks_samples ?lg ?t)" unfolding assms(3) chunks_samples_def length_concat
    using inv by (intro arg_cong [where f = sum_list]) (auto simp: tc.len dest!: set_takeWhileD)
  have eq: "chunks_samples ?lg cs = chunks_samples ?lg ?t @ chunks_samples ?lg ds" by (subst cs) simp
  show "chunks_ok ?lg ds" using assms(1) by (subst (asm) cs) (simp add: chunks_ok_append)
  show "chunks_samples ?lg ds = drop n (chunks_samples ?lg cs)" "n + length (chunks_samples ?lg ds) = length (chunks_samples ?lg cs)"
    by (simp_all add: eq n)
  have "timestamp x < m" if "c \<in> set ?t" "x \<in> set (tsc_samples ?lg c)" for c x
    using ends(2) [OF inv that(2)] that(1) by (auto dest!: set_takeWhileD)
  then show "\<forall>x\<in>set (take n (chunks_samples ?lg cs)). timestamp x < m" by (auto simp: eq n set_chunks_samples)
  have "chunks_ok ?lg ?t" using assms(1) by (subst (asm) cs) (simp add: chunks_ok_append)
  then show "ds = cs" if "n = 0" using that chunks_samples_Nil [of ?lg ?t] n cs by auto
qed

lemma head_trimmed:
  assumes "chunk_ok (host_log10 h) c" "0 < m" "m \<le> i64_max" "m \<le> tsc_last_timestamp c"
  shows "\<exists>n c'. tsc_remove_range (host_log10 h) c 0 (i64 (m - 1)) = Inr (n, c') \<and> chunk_ok (host_log10 h) c' \<and>
    tsc_samples (host_log10 h) c' = drop n (tsc_samples (host_log10 h) c) \<and>
    n + length (tsc_samples (host_log10 h) c') = length (tsc_samples (host_log10 h) c) \<and>
    (\<forall>x\<in>set (take n (tsc_samples (host_log10 h) c)). timestamp x < m) \<and> (\<forall>x\<in>set (tsc_samples (host_log10 h) c'). m \<le> timestamp x) \<and>
    (tsc_first_timestamp c < m \<longrightarrow> 0 < n)"
proof -
  let ?xs = "tsc_samples (host_log10 h) c"
  have c: "tsc_inv (host_log10 h) c" "?xs \<noteq> []" using assms(1) by (simp_all add: chunk_ok_def)
  note v = tc.valid [OF c(1)]
  have i: "i64 (m - 1) = m - 1" using assms(2,3) by (simp add: i64_id is_i64_def i64_min_def)
  have old: "filter (in_range 0 (m - 1)) ?xs = filter (\<lambda>x. timestamp x < m) ?xs"
    "filter (\<lambda>x. \<not> in_range 0 (m - 1) x) ?xs = filter (\<lambda>x. m \<le> timestamp x) ?xs"
    using v by (auto simp: in_range_def valid_samples_def valid_ts_def intro!: filter_cong)
  obtain c' where c': "tsc_remove_range (host_log10 h) c 0 (m - 1) = Inr (length (filter (\<lambda>x. timestamp x < m) ?xs), c')"
    "tsc_inv (host_log10 h) c'" "tsc_samples (host_log10 h) c' = filter (\<lambda>x. m \<le> timestamp x) ?xs"
    using tc.remove_range [OF c(1), of 0 "m - 1"] unfolding old by blast
  have sp: "?xs = filter (\<lambda>x. timestamp x < m) ?xs @ filter (\<lambda>x. m \<le> timestamp x) ?xs"
    using v by (intro filter_le_less_split) simp
  have "List.last ?xs \<in> set (filter (\<lambda>x. m \<le> timestamp x) ?xs)" using assms(4) c(2) chunk_bounds(2) [OF assms(1)] by simp
  then have "filter (\<lambda>x. m \<le> timestamp x) ?xs \<noteq> []" by force
  then have ok: "chunk_ok (host_log10 h) c'" using assms(1) c' tsc_limits(2) [OF c'(1)] by (simp add: chunk_ok_def)
  have "hd ?xs \<in> set (filter (\<lambda>x. timestamp x < m) ?xs)" if "tsc_first_timestamp c < m"
    using that c(2) chunk_bounds(1) [OF assms(1)] by simp
  then have pos: "tsc_first_timestamp c < m \<longrightarrow> 0 < length (filter (\<lambda>x. timestamp x < m) ?xs)" by (metis length_pos_if_in_set)
  have tk: "take (length (filter (\<lambda>x. timestamp x < m) ?xs)) ?xs = filter (\<lambda>x. timestamp x < m) ?xs"
    "drop (length (filter (\<lambda>x. timestamp x < m) ?xs)) ?xs = filter (\<lambda>x. m \<le> timestamp x) ?xs"
    using arg_cong [OF sp, of "take (length (filter (\<lambda>x. timestamp x < m) ?xs))"]
      arg_cong [OF sp, of "drop (length (filter (\<lambda>x. timestamp x < m) ?xs))"] by simp_all
  show ?thesis unfolding i
    using c'(1,3) ok pos tk arg_cong [OF sp, of length] by (intro exI [of _ "length (filter (\<lambda>x. timestamp x < m) ?xs)"] exI [of _ c']) auto
qed

lemma trim_finished:
  assumes "ts_inv h s" "chunks_ok (host_log10 h) cs" "chunks_samples (host_log10 h) cs = drop n (ts_samples h s)"
    "n + length (chunks_samples (host_log10 h) cs) = length (ts_samples h s)" "n = 0 \<Longrightarrow> cs = ts_chunks s"
  defines "s3 \<equiv> s\<lparr>ts_chunks := cs, ts_total_samples := ts_total_samples s - n\<rparr>"
  shows "ts_inv h (if 0 < n then ts_update_first_last_timestamps s3 else s3)"
proof (cases "n = 0")
  case True
  moreover have "s\<lparr>ts_chunks := ts_chunks s, ts_total_samples := ts_total_samples s\<rparr> = s" by (cases s) simp
  ultimately show ?thesis using assms(1,5) by (simp add: s3_def)
next
  case False
  then show ?thesis using ts_invD [OF assms(1)] assms(2-4) by (auto simp: s3_def intro!: summary_refreshed)
qed

lemma expired_removed:
  assumes "ts_inv h s"
  defines "m \<equiv> ts_get_min_timestamp s"
  shows "ts_remove_expired_chunks m s = (sum_list (map tsc_len (takeWhile (\<lambda>c. tsc_last_timestamp c < m) (ts_chunks s))),
    s\<lparr>ts_chunks := dropWhile (\<lambda>c. tsc_last_timestamp c < m) (ts_chunks s)\<rparr>)"
  using takeWhile_eq_take [of "\<lambda>c. tsc_last_timestamp c < m" "ts_chunks s"]
    dropWhile_eq_drop [of "\<lambda>c. tsc_last_timestamp c < m" "ts_chunks s"]
  by (auto simp: ts_remove_expired_chunks_def Let_def)

lemma trim_cut_whole:
  assumes "ts_inv h s" "ds = dropWhile (\<lambda>c. tsc_last_timestamp c < ts_get_min_timestamp s) (ts_chunks s)"
    "n = sum_list (map tsc_len (takeWhile (\<lambda>c. tsc_last_timestamp c < ts_get_min_timestamp s) (ts_chunks s)))"
    "force \<Longrightarrow> ds = [] \<or> ts_get_min_timestamp s \<le> tsc_first_timestamp (hd ds)"
  shows "trim_cut h s force n ds"
proof -
  note e = expired_chunks [OF ts_invD(1) [OF assms(1)] assms(2,3), folded ts_samples_def]
  have "ts_get_min_timestamp s \<le> timestamp x" if "force" "x \<in> set (chunks_samples (host_log10 h) ds)" for x
  proof -
    have "ds \<noteq> []" using that(2) by auto
    then have "ts_get_min_timestamp s \<le> timestamp (hd (chunks_samples (host_log10 h) ds))"
      using assms(4) [OF that(1)] chunks_ends(1) [OF e(1)] by simp
    then show ?thesis using ksorted_hd [OF _ that(2), of timestamp] chunks_ok_valid [OF e(1)] by auto
  qed
  then show ?thesis using e by (auto simp: trim_cut_def)
qed

lemma trim_cut_head:
  assumes "trim_cut h s False n (c # rest)" "ts_inv h s" "ts_get_min_timestamp s \<le> tsc_last_timestamp c" "chunk_ok (host_log10 h) c'"
    "tsc_samples (host_log10 h) c' = drop k (tsc_samples (host_log10 h) c)"
    "k + length (tsc_samples (host_log10 h) c') = length (tsc_samples (host_log10 h) c)"
    "\<forall>x\<in>set (take k (tsc_samples (host_log10 h) c)). timestamp x < ts_get_min_timestamp s"
    "\<forall>x\<in>set (tsc_samples (host_log10 h) c'). ts_get_min_timestamp s \<le> timestamp x" "0 < k"
  shows "trim_cut h s force (n + k) (c' # rest)"
proof -
  let ?lg = "host_log10 h" and ?cs = "c' # rest"
  have c: "chunks_ok ?lg (c # rest)" "drop n (ts_samples h s) = tsc_samples ?lg c @ chunks_samples ?lg rest"
    "n + length (drop n (ts_samples h s)) = length (ts_samples h s)" using assms(1) by (auto simp: trim_cut_def)
  have S: "ts_samples h s = (take n (ts_samples h s) @ take k (tsc_samples ?lg c)) @ chunks_samples ?lg ?cs"
    using c(2) assms(5) append_take_drop_id [of n "ts_samples h s"] append_take_drop_id [of k "tsc_samples ?lg c"]
    by (metis append.assoc chunks_samples_simps(2))
  have len: "n + k = length (take n (ts_samples h s) @ take k (tsc_samples ?lg c))" using c(3) assms(6) by simp
  have cut: "chunks_samples ?lg ?cs = drop (n + k) (ts_samples h s)"
    "take (n + k) (ts_samples h s) = take n (ts_samples h s) @ take k (tsc_samples ?lg c)"
    using S len by (metis append_eq_conv_conj)+
  have "valid_samples (chunks_samples ?lg ?cs)"
    using ts_inv_valid [OF assms(2)] by (subst (asm) S) (simp only: valid_samples_append)
  then have ok: "chunks_ok ?lg ?cs" using c(1) assms(4) unfolding chunks_ok_def by simp
  have "List.last (tsc_samples ?lg c) \<in> set (tsc_samples ?lg c)" "ts_get_min_timestamp s \<le> timestamp (List.last (tsc_samples ?lg c))"
    using c(1) assms(3) chunk_bounds(2) [of c] by (auto simp: chunk_ok_def)
  then have "\<forall>x\<in>set (chunks_samples ?lg rest). ts_get_min_timestamp s \<le> timestamp x" using c(1) by fastforce
  then have "\<forall>x\<in>set (chunks_samples ?lg ?cs). ts_get_min_timestamp s \<le> timestamp x" using assms(8) by auto
  moreover have "n + k + length (chunks_samples ?lg ?cs) = length (ts_samples h s)" using c(2,3) assms(6) by simp
  moreover have "\<forall>x\<in>set (take (n + k) (ts_samples h s)). timestamp x < ts_get_min_timestamp s"
    using assms(1,7) unfolding cut(2) trim_cut_def by auto
  ultimately show ?thesis using ok cut(1) assms(9) unfolding trim_cut_def by blast
qed

lemma trimmed:
  assumes "ts_inv h s"
  shows "\<exists>n s'. ts_trim_expired h force s = (Inr n, s') \<and> ts_inv h s' \<and> ts_config s' = ts_config s \<and> trim_cut h s force n (ts_chunks s') \<and>
    (\<forall>c cs. ts_chunks s' = c # cs \<longrightarrow> ts_get_min_timestamp s \<le> tsc_last_timestamp c \<and>
      (ts_get_min_timestamp s \<le> tsc_first_timestamp c \<or> \<not> head_trim_due c (ts_get_min_timestamp s)))"
proof (cases "ts_get_min_timestamp s \<le> ts_first_timestamp s")
  case True
  then have "\<forall>x\<in>set (ts_samples h s). ts_get_min_timestamp s \<le> timestamp x" using ts_ends(1) [OF assms] order_trans by blast
  moreover have "ts_get_min_timestamp s \<le> tsc_first_timestamp c \<and> tsc_first_timestamp c \<le> tsc_last_timestamp c"
    if "ts_chunks s = c # cs" for c cs
    using True first_of_head [OF assms that] chunk_bounds(3) [of c] ts_invD(1) [OF assms] that by simp
  ultimately show ?thesis using True assms ts_invD(1) [OF assms] by (fastforce simp: ts_trim_expired_def trim_cut_def ts_samples_def)
next
  case False
  let ?lg = "host_log10 h"
  define m where "m = ts_get_min_timestamp s"
  define n where "n = sum_list (map tsc_len (takeWhile (\<lambda>c. tsc_last_timestamp c < m) (ts_chunks s)))"
  define ds where "ds = dropWhile (\<lambda>c. tsc_last_timestamp c < m) (ts_chunks s)"
  have m: "0 < m" "m \<le> i64_max"
    using min_timestamp_i64 [OF assms] False ts_invD(5) [OF assms] ts_inv_valid [OF assms]
    by (cases "ts_samples h s"; simp add: m_def valid_ts_def)+
  note rem = expired_removed [OF assms, folded m_def, folded n_def ds_def]
  note whole = trim_cut_whole [OF assms ds_def [unfolded m_def] n_def [unfolded m_def]]
  have finish: ?thesis if "ts_trim_expired h force s = (Inr k, if 0 < k then ts_update_first_last_timestamps s3 else s3)"
    "s3 = s\<lparr>ts_chunks := cs, ts_total_samples := ts_total_samples s - k\<rparr>" "trim_cut h s force k cs"
    "\<And>c ds. cs = c # ds \<Longrightarrow> m \<le> tsc_last_timestamp c \<and> (m \<le> tsc_first_timestamp c \<or> \<not> head_trim_due c m)" for k s3 cs
    using that assms trim_finished [OF assms, of cs k] unfolding m_def
    by (intro exI [of _ k] exI [of _ "if 0 < k then ts_update_first_last_timestamps s3 else s3"])
      (auto simp: trim_cut_def ts_update_first_last_timestamps_def)
  show ?thesis
  proof (cases "\<exists>c rest. ds = c # rest \<and> tsc_first_timestamp c < m \<and> (force \<or> head_trim_due c m)")
    case True
    then obtain c rest where c: "ds = c # rest" "tsc_first_timestamp c < m" "force \<or> head_trim_due c m" by blast
    have le: "m \<le> tsc_last_timestamp c" using c(1) hd_dropWhile [of "\<lambda>c. tsc_last_timestamp c < m" "ts_chunks s"] by (simp add: ds_def)
    have cut: "trim_cut h s False n (c # rest)" using whole [of False] c(1) by simp
    then have "chunk_ok ?lg c" by (simp add: trim_cut_def)
    then obtain k c' where k: "tsc_remove_range ?lg c 0 (i64 (m - 1)) = Inr (k, c')" and k': "chunk_ok ?lg c'"
      "tsc_samples ?lg c' = drop k (tsc_samples ?lg c)" "k + length (tsc_samples ?lg c') = length (tsc_samples ?lg c)"
      "\<forall>x\<in>set (take k (tsc_samples ?lg c)). timestamp x < m" "\<forall>x\<in>set (tsc_samples ?lg c'). m \<le> timestamp x" "0 < k"
      using head_trimmed [of c m] m le c(2) by blast
    have "m \<le> tsc_first_timestamp c'" using k'(5) chunk_bounds(1) [OF k'(1)] k'(1) by (simp add: chunk_ok_def)
    then show ?thesis
      using False c k k'(6) chunk_bounds(3) [OF k'(1)] trim_cut_head [OF cut assms le [unfolded m_def] k' [unfolded m_def], of force]
      by (intro finish [OF _ refl]) (auto simp: ts_trim_expired_def m_def [symmetric] rem Let_def)
  next
    case not: False
    have "m \<le> tsc_last_timestamp c \<and> (m \<le> tsc_first_timestamp c \<or> \<not> head_trim_due c m)" if "ds = c # cs" for c cs
      using that not hd_dropWhile [of "\<lambda>c. tsc_last_timestamp c < m" "ts_chunks s"] by (auto simp: ds_def)
    moreover
    have "trim_cut h s force n ds" using not by (intro whole) (cases ds, auto simp: m_def)
    ultimately show ?thesis using False not
      by (intro finish [OF _ refl]) (auto simp: ts_trim_expired_def m_def [symmetric] rem Let_def split: list.split)
  qed
qed

section \<open>Deletes\<close>

lemma chunk_cleaned:
  assumes "chunk_ok (host_log10 h) c"
  shows "\<exists>c'. ts_remove_internal (host_log10 h) a b c =
    Inr (length (filter (in_range a b) (tsc_samples (host_log10 h) c)), c') \<and> keeps h a b c c'"
proof (cases "tsc_is_contained_by_range c a b")
  case True
  have c: "tsc_inv (host_log10 h) c" using assms by (simp add: chunk_ok_def)
  then have "\<forall>x\<in>set (tsc_samples (host_log10 h) c). in_range a b x"
    using ends [OF c] True by (fastforce simp: in_range_def tsc_is_contained_by_range_def)
  then show ?thesis using True c tc.clear [OF c] tsc_limits(6)
    by (simp add: ts_remove_internal_def keeps_def tc.len filter_id_conv filter_empty_conv)
next
  case False
  then show ?thesis using tc.remove_range [of c a b] tsc_limits(2) assms
    by (fastforce simp: ts_remove_internal_def keeps_def chunk_ok_def)
qed

lemma chunks_cleaned:
  "\<forall>c\<in>set cs. chunk_ok (host_log10 h) c \<Longrightarrow>
    \<exists>cs'. ts_remove_loop (host_log10 h) a b cs n = (Inr (n + length (filter (in_range a b) (chunks_samples (host_log10 h) cs))), cs') \<and>
      list_all2 (keeps h a b) cs cs'"
proof (induction cs arbitrary: n)
  case (Cons c cs)
  let ?k = "length (filter (in_range a b) (tsc_samples (host_log10 h) c))"
  obtain c' where c': "ts_remove_internal (host_log10 h) a b c = Inr (?k, c')" "keeps h a b c c'"
    using chunk_cleaned [of c a b] Cons.prems by auto
  obtain cs' where "ts_remove_loop (host_log10 h) a b cs (n + ?k) =
      (Inr (n + ?k + length (filter (in_range a b) (chunks_samples (host_log10 h) cs))), cs')" "list_all2 (keeps h a b) cs cs'"
    using Cons.IH [of "n + ?k"] Cons.prems by auto
  then show ?case using c' by simp
qed simp

lemma kept_samples:
  assumes "list_all2 (keeps h a b) cs cs'"
  shows "chunks_samples (host_log10 h) (filter (\<lambda>c. \<not> tsc_is_empty c) cs') =
      filter (\<lambda>x. \<not> in_range a b x) (chunks_samples (host_log10 h) cs)"
  using assms
proof (induction rule: list_all2_induct)
  case (Cons c cs c' cs')
  then have "tsc_inv (host_log10 h) c'" "tsc_samples (host_log10 h) c' = filter (\<lambda>x. \<not> in_range a b x) (tsc_samples (host_log10 h) c)"
    by (simp_all add: keeps_def)
  then show ?case using Cons.IH is_empty [of c'] by auto
qed simp

lemma kept_ok:
  assumes "list_all2 (keeps h a b) cs cs'" "\<forall>c\<in>set cs. chunk_ok (host_log10 h) c" "c' \<in> set cs'" "\<not> tsc_is_empty c'"
  shows "chunk_ok (host_log10 h) c'"
proof -
  obtain c where "c \<in> set cs" "keeps h a b c c'"
    using assms(1,3) unfolding list_all2_conv_all_nth by (metis in_set_conv_nth)
  then show ?thesis using assms(2,4) is_empty [of c'] unfolding keeps_def chunk_ok_def by metis
qed

lemma kept_others:
  assumes "\<forall>c\<in>set cs. chunk_ok (host_log10 h) c" "filter (in_range a b) (chunks_samples (host_log10 h) cs) = []"
  shows "list_all2 (keeps h a b) cs cs"
proof -
  have "filter (\<lambda>x. \<not> in_range a b x) (tsc_samples (host_log10 h) c) = tsc_samples (host_log10 h) c" if "c \<in> set cs" for c
    using assms(2) that by (auto simp: filter_id_conv filter_empty_conv set_chunks_samples)
  then show ?thesis using assms(1) by (auto simp: list_all2_same keeps_def chunk_ok_def)
qed

lemma removed_live:
  assumes "ts_inv h s"
  shows "\<exists>s'. ts_remove_live h a b s = (Inr (length (filter (in_range a b) (ts_samples h s))), s') \<and> ts_inv h s' \<and>
    ts_config s' = ts_config s \<and> ts_samples h s' = filter (\<lambda>x. \<not> in_range a b x) (ts_samples h s)"
proof -
  let ?lg = "host_log10 h" and ?cs = "ts_chunks s"
  note ok = ts_invD(1) [OF assms]
  have none: ?thesis if "ts_remove_live h a b s = (Inr 0, s)" "filter (in_range a b) (ts_samples h s) = []"
    using that assms by (auto simp: filter_empty_conv filter_id_conv)
  have empty: "filter (in_range a b) (ts_samples h s) = []" if "b < a \<or> ts_is_empty s"
    using that ts_is_empty_iff [OF assms] ts_chunks_Nil [OF assms] by (auto simp: filter_empty_conv in_range_def)
  show ?thesis
  proof (cases "b < a \<or> ts_is_empty s \<or> chunk_index_bounds ?cs a b = None")
    case True
    then show ?thesis using empty index_bounds_None [OF ok, of a b]
      by (intro none) (auto simp: ts_remove_live_def ts_get_chunk_index_bounds_def ts_samples_def)
  next
    case False
    then obtain i j where b: "chunk_index_bounds ?cs a b = Some (i, j)" by auto
    note ij = index_bounds_Some [OF ok b]
    let ?mid = "take (Suc j - i) (drop i ?cs)"
    have split: "?cs = take i ?cs @ ?mid @ drop (Suc j) ?cs"
      using ij(1) append_take_drop_id [of "Suc j - i" "drop i ?cs"] by (simp add: drop_drop)
    have oks: "\<forall>c\<in>set ?cs. chunk_ok ?lg c" using ok by (simp add: chunks_ok_def)
    then have mids: "\<forall>c\<in>set ?mid. chunk_ok ?lg c" by (auto dest: in_set_takeD in_set_dropD)
    obtain mid' where m: "ts_remove_loop ?lg a b ?mid 0 = (Inr (length (filter (in_range a b) (chunks_samples ?lg ?mid))), mid')"
      "list_all2 (keeps h a b) ?mid mid'" using chunks_cleaned [OF mids, of a b 0] by auto
    have n: "filter (in_range a b) (ts_samples h s) = filter (in_range a b) (chunks_samples ?lg ?mid)"
      unfolding ts_samples_def by (subst split) (simp add: ij(4,5))
    let ?new = "take i ?cs @ mid' @ drop (Suc j) ?cs"
    have keep: "list_all2 (keeps h a b) ?cs ?new"
      by (subst split) (intro list_all2_appendI m(2) kept_others ij(4,5); use oks in \<open>auto dest: in_set_takeD in_set_dropD\<close>)
    define F where "F = filter (\<lambda>c. \<not> tsc_is_empty c) ?new"
    have fin: "chunks_samples ?lg F = filter (\<lambda>x. \<not> in_range a b x) (ts_samples h s)"
      using kept_samples [OF keep] by (simp only: ts_samples_def F_def)
    then have okf: "chunks_ok ?lg F"
      using kept_ok [OF keep oks] valid_samples_filter [OF ts_inv_valid [OF assms]] unfolding chunks_ok_def by (auto simp: F_def)
    define s' where "s' = ts_update_first_last_timestamps (s\<lparr>ts_chunks := F,
      ts_total_samples := ts_total_samples s - length (filter (in_range a b) (ts_samples h s))\<rparr>)"
    have "ts_remove_live h a b s = (Inr (length (filter (in_range a b) (ts_samples h s))), s')"
      using False b m(1) by (simp add: ts_remove_live_def ts_get_chunk_index_bounds_def n s'_def F_def)
    moreover have "ts_inv h s'" unfolding s'_def
      using okf ts_invD(2-4) [OF assms] sum_length_filter_compl [of "in_range a b" "ts_samples h s"]
      by (intro summary_refreshed) (simp_all add: fin)
    moreover have "ts_samples h s' = filter (\<lambda>x. \<not> in_range a b x) (ts_samples h s)" "ts_config s' = ts_config s"
      using fin by (simp_all add: s'_def)
    ultimately show ?thesis by blast
  qed
qed

lemma trim_cut_visible:
  assumes "trim_cut h s True n cs" shows "chunks_samples (host_log10 h) cs = ts_visible h s"
proof -
  have "ts_samples h s = take n (ts_samples h s) @ chunks_samples (host_log10 h) cs" using assms by (simp add: trim_cut_def)
  moreover have "filter (\<lambda>x. ts_get_min_timestamp s \<le> timestamp x) (take n (ts_samples h s)) = []"
    using assms by (auto simp: trim_cut_def filter_empty_conv)
  moreover have "filter (\<lambda>x. ts_get_min_timestamp s \<le> timestamp x) (chunks_samples (host_log10 h) cs) = chunks_samples (host_log10 h) cs"
    using assms by (auto simp: trim_cut_def filter_id_conv)
  ultimately show ?thesis unfolding ts_visible_def by (metis append_Nil filter_append)
qed

lemma visible_all:
  assumes "ts_inv h s" "ts_get_min_timestamp s \<le> ts_first_timestamp s" shows "ts_visible h s = ts_samples h s"
  using ts_ends(1) [OF assms(1)] assms(2) by (fastforce simp: ts_visible_def filter_id_conv)

text \<open>The floor follows the last sample, which a trim keeps.\<close>

lemma min_timestamp_kept:
  assumes "ts_inv h s" "ts_inv h s'" "ts_config s' = ts_config s" "ts_samples h s' = ts_visible h s" "x \<in> set (ts_samples h s')"
    "ts_retention s \<noteq> 0"
  shows "ts_get_min_timestamp s' = ts_get_min_timestamp s"
proof -
  have x: "x \<in> set (ts_samples h s)" "ts_get_min_timestamp s \<le> timestamp x" using assms(4,5) by (auto simp: ts_visible_def)
  then have "ts_samples h s \<noteq> []" by auto
  then have "timestamp x \<le> timestamp (List.last (ts_samples h s))" "ts_samples h s \<noteq> []"
    using ts_ends(2) [OF assms(1) x(1)] ts_invD(6) [OF assms(1)] by (simp_all add: ts_last_timestamp_def)
  then have "List.last (ts_visible h s) = List.last (ts_samples h s)"
    using x(2) by (cases "ts_samples h s" rule: rev_cases) (auto simp: ts_visible_def)
  then have "ts_last_sample s' = ts_last_sample s"
    using ts_invD(6) [OF assms(1)] ts_invD(6) [OF assms(2)] assms(4,5) x(1) by (cases "ts_samples h s'") auto
  then show ?thesis using assms(6) ts_config_eqD(1) [OF assms(3)] by (simp add: ts_get_min_timestamp_def split: option.split)
qed

lemma removed:
  assumes "ts_inv h s" "a \<le> b"
  shows "\<exists>s'. ts_remove_range h a b s = (Inr (length (filter (in_range a b) (ts_visible h s))), s') \<and> ts_inv h s' \<and>
    ts_config s' = ts_config s \<and> ts_samples h s' = filter (\<lambda>x. \<not> in_range a b x) (ts_visible h s)"
proof (cases "ts_retention s = 0")
  case True
  then have "ts_visible h s = ts_samples h s" using visible_all [OF assms(1)] by (simp add: ts_get_min_timestamp_def)
  then show ?thesis using removed_live [OF assms(1), of a b] True assms(2) by (simp add: ts_remove_range_def)
next
  case False
  obtain n s1 where t: "ts_trim h s = (Inr n, s1)" "ts_inv h s1" "ts_config s1 = ts_config s" "trim_cut h s True n (ts_chunks s1)"
    using trimmed [OF assms(1), of True] unfolding ts_trim_def by blast
  have vis: "ts_samples h s1 = ts_visible h s" using trim_cut_visible [OF t(4)] by (simp add: ts_samples_def)
  have "in_range (max a (ts_get_min_timestamp s1)) b x \<longleftrightarrow> in_range a b x" if "x \<in> set (ts_samples h s1)" for x
    using min_timestamp_kept [OF assms(1) t(2,3) vis that False] that by (auto simp: vis ts_visible_def in_range_def)
  then have "filter (in_range (max a (ts_get_min_timestamp s1)) b) (ts_samples h s1) = filter (in_range a b) (ts_visible h s)"
    "filter (\<lambda>x. \<not> in_range (max a (ts_get_min_timestamp s1)) b x) (ts_samples h s1) = filter (\<lambda>x. \<not> in_range a b x) (ts_visible h s)"
    unfolding vis by (auto intro!: filter_cong)
  then show ?thesis using removed_live [OF t(2), of "max a (ts_get_min_timestamp s1)" b] t(1,3) False assms(2)
    by (simp add: ts_remove_range_def)
qed

section \<open>Reads\<close>

lemma visible_range:
  "filter (in_range a b) (ts_visible h s) = filter (in_range (max a (ts_get_min_timestamp s)) b) (ts_samples h s)"
  by (auto simp: ts_visible_def in_range_def intro!: filter_cong)

lemma bounded_chunks:
  assumes "ts_inv h s" "ts_get_chunk_index_bounds s a b = Some (i, j)"
  shows "chunks_ok (host_log10 h) (take (Suc j - i) (drop i (ts_chunks s)))"
    "filter (in_range a b) (ts_samples h s) = filter (in_range a b) (chunks_samples (host_log10 h) (take (Suc j - i) (drop i (ts_chunks s))))"
proof -
  note ok = ts_invD(1) [OF assms(1)]
  have "chunk_index_bounds (ts_chunks s) a b = Some (i, j)" using assms(2) by (simp add: ts_get_chunk_index_bounds_def split: if_splits)
  note ij = index_bounds_Some [OF ok this]
  have split: "ts_chunks s = take i (ts_chunks s) @ take (Suc j - i) (drop i (ts_chunks s)) @ drop (Suc j) (ts_chunks s)"
    using ij(1) append_take_drop_id [of "Suc j - i" "drop i (ts_chunks s)"] by (simp add: drop_drop)
  show "chunks_ok (host_log10 h) (take (Suc j - i) (drop i (ts_chunks s)))" using ok chunks_ok_take chunks_ok_drop by blast
  show "filter (in_range a b) (ts_samples h s) = filter (in_range a b) (chunks_samples (host_log10 h) (take (Suc j - i) (drop i (ts_chunks s))))"
    unfolding ts_samples_def by (subst split) (simp add: ij(4,5))
qed

lemma unbounded_chunks:
  assumes "ts_inv h s" "ts_get_chunk_index_bounds s a b = None" shows "filter (in_range a b) (ts_samples h s) = []"
  using assms index_bounds_None [OF ts_invD(1) [OF assms(1)]] ts_is_empty_iff [OF assms(1)] ts_chunks_Nil [OF assms(1)]
  by (auto simp: ts_get_chunk_index_bounds_def filter_empty_conv in_range_def ts_samples_def split: if_splits)

lemma sorted_by_key: "tsorted xs \<Longrightarrow> sort_key timestamp xs = xs"
  by (rule sort_key_id_if_sorted) (auto simp: ksorted_def sorted_wrt_map intro: sorted_wrt_mono_rel [rotated])

end

end
