(* ===== verification/Series_Reads.thy ===== *)
theory Series_Reads
  imports Series_Laws "HOL-Library.Multiset"
begin

text \<open>
  What the reads of a series return: the range reads, the iterators in both directions, the look-ups by
  timestamp and the figures \<open>TS.INFO\<close> reports, all in terms of the sorted list of samples.
\<close>

lemma concat_results_ok:
  "\<forall>c\<in>set cs. f c = Inr (g c) \<Longrightarrow> concat_results (map f cs) = Inr (concat (map g cs))"
  by (induction cs) simp_all

lemma remdups_adj_sorted: "sorted xs \<Longrightarrow> sorted_wrt (<) (remdups_adj xs)" for xs :: "int list"
proof (induction xs rule: remdups_adj.induct)
  case (3 x y xs)
  then show ?case by (cases "x = y") (auto simp: less_le)
qed simp_all

text \<open>The timestamps gathered for each chunk.\<close>

definition meta_hits :: "timeseries_chunk list \<Rightarrow> nat \<Rightarrow> timestamp \<Rightarrow> bool" where
  "meta_hits cs i t \<longleftrightarrow> get_chunk_index cs t = (i, True) \<and> i < length cs"

lemma meta_insert_map:
  "map_of (meta_insert i t m) j =
     (if j = i then Some (case map_of m i of None \<Rightarrow> [t] | Some ts \<Rightarrow> ts @ [t]) else map_of m j)"
  by (induction i t m rule: meta_insert.induct) auto

lemma meta_insert_distinct: "distinct (map fst m) \<Longrightarrow> distinct (map fst (meta_insert i t m))"
proof (induction i t m rule: meta_insert.induct)
  case (2 i ts j tss m)
  have "fst ` set (meta_insert i ts m) = insert i (fst ` set m)" by (induction i ts m rule: meta_insert.induct) auto
  then show ?case using 2 by auto
qed simp

lemma meta_map_spec:
  "distinct (map fst (meta_map cs tss)) \<and>
     (\<forall>i. map_of (meta_map cs tss) i = (if filter (meta_hits cs i) tss = [] then None else Some (filter (meta_hits cs i) tss)))"
proof (induction tss rule: rev_induct)
  case (snoc t tss)
  obtain i f where g: "get_chunk_index cs t = (i, f)" by fastforce
  have step: "meta_map cs (tss @ [t]) = (if f \<and> i < length cs then meta_insert i t (meta_map cs tss) else meta_map cs tss)"
    by (simp add: meta_map_def g)
  have hit: "meta_hits cs j t \<longleftrightarrow> f \<and> i < length cs \<and> j = i" for j by (auto simp: meta_hits_def g)
  show ?case using snoc by (auto simp: step hit meta_insert_map meta_insert_distinct)
qed (simp add: meta_map_def)

lemma meta_map_entries:
  "(i, ts) \<in> set (meta_map cs tss) \<longleftrightarrow> ts = filter (meta_hits cs i) tss \<and> ts \<noteq> []"
proof -
  have "(i, ts) \<in> set (meta_map cs tss) \<longleftrightarrow> map_of (meta_map cs tss) i = Some ts"
    using conjunct1 [OF meta_map_spec [of cs tss]] by (simp only: map_of_eq_Some_iff)
  then show ?thesis using meta_map_spec [of cs tss] by auto
qed

context series_host
begin

lemma range_parallel:
  assumes "chunks_ok (host_log10 h) cs"
  shows "get_range_parallel (host_log10 h) cs a b = Inr (filter (in_range a b) (chunks_samples (host_log10 h) cs))"
proof -
  have g: "\<forall>c\<in>set cs. tsc_get_range (host_log10 h) c a b = Inr (filter (in_range a b) (tsc_samples (host_log10 h) c))"
    using assms tc.get_range by (simp add: chunks_ok_def chunk_ok_def)
  then show ?thesis using concat_results_ok [OF g]
    by (auto simp: get_range_parallel_def filter_chunks_samples split: list.split)
qed

lemma ranged:
  assumes "ts_inv h s" shows "ts_get_range h s a b = filter (in_range a b) (ts_visible h s)"
proof -
  let ?a = "max a (ts_get_min_timestamp s)"
  have e: "filter (in_range ?a b) (ts_samples h s) = []" if "b < ?a \<or> \<not> ts_overlaps s ?a b"
    using that ts_ends [OF assms] ts_is_empty_iff [OF assms] ts_chunks_Nil [OF assms]
    by (fastforce simp: filter_empty_conv in_range_def ts_overlaps_def)
  show ?thesis
  proof (cases "b < ?a \<or> \<not> ts_overlaps s ?a b \<or> ts_get_chunk_index_bounds s ?a b = None")
    case True
    then show ?thesis using e unbounded_chunks [OF assms, of ?a b] unfolding visible_range
      by (auto simp: ts_get_range_def Let_def)
  next
    case False
    then obtain i j where ij: "ts_get_chunk_index_bounds s ?a b = Some (i, j)" by auto
    let ?mid = "take (Suc j - i) (drop i (ts_chunks s))"
    note m = bounded_chunks [OF assms ij]
    have "tsorted (filter (in_range ?a b) (chunks_samples (host_log10 h) ?mid))"
      using chunks_ok_valid [OF m(1)] by (simp add: ksorted_filter)
    then show ?thesis using False ij range_parallel [OF m(1), of ?a b] unfolding visible_range m(2)
      by (simp add: ts_get_range_def Let_def sorted_by_key)
  qed
qed

lemma iterated:
  assumes "ts_inv h s"
  shows "ssi_items (host_log10 h) (ssi_new (host_log10 h) (ts_chunks s) (ts_is_empty s) a b rv) =
      (if rv then rev else id) (filter (in_range a b) (ts_samples h s))"
  using iterator_range [OF ts_invD(1) [OF assms] ts_is_empty_iff [OF assms]] by (simp add: ts_samples_def)

lemma iterated_range:
  assumes "ts_inv h s"
  shows "ssi_items (host_log10 h) (ts_range_iter h s a b) = filter (in_range a b) (ts_visible h s)"
    "ssi_items (host_log10 h) (ts_stored_range_iter h s a b) = filter (in_range a b) (ts_samples h s)"
    "ssi_items (host_log10 h) (ssi_from_range_options h s (a, b) rv) = (if rv then rev else id) (filter (in_range a b) (ts_visible h s))"
  using iterated [OF assms] unfolding visible_range
  by (simp_all add: ts_range_iter_def ts_stored_range_iter_def ssi_from_range_options_def)

lemma iterated_all:
  assumes "ts_inv h s" shows "ssi_items (host_log10 h) (ts_iter h s) = ts_visible h s"
  using ts_ends [OF assms] unfolding ts_iter_def iterated_range(1) [OF assms]
  by (auto simp: in_range_def ts_visible_def intro!: filter_cong)

lemma has_samples_series:
  assumes "ts_inv h s" shows "ts_has_samples_in_range h s a b \<longleftrightarrow> (\<exists>x\<in>set (ts_visible h s). in_range a b x)"
proof -
  let ?a = "max (ts_get_min_timestamp s) a"
  have v: "(\<exists>x\<in>set (ts_visible h s). in_range a b x) \<longleftrightarrow> filter (in_range ?a b) (ts_samples h s) \<noteq> []"
    unfolding max.commute [of _ a] visible_range [symmetric] by (auto simp: filter_empty_conv)
  have e: "filter (in_range ?a b) (ts_samples h s) = []" if "\<not> ts_overlaps s a b"
    using that ts_ends [OF assms] ts_is_empty_iff [OF assms] ts_chunks_Nil [OF assms]
    by (fastforce simp: filter_empty_conv in_range_def ts_overlaps_def)
  show ?thesis
  proof (cases "\<not> ts_overlaps s a b \<or> ts_get_chunk_index_bounds s ?a b = None")
    case True
    then show ?thesis using e unbounded_chunks [OF assms, of ?a b] unfolding v
      by (auto simp: ts_has_samples_in_range_def Let_def)
  next
    case False
    then obtain i j where ij: "ts_get_chunk_index_bounds s ?a b = Some (i, j)" by auto
    let ?mid = "take (Suc j - i) (drop i (ts_chunks s))"
    note m = bounded_chunks [OF assms ij]
    have "\<forall>c\<in>set ?mid. tsc_inv (host_log10 h) c" using m(1) by (simp add: chunks_ok_def chunk_ok_def)
    then have "ts_has_samples_in_range h s a b \<longleftrightarrow> (\<exists>c\<in>set ?mid. \<exists>x\<in>set (tsc_samples (host_log10 h) c). in_range ?a b x)"
      using False ij has_samples by (simp add: ts_has_samples_in_range_def Let_def)
    also have "\<dots> \<longleftrightarrow> (\<exists>x\<in>set (chunks_samples (host_log10 h) ?mid). in_range ?a b x)" by (auto simp: chunks_samples_def)
    finally show ?thesis unfolding v m(2) by (simp add: filter_empty_conv)
  qed
qed

text \<open>A look-up by timestamp reads the one chunk that covers it.\<close>

lemma covering_chunk:
  assumes "chunks_ok (host_log10 h) cs"
  shows "snd (get_chunk_index cs t) \<Longrightarrow> fst (get_chunk_index cs t) < length cs \<and>
      filter (in_range t t) (chunks_samples (host_log10 h) cs) =
      filter (in_range t t) (tsc_samples (host_log10 h) (cs ! fst (get_chunk_index cs t)))"
    "\<not> snd (get_chunk_index cs t) \<Longrightarrow> filter (in_range t t) (chunks_samples (host_log10 h) cs) = []"
proof -
  let ?i = "lower_bound tsc_last_timestamp t cs" and ?lg = "host_log10 h"
  have sp: "chunks_samples ?lg cs = chunks_samples ?lg (take ?i cs) @ tsc_samples ?lg (cs ! ?i) @ chunks_samples ?lg (drop (Suc ?i) cs)"
    and out: "filter (in_range t t) (chunks_samples ?lg (take ?i cs)) = []" "filter (in_range t t) (chunks_samples ?lg (drop (Suc ?i) cs)) = []"
    if "?i < length cs"
    using located(1,2) [OF assms refl that] arg_cong [OF id_take_nth_drop [OF that], of "chunks_samples ?lg"]
    by (auto simp: filter_empty_conv in_range_def)
  {
    assume f: "snd (get_chunk_index cs t)"
    then have "?i < length cs" using chunk_index_found(1) [OF assms] by (simp add: Let_def)
    then show "fst (get_chunk_index cs t) < length cs \<and> filter (in_range t t) (chunks_samples ?lg cs) =
        filter (in_range t t) (tsc_samples ?lg (cs ! fst (get_chunk_index cs t)))"
      using chunk_index_found(2) [OF assms f] sp out by simp
  }
  assume "\<not> snd (get_chunk_index cs t)"
  then have nf: "\<not> (?i < length cs \<and> tsc_first_timestamp (cs ! ?i) \<le> t)" using chunk_index_found(1) [OF assms] by (simp add: Let_def)
  show "filter (in_range t t) (chunks_samples ?lg cs) = []"
  proof (cases "?i < length cs")
    case True
    then have "tsc_inv ?lg (cs ! ?i)" "t < tsc_first_timestamp (cs ! ?i)" using nf assms by (simp_all add: chunks_ok_def chunk_ok_def)
    then have "filter (in_range t t) (tsc_samples ?lg (cs ! ?i)) = []"
      using ends(1) by (fastforce simp: filter_empty_conv in_range_def)
    then show ?thesis using sp [OF True] out [OF True] by simp
  next
    case False
    then have "tsc_last_timestamp c < t" if "c \<in> set cs" for c
      using that lower_bound_less [of _ tsc_last_timestamp t cs] lower_bound_le [of tsc_last_timestamp t cs]
      by (metis in_set_conv_nth le_antisym not_le)
    then show ?thesis using assms by (intro outside_range) (auto simp: chunks_ok_def)
  qed
qed

lemma filter_one:
  "tsorted xs \<Longrightarrow> filter (in_range t t) xs = (case klookup timestamp xs t of None \<Rightarrow> [] | Some x \<Rightarrow> [x])"
proof (induction xs)
  case (Cons x xs)
  have e: "filter (in_range t t) xs = []" if "timestamp x = t" using that Cons.prems by (auto simp: filter_empty_conv in_range_def)
  have r: "in_range t t x \<longleftrightarrow> timestamp x = t" by (auto simp: in_range_def)
  show ?case using Cons by (cases "timestamp x = t") (simp_all add: e r klookup_def)
qed (simp add: klookup_def)

lemma looked_up:
  assumes "ts_inv h s" shows "ts_get_sample h s t = Inr (klookup timestamp (ts_samples h s) t)"
proof -
  note ok = ts_invD(1) [OF assms] and one = filter_one [OF valid_samples_tsorted [OF ts_inv_valid [OF assms]], of t]
  show ?thesis
  proof (cases "snd (get_chunk_index (ts_chunks s) t)")
    case True
    let ?c = "ts_chunks s ! fst (get_chunk_index (ts_chunks s) t)"
    have c: "tsc_inv (host_log10 h) ?c" "filter (in_range t t) (tsc_samples (host_log10 h) ?c) = filter (in_range t t) (ts_samples h s)"
      using covering_chunk(1) [OF ok True] ok by (simp_all add: ts_samples_def chunks_ok_def chunk_ok_def)
    then show ?thesis using True one
      by (simp add: ts_get_sample_def case_prod_unfold tc.get_range split: option.splits)
  next
    case False
    then show ?thesis using covering_chunk(2) [OF ok False] one
      by (simp add: ts_get_sample_def case_prod_unfold ts_samples_def split: option.splits)
  qed
qed

lemma first_visible:
  assumes "ts_inv h s"
  shows "ts_visible_first_timestamp h s = (if ts_visible h s = [] then ts_first_timestamp s else timestamp (hd (ts_visible h s)))"
proof (cases "ts_get_min_timestamp s \<le> ts_first_timestamp s")
  case True
  then show ?thesis using visible_all [OF assms True] ts_invD(5) [OF assms] by (simp add: ts_visible_first_timestamp_def)
next
  case False
  have "filter (in_range (ts_get_min_timestamp s) (ts_last_timestamp s)) (ts_visible h s) = ts_visible h s"
    using ts_ends [OF assms] by (auto simp: in_range_def ts_visible_def intro!: filter_cong)
  then have "ts_visible h s = ssi_items (host_log10 h) (ts_range_iter h s (ts_get_min_timestamp s) (ts_last_timestamp s))"
    by (simp add: iterated_range(1) [OF assms])
  then have "ts_visible h s = (case ssi_next (host_log10 h) (ts_range_iter h s (ts_get_min_timestamp s) (ts_last_timestamp s)) of
      None \<Rightarrow> [] | Some (x, it) \<Rightarrow> x # ssi_items (host_log10 h) it)" by (subst (asm) ssi_items.simps)
  then show ?thesis using False by (auto simp: ts_visible_first_timestamp_def Let_def split: option.splits)
qed

lemma expired_count:
  assumes "chunks_ok (host_log10 h) cs" "0 < m" "m \<le> i64_max"
  shows "sum_list (map (\<lambda>c. if tsc_last_timestamp c < m then tsc_len c
      else length (tsc_range_iter (host_log10 h) c (tsc_first_timestamp c) (i64 (m - 1))))
      (takeWhile (\<lambda>c. tsc_first_timestamp c < m) cs)) = length (filter (\<lambda>x. timestamp x < m) (chunks_samples (host_log10 h) cs))"
  using assms(1)
proof (induction cs)
  case (Cons c cs)
  let ?lg = "host_log10 h"
  have c: "tsc_inv ?lg c" using Cons.prems by (simp add: chunk_ok_def)
  have i: "i64 (m - 1) = m - 1" using assms(2,3) by (simp add: i64_id is_i64_def i64_min_def)
  show ?case
  proof (cases "tsc_first_timestamp c < m")
    case True
    have "filter (\<lambda>x. timestamp x < m) (tsc_samples ?lg c) = tsc_samples ?lg c" if "tsc_last_timestamp c < m"
      using ends(2) [OF c] that by (fastforce simp: filter_id_conv)
    moreover have "filter (in_range (tsc_first_timestamp c) (m - 1)) (tsc_samples ?lg c) = filter (\<lambda>x. timestamp x < m) (tsc_samples ?lg c)"
      using ends(1) [OF c] by (auto simp: in_range_def intro!: filter_cong)
    ultimately show ?thesis using True Cons c by (simp add: i tc.len range_iter)
  next
    case False
    have "hd (chunks_samples ?lg (c # cs)) = hd (tsc_samples ?lg c)" using Cons.prems by (simp add: chunk_ok_def hd_append)
    then have "m \<le> timestamp x" if "x \<in> set (chunks_samples ?lg (c # cs))" for x
      using ksorted_hd [OF _ that, of timestamp] chunks_ok_valid [OF Cons.prems] False chunk_bounds(1) [of c] Cons.prems by auto
    then have "filter (\<lambda>x. timestamp x < m) (chunks_samples ?lg (c # cs)) = []" by (force simp: filter_empty_conv)
    then show ?thesis using False by simp
  qed
qed simp

lemma counted_visible:
  assumes "ts_inv h s" shows "ts_visible_total_samples h s = length (ts_visible h s)"
proof (cases "ts_get_min_timestamp s \<le> ts_first_timestamp s")
  case True
  then show ?thesis using visible_all [OF assms True] ts_invD(4) [OF assms] by (simp add: ts_visible_total_samples_def)
next
  case False
  have m: "0 < ts_get_min_timestamp s" "ts_get_min_timestamp s \<le> i64_max"
    using min_timestamp_i64 [OF assms] False ts_invD(5) [OF assms] ts_inv_valid [OF assms]
    by (cases "ts_samples h s"; simp add: valid_ts_def)+
  show ?thesis using False expired_count [OF ts_invD(1) [OF assms] m] ts_invD(4) [OF assms]
      sum_length_filter_compl [of "\<lambda>x. timestamp x < ts_get_min_timestamp s" "ts_samples h s"]
    by (simp add: ts_visible_total_samples_def Let_def ts_visible_def ts_samples_def not_less)
qed

lemma meta_samples:
  assumes "chunks_ok (host_log10 h) cs" "sorted_wrt (<) tss" "(i, ts) \<in> set (meta_map cs tss)"
  shows "tsc_samples_by_timestamps (host_log10 h) (cs ! i) ts =
      Inr (filter (\<lambda>x. timestamp x \<in> set tss) (tsc_samples (host_log10 h) (cs ! i)))" "i < length cs"
proof -
  let ?lg = "host_log10 h"
  have ts: "ts = filter (meta_hits cs i) tss" "ts \<noteq> []" using assms(3) by (auto simp: meta_map_entries)
  then show i: "i < length cs" by (auto simp: meta_hits_def filter_empty_conv)
  then have c: "tsc_inv ?lg (cs ! i)" using assms(1) by (simp add: chunks_ok_def chunk_ok_def)
  have "timestamp x \<in> set ts \<longleftrightarrow> timestamp x \<in> set tss" if x: "x \<in> set (tsc_samples ?lg (cs ! i))" for x
  proof -
    have b: "tsc_first_timestamp (cs ! i) \<le> timestamp x" "timestamp x \<le> tsc_last_timestamp (cs ! i)" using ends [OF c x] .
    have "i = lower_bound tsc_last_timestamp (timestamp x) cs"
      using b i chunks_apart [OF assms(1), of _ i] chunk_bounds(3) [of "cs ! i"] ksorted_nth_mono [OF chunks_keys(1) [OF assms(1)], of i]
      by (intro lower_bound_unique chunks_keys assms) force+
    then have "meta_hits cs i (timestamp x)"
      using chunk_index_found [OF assms(1), of "timestamp x"] b i by (simp add: meta_hits_def Let_def prod_eq_iff)
    then show ?thesis by (simp add: ts(1))
  qed
  then have "filter (\<lambda>x. timestamp x \<in> set ts) (tsc_samples ?lg (cs ! i)) = filter (\<lambda>x. timestamp x \<in> set tss) (tsc_samples ?lg (cs ! i))"
    by (intro filter_cong) auto
  then show "tsc_samples_by_timestamps ?lg (cs ! i) ts = Inr (filter (\<lambda>x. timestamp x \<in> set tss) (tsc_samples ?lg (cs ! i)))"
    using samples_by_timestamps [OF c, of ts] sorted_wrt_filter [OF assms(2)] ts(1) by simp
qed

lemma meta_covers:
  assumes "chunks_ok (host_log10 h) cs" "x \<in> set (chunks_samples (host_log10 h) cs)" "timestamp x \<in> set tss"
  shows "\<exists>i ts. (i, ts) \<in> set (meta_map cs tss) \<and> x \<in> set (tsc_samples (host_log10 h) (cs ! i))"
proof -
  let ?g = "get_chunk_index cs (timestamp x)"
  have "x \<in> set (filter (in_range (timestamp x) (timestamp x)) (chunks_samples (host_log10 h) cs))"
    using assms(2) by (simp add: in_range_def)
  then have f: "snd ?g" "fst ?g < length cs" "x \<in> set (tsc_samples (host_log10 h) (cs ! fst ?g))"
    using covering_chunk [OF assms(1), of "timestamp x"] by (cases "snd ?g"; auto)+
  then have "meta_hits cs (fst ?g) (timestamp x)" by (simp add: meta_hits_def prod_eq_iff)
  then have "filter (meta_hits cs (fst ?g)) tss \<noteq> []" using assms(3) by (auto simp: filter_empty_conv)
  then show ?thesis using f(3) by (intro exI [of _ "fst ?g"] exI [of _ "filter (meta_hits cs (fst ?g)) tss"]) (simp add: meta_map_entries)
qed

lemma disjoint_chunks:
  assumes "chunks_ok (host_log10 h) cs" "i < length cs" "j < length cs" "i \<noteq> j"
    "x \<in> set (tsc_samples (host_log10 h) (cs ! i))" "y \<in> set (tsc_samples (host_log10 h) (cs ! j))"
  shows "timestamp x \<noteq> timestamp y"
proof -
  have "tsc_inv (host_log10 h) (cs ! i)" "tsc_inv (host_log10 h) (cs ! j)" using assms(1-3) by (simp_all add: chunks_ok_def chunk_ok_def)
  then show ?thesis
    using ends [OF _ assms(5)] ends [OF _ assms(6)] chunks_apart [OF assms(1), of i j] chunks_apart [OF assms(1), of j i] assms(2-4)
    by (cases "i < j") force+
qed

lemma distinct_chunk_samples:
  assumes "chunks_ok (host_log10 h) cs" "distinct is" "\<forall>i\<in>set is. i < length cs"
  shows "distinct (map timestamp (concat (map (\<lambda>i. filter P (tsc_samples (host_log10 h) (cs ! i))) is)))"
  using assms(2,3)
proof (induction "is")
  case (Cons i js)
  have "tsc_inv (host_log10 h) (cs ! i)" using assms(1) Cons.prems by (simp add: chunks_ok_def chunk_ok_def)
  then have "distinct (map timestamp (filter P (tsc_samples (host_log10 h) (cs ! i))))"
    using tc.valid [of "cs ! i"] by (intro ksorted_distinct ksorted_filter) simp
  moreover have "timestamp x \<noteq> timestamp y" if "x \<in> set (tsc_samples (host_log10 h) (cs ! i))" "j \<in> set js"
      "y \<in> set (tsc_samples (host_log10 h) (cs ! j))" for x y j
    using disjoint_chunks [OF assms(1), of i j x y] that Cons.prems by auto
  ultimately show ?case using Cons by (auto 0 4)
qed simp

text \<open>Whatever order the hash map hands back the chunks in, the answer is the same.\<close>

lemma looked_up_many:
  assumes "ts_inv h s" "sorted_wrt (<) tss" "\<And>xs. mset (perm xs) = mset xs"
  shows "ts_samples_by_timestamps perm h s tss = Inr (filter (\<lambda>x. timestamp x \<in> set tss) (ts_samples h s))"
proof (cases "ts_is_empty s \<or> tss = []")
  case True
  then show ?thesis using ts_is_empty_iff [OF assms(1)] by (auto simp: ts_samples_by_timestamps_def ts_samples_def)
next
  case False
  let ?lg = "host_log10 h" and ?cs = "ts_chunks s" and ?m = "perm (meta_map (ts_chunks s) tss)"
  let ?f = "\<lambda>i. filter (\<lambda>x. timestamp x \<in> set tss) (tsc_samples ?lg (?cs ! i))"
  note ok = ts_invD(1) [OF assms(1)]
  have m: "set ?m = set (meta_map ?cs tss)" "distinct (map fst ?m)"
    using assms(3) meta_map_spec [of ?cs tss] by (metis mset_eq_setD, metis mset_map mset_eq_imp_distinct_iff)
  have "concat_results (map (\<lambda>(i, ts). tsc_samples_by_timestamps ?lg (?cs ! i) ts) ?m) = Inr (concat (map (\<lambda>(i, ts). ?f i) ?m))"
    using meta_samples(1) [OF ok assms(2)] m(1) by (intro concat_results_ok) auto
  then have res: "concat_results (map (\<lambda>(i, ts). tsc_samples_by_timestamps ?lg (?cs ! i) ts) ?m) = Inr (concat (map ?f (map fst ?m)))"
    by (simp add: case_prod_unfold comp_def)
  let ?zs = "concat (map ?f (map fst ?m))"
  have set: "set ?zs = set (filter (\<lambda>x. timestamp x \<in> set tss) (ts_samples h s))"
    using meta_covers [OF ok] meta_samples(2) [OF ok assms(2)] m(1) by (fastforce simp: ts_samples_def set_chunks_samples)
  have dist: "distinct (map timestamp ?zs)"
    using meta_samples(2) [OF ok assms(2)] m by (intro distinct_chunk_samples [OF ok]) auto
  have "sorted_wrt (<) (map timestamp (sort_key timestamp ?zs))"
    using dist by (intro strict_sorted_iff [THEN iffD2]) (auto simp: distinct_map)
  then have "tsorted (sort_key timestamp ?zs)" by (simp add: ksorted_def sorted_wrt_map)
  then have sk: "sort_key timestamp ?zs = filter (\<lambda>x. timestamp x \<in> set tss) (ts_samples h s)"
    using set ts_inv_valid [OF assms(1)] by (intro ksorted_unique [of timestamp]) (simp_all add: ksorted_filter)
  have one: "?zs = sort_key timestamp ?zs" if "length ?m \<le> 1"
  proof (cases ?m)
    case (Cons e es)
    then have "?cs ! fst e \<in> set ?cs" using meta_samples(2) [OF ok assms(2), of "fst e" "snd e"] m(1) by (metis list.set_intros(1) nth_mem prod.collapse)
    then have "tsorted (tsc_samples ?lg (?cs ! fst e))" using ok tc.valid by (simp add: chunks_ok_def chunk_ok_def)
    then show ?thesis using that Cons by (simp add: sorted_by_key ksorted_filter)
  qed simp
  show ?thesis using False res sk one
    by (cases "?m = []") (auto simp: ts_samples_by_timestamps_def Let_def not_less)
qed

lemma ranged_filtered:
  assumes "ts_inv h s" "\<And>xs. mset (perm xs) = mset xs"
  shows "ts_get_range_filtered perm h s a b tsf vf = filter (\<lambda>x. in_range a b x \<and>
     (case tsf of None \<Rightarrow> True | Some tss \<Rightarrow> timestamp x \<in> set tss) \<and>
     (case vf of None \<Rightarrow> True | Some f \<Rightarrow> vf_is_match f (val x))) (ts_visible h s)"
proof -
  let ?a = "max a (ts_get_min_timestamp s)"
  have sl: "sorted_wrt (<) (filter_timestamp_slice tss ?a b)" for tss
    by (simp add: filter_timestamp_slice_def remdups_adj_sorted)
  have "ts_get_range h s ?a b = filter (in_range a b) (ts_visible h s)"
    unfolding ranged [OF assms(1)] by (auto simp: ts_visible_def in_range_def intro!: filter_cong)
  moreover have "ts_samples_by_timestamps perm h s (filter_timestamp_slice tss ?a b) =
      Inr (filter (\<lambda>x. in_range a b x \<and> timestamp x \<in> set tss) (ts_visible h s))" for tss
    unfolding looked_up_many [OF assms(1) sl assms(2)]
    by (auto simp: filter_timestamp_slice_def ts_visible_def in_range_def intro!: filter_cong)
  moreover have "\<not> in_range a b x" if "b < ?a" "x \<in> set (ts_visible h s)" for x
    using that by (auto simp: ts_visible_def in_range_def)
  ultimately show ?thesis
    by (cases "b < ?a") (auto simp: ts_get_range_filtered_def Let_def filter_samples_by_value_def vf_is_match_def filter_empty_conv
        intro!: filter_cong split: option.split)
qed

end

end
