(* ===== verification/Series_Runs.thy ===== *)
theory Series_Runs
  imports Series_Reads
begin

text \<open>
  Retention, splitting and whole runs of a series: every series reached from a fresh one by the operations
  satisfies the invariant. The properties of the series are stated here over the model's definitions.
\<close>

section \<open>The retention floor of a list of samples\<close>

definition ts_floor :: "nat \<Rightarrow> sample list \<Rightarrow> timestamp" where
  "ts_floor retention xs =
     (if xs = [] then 0 else max (i64_saturating_sub (timestamp (List.last xs)) (i64 (int (as_millis retention)))) 0)"

lemma ts_floor_min: "ts_inv h s \<Longrightarrow> ts_retention s \<noteq> 0 \<Longrightarrow> ts_get_min_timestamp s = ts_floor (ts_retention s) (ts_samples h s)"
  using ts_invD(6) [of h s] by (simp add: ts_get_min_timestamp_def ts_floor_def)

text \<open>What an add may drop behind the inserted sample: samples that fell out of the window.\<close>

definition ts_dropped :: "nat \<Rightarrow> sample list \<Rightarrow> sample list \<Rightarrow> bool" where
  "ts_dropped retention ys zs \<longleftrightarrow>
     (\<exists>n\<le>length ys. zs = drop n ys \<and> (\<forall>y\<in>set (take n ys). retention \<noteq> 0 \<and> timestamp y < ts_floor retention ys))"

section \<open>The merge of the two runs of a split\<close>

lemma merge_runs_interleaved:
  assumes "\<forall>p\<in>set ps. length (fst (snd p)) \<le> 1" "ksorted tsc_first_timestamp (concat (map (\<lambda>p. fst p # fst (snd p)) ps))"
  shows "ts_merge_runs (map fst ps) (concat (map (\<lambda>p. fst (snd p)) ps)) = concat (map (\<lambda>p. fst p # fst (snd p)) ps)"
  using assms
proof (induction ps)
  case (Cons p ps)
  let ?ls = "map fst ps" and ?rs = "concat (map (\<lambda>p. fst (snd p)) ps)" and ?all = "concat (map (\<lambda>p. fst p # fst (snd p)) ps)"
  have IH: "ts_merge_runs ?ls ?rs = ?all" using Cons by (simp add: ksorted_append)
  have in_all: "set ?ls \<subseteq> set ?all" "set ?rs \<subseteq> set ?all" by auto
  have above: "\<forall>x\<in>set (fst p # fst (snd p)). \<forall>y\<in>set ?all. tsc_first_timestamp x < tsc_first_timestamp y"
    using Cons.prems(2) by (auto simp: ksorted_append)
  show ?case
  proof (cases "fst (snd p)")
    case Nil
    show ?thesis
    proof (cases ?rs)
      case Nil2: Nil
      then have "?all = ?ls" using IH by (metis ts_merge_runs.simps(2))
      then show ?thesis by (simp add: Nil Nil2)
    next
      case (Cons r rs)
      then have "tsc_first_timestamp (fst p) < tsc_first_timestamp r" using above in_all(2) by auto
      moreover have "ts_merge_runs ?ls (r # rs) = ?all" using IH Cons by simp
      ultimately show ?thesis by (simp add: Nil Cons)
    qed
  next
    case (Cons r rest)
    then have r: "fst (snd p) = [r]" using Cons.prems(1) by simp
    have le: "tsc_first_timestamp (fst p) \<le> tsc_first_timestamp r" using Cons.prems(2) r by simp
    show ?thesis
    proof (cases ?ls)
      case Nil
      then show ?thesis using r le by simp
    next
      case (Cons l ls)
      then have "tsc_first_timestamp r < tsc_first_timestamp l" using above in_all(1) r by auto
      moreover have "ts_merge_runs (l # ls) ?rs = ?all" using IH Cons by simp
      ultimately show ?thesis using le by (simp add: r Cons)
    qed
  qed
qed simp

lemma chunks_samples_pieces:
  "\<forall>c\<in>set cs. chunks_samples lg (g c) = tsc_samples lg c \<Longrightarrow> chunks_samples lg (concat (map g cs)) = chunks_samples lg cs"
  by (induction cs) simp_all

context series_host
begin

lemma split_pieces:
  assumes "chunk_ok (host_log10 h) c"
  shows "\<exists>l rs. ts_split_one (host_log10 h) c = (l, rs, False) \<and> length rs \<le> 1 \<and> (\<forall>d\<in>set (l # rs). chunk_ok (host_log10 h) d) \<and>
    chunks_samples (host_log10 h) (l # rs) = tsc_samples (host_log10 h) c"
proof (cases "ts_needs_split c")
  case True
  have c: "tsc_inv (host_log10 h) c" "48 \<le> tsc_max_size c" using assms chunk_ok_size by (auto simp: chunk_ok_def)
  then have "19 < tsc_size c" using True by (simp add: ts_needs_split_def Let_def)
  then have "2 \<le> length (tsc_samples (host_log10 h) c)" using tsc_one_sample [OF c(1)] by linarith
  then obtain l r where lr: "tsc_split (host_log10 h) c = Inr (l, r)" "tsc_inv (host_log10 h) l" "tsc_inv (host_log10 h) r"
    "tsc_samples (host_log10 h) l @ tsc_samples (host_log10 h) r = tsc_samples (host_log10 h) c"
    "tsc_samples (host_log10 h) l \<noteq> []" "tsc_samples (host_log10 h) r \<noteq> []" using tc.split [OF c(1)] by blast
  then show ?thesis using True assms tsc_limits(5) [OF lr(1)] by (auto simp: ts_split_one_def chunk_ok_def)
qed (use assms in \<open>simp add: ts_split_one_def\<close>)

lemma series_split:
  assumes "ts_inv h s"
  shows "\<exists>s'. ts_split_chunks_if_needed h s = (Inr (), s') \<and> ts_inv h s' \<and> ts_config s' = ts_config s \<and> ts_samples h s' = ts_samples h s"
proof (cases "\<exists>c\<in>set (ts_chunks s). ts_needs_split c")
  case True
  let ?lg = "host_log10 h" and ?ps = "map (ts_split_one (host_log10 h)) (ts_chunks s)"
  let ?all = "concat (map (\<lambda>p. fst p # fst (snd p)) ?ps)"
  note ok = ts_invD(1) [OF assms]
  have p: "length (fst (snd (ts_split_one ?lg c))) \<le> 1 \<and> \<not> snd (snd (ts_split_one ?lg c)) \<and>
      (\<forall>d\<in>set (fst (ts_split_one ?lg c) # fst (snd (ts_split_one ?lg c))). chunk_ok ?lg d) \<and>
      chunks_samples ?lg (fst (ts_split_one ?lg c) # fst (snd (ts_split_one ?lg c))) = tsc_samples ?lg c"
    if "c \<in> set (ts_chunks s)" for c
    using split_pieces [of c] ok that by (fastforce simp: chunks_ok_def)
  have samples: "chunks_samples ?lg ?all = ts_samples h s"
    using p unfolding ts_samples_def map_map comp_def by (intro chunks_samples_pieces) blast
  have all: "chunks_ok ?lg ?all" using p samples ts_inv_valid [OF assms] by (auto simp: chunks_ok_def)
  have srt: "ksorted tsc_first_timestamp ?all" using chunks_keys(2) [OF all] .
  have "sorted_wrt (<) (map tsc_first_timestamp (concat (map (\<lambda>p. fst (snd p)) qs)))"
    if "ksorted tsc_first_timestamp (concat (map (\<lambda>p. fst p # fst (snd p)) qs))" for qs :: "(timeseries_chunk \<times> timeseries_chunk list \<times> bool) list"
    using that by (induction qs) (auto simp: ksorted_append ksorted_def sorted_wrt_append sorted_wrt_map)
  from this [OF srt] have new: "sort_key tsc_first_timestamp (concat (map (\<lambda>p. fst (snd p)) ?ps)) = concat (map (\<lambda>p. fst (snd p)) ?ps)"
    by (intro sort_key_id_if_sorted) (simp add: strict_sorted_iff)
  have m: "ts_merge_runs (map fst ?ps) (concat (map (\<lambda>p. fst (snd p)) ?ps)) = ?all"
    by (rule merge_runs_interleaved [OF _ srt]) (use p in auto)
  have merged: "(if concat (map (\<lambda>p. fst (snd p)) ?ps) = [] then map fst ?ps
      else ts_merge_runs (map fst ?ps) (sort_key tsc_first_timestamp (concat (map (\<lambda>p. fst (snd p)) ?ps)))) = ?all"
    using m unfolding new by (metis ts_merge_runs.simps(2))
  have "ts_split_chunks_if_needed h s = (Inr (), s\<lparr>ts_chunks := ?all\<rparr>)"
    using True p merged by (auto simp: ts_split_chunks_if_needed_def Let_def comp_def)
  moreover have "ts_inv h (s\<lparr>ts_chunks := ?all\<rparr>)"
    using all samples ts_invD [OF assms] unfolding ts_inv_def ts_samples_simps by simp
  ultimately show ?thesis using samples by auto
next
  case False
  then show ?thesis using assms by (simp add: ts_split_chunks_if_needed_def)
qed

lemma retained:
  assumes "ts_inv h s"
  shows "ts_inv h (ts_apply_retention h s)" "ts_config (ts_apply_retention h s) = ts_config s"
    "ts_dropped (ts_retention s) (ts_samples h s) (ts_samples h (ts_apply_retention h s))"
proof -
  have "ts_inv h (ts_apply_retention h s) \<and> ts_config (ts_apply_retention h s) = ts_config s \<and>
    ts_dropped (ts_retention s) (ts_samples h s) (ts_samples h (ts_apply_retention h s))"
  proof (cases "ts_retention s = 0")
    case True
    then show ?thesis using assms by (auto simp: ts_apply_retention_def ts_dropped_def intro!: exI [of _ 0])
  next
    case False
    obtain n s' where t: "ts_trim_expired h False s = (Inr n, s')" "ts_inv h s'" "ts_config s' = ts_config s" "trim_cut h s False n (ts_chunks s')"
      using trimmed [OF assms, of False] by blast
    have "ts_samples h s' = drop n (ts_samples h s)" "n \<le> length (ts_samples h s)"
      "\<forall>y\<in>set (take n (ts_samples h s)). timestamp y < ts_floor (ts_retention s) (ts_samples h s)"
      using t(4) ts_floor_min [OF assms False] by (auto simp: trim_cut_def ts_samples_def)
    then have "ts_dropped (ts_retention s) (ts_samples h s) (ts_samples h s')" using False by (auto simp: ts_dropped_def)
    then show ?thesis using False t by (simp add: ts_apply_retention_def ts_trim_lazily_def)
  qed
  then show "ts_inv h (ts_apply_retention h s)" "ts_config (ts_apply_retention h s) = ts_config s"
    "ts_dropped (ts_retention s) (ts_samples h s) (ts_samples h (ts_apply_retention h s))" by blast+
qed

lemma added:
  assumes "ts_inv h s" "valid_ts ts" "ts_add h ts v ov s = (r, s')"
  shows "ts_inv h s' \<and> ts_config s' = ts_config s \<and>
    (if add_result_is_ok r then
       (\<exists>ys. r = AddOk (ts_make_sample h s ts v) \<and>
         list_insert (resolve_policy (host_duplicate_policy h) (ts_sample_duplicates s) ov) (ts_make_sample h s ts v) (ts_samples h s) = Inr ys \<and>
         ts_dropped (ts_retention s) ys (ts_samples h s'))
     else ts_samples h s' = ts_samples h s)"
proof -
  obtain r1 s1 where d: "ts_add_deferring_retention h ts v ov s = (r1, s1)" by fastforce
  have a: "r = r1" "s' = (if add_result_is_ok r1 then ts_apply_retention h s1 else s1)"
    using assms(3) d by (auto simp: ts_add_def ts_add_reporting_insert_def Let_def)
  note out = add_deferred(1) [OF assms(1,2) refl refl, of ov v, unfolded d ts_added_def, simplified]
  then have "ts_inv h s1" "ts_retention s1 = ts_retention s" using ts_config_eqD(1) by blast+
  then show ?thesis using out retained [of s1] a by (auto split: if_splits)
qed

lemma added_answer:
  assumes "ts_inv h s" "valid_ts ts" "\<forall>c\<in>set (ts_chunks s). tsc_roomy c"
  shows "fst (ts_add h ts v ov s) = ts_add_answer h ts v ov s"
  using add_deferred(2) [OF assms(1,2) refl refl assms(3), of v ov]
  by (simp add: ts_add_def ts_add_reporting_insert_def Let_def case_prod_unfold)

lemma incremented:
  assumes "ts_inv h s" "\<And>t. topt = Some t \<Longrightarrow> valid_ts t" "valid_ts (host_now h)"
  shows "ts_inv h (snd (ts_increment_sample_value h topt delta s))"
proof -
  have add: "ts_inv h (snd (ts_add h t v ov s))" if "valid_ts t" for t v ov
    using added [OF assms(1) that, of v ov] by (metis prod.collapse)
  have "valid_ts (timestamp l)" if "ts_last_sample s = Some l" for l
    using ts_invD(6) [OF assms(1)] ts_inv_valid [OF assms(1)] that by (auto simp: valid_samples_def split: if_splits)
  then show ?thesis using add assms
    by (auto simp: ts_increment_sample_value_def Let_def case_prod_unfold split: option.split)
qed

lemma min_below_last:
  assumes "ts_inv h s" "int (as_millis (ts_retention s)) \<le> i64_max"
  shows "ts_get_min_timestamp s \<le> ts_last_timestamp s"
proof (cases "ts_samples h s = []")
  case True
  then show ?thesis using ts_invD(5,6) [OF assms(1)] by (simp add: ts_get_min_timestamp_def ts_last_timestamp_def)
next
  case False
  let ?l = "timestamp (List.last (ts_samples h s))" and ?r = "int (as_millis (ts_retention s))"
  have l: "ts_last_sample s = Some (List.last (ts_samples h s))" using ts_invD(6) [OF assms(1)] False by simp
  have v: "0 \<le> ?l" "?l \<le> i64_max" using ts_inv_valid [OF assms(1)] False by (auto simp: valid_samples_def valid_ts_def)
  have "ts_first_timestamp s \<le> ts_last_timestamp s" using ts_ends [OF assms(1), of "List.last (ts_samples h s)"] False by simp
  moreover have "i64 ?r = ?r" using assms(2) by (intro i64_id) (simp add: is_i64_def i64_min_def i64_max_def)
  ultimately show ?thesis using v assms(2) by (auto simp: ts_get_min_timestamp_def l ts_last_timestamp_def i64_saturating_sub_def i64_min_def)
qed

lemma read_back:
  assumes "ts_inv h s" "x \<in> set (ts_visible h s)" shows "ts_get_range h s (timestamp x) (timestamp x) = [x]"
proof -
  have t: "tsorted (ts_visible h s)" using ts_inv_valid [OF assms(1)] by (simp add: ts_visible_def ksorted_filter)
  then have "klookup timestamp (ts_visible h s) (timestamp x) = Some x" using assms(2) by (simp add: klookup_Some_iff)
  then show ?thesis by (simp add: ranged [OF assms(1)] filter_one [OF t])
qed

lemma append_visible:
  assumes "ts_inv h s" "valid_ts ts" "int (as_millis (ts_retention s)) \<le> i64_max" "x = ts_make_sample h s ts v"
    "\<And>l. ts_last_sample s = Some l \<Longrightarrow> timestamp l < ts \<and>
      \<not> is_duplicate (host_duplicate_policy h) (ts_sample_duplicates s) x l ov"
  shows "\<exists>s'. ts_add h ts v ov s = (AddOk x, s') \<and> ts_get_range h s' ts ts = [x]"
proof -
  have x: "timestamp x = ts" by (simp add: assms(4) ts_make_sample_def)
  have new: "timestamp (List.last (ts_samples h s)) < ts" if "ts_samples h s \<noteq> []"
    using that assms(5) ts_invD(6) [OF assms(1)] by simp
  have "valid_samples (ts_samples h s @ [x])" using valid_samples_snoc [OF ts_inv_valid [OF assms(1)], of x] new x assms(2) by simp
  then obtain s1 where s1: "ts_add_sample_internal h x s = (AddOk x, s1)" "ts_inv h s1" "ts_samples h s1 = ts_samples h s @ [x]"
    "ts_config s1 = ts_config s" using appends [OF assms(1)] by blast
  have "ts_last_timestamp s \<le> ts" using assms(2,5) by (auto simp: ts_last_timestamp_def valid_ts_def less_imp_le split: option.split)
  then have "\<not> ts_is_older_than_retention s ts" using min_below_last [OF assms(1,3)] by (simp add: ts_is_older_than_retention_def)
  then have d: "ts_add_deferring_retention h ts v ov s = (AddOk x, s1)"
    using s1(1) assms(5) by (auto simp: ts_add_deferring_retention_def Let_def assms(4) [symmetric] ts_validate_sample_def split: option.split)
  let ?s' = "ts_apply_retention h s1"
  note r = retained [OF s1(2)]
  have c: "ts_retention s1 = ts_retention s" "ts_retention ?s' = ts_retention s" using ts_config_eqD(1) s1(4) r(2) by metis+
  have l1: "ts_last_timestamp s1 = ts" using ts_invD(6) [OF s1(2)] s1(3) x by (simp add: ts_last_timestamp_def)
  obtain n where n: "ts_samples h ?s' = drop n (ts_samples h s @ [x])" "n \<le> length (ts_samples h s) + 1"
    "\<forall>y\<in>set (take n (ts_samples h s @ [x])). ts_retention s \<noteq> 0 \<and> timestamp y < ts_floor (ts_retention s) (ts_samples h s1)"
    using r(3) unfolding ts_dropped_def c s1(3) by auto
  have "ts_floor (ts_retention s) (ts_samples h s1) \<le> ts" if "ts_retention s \<noteq> 0"
    using min_below_last [OF s1(2)] ts_floor_min [OF s1(2)] assms(3) l1 c that by simp
  then have "n \<noteq> length (ts_samples h s) + 1" using n(3) x by (auto simp: not_less)
  then have last: "ts_samples h ?s' = drop n (ts_samples h s) @ [x]" using n(1,2) by simp
  then have "ts_last_timestamp ?s' = ts" using ts_invD(6) [OF r(1)] x by (simp add: ts_last_timestamp_def)
  then have "x \<in> set (ts_visible h ?s')" using min_below_last [OF r(1)] assms(3) c last x by (simp add: ts_visible_def)
  then have "ts_get_range h ?s' ts ts = [x]" using read_back [OF r(1)] x by blast
  then show ?thesis using d by (simp add: ts_add_def ts_add_reporting_insert_def Let_def)
qed

end

end
