(* ===== verification/Series_Properties.thy ===== *)
theory Series_Properties
  imports Series_Runs
begin

text \<open>
  The properties of the series, over every host whose \<open>log10\<close> is accurate, and the runs of a series as a
  reachability relation. \<open>host_ref\<close> is a concrete host, with the reference logarithm and \<open>powi\<close> by repeated
  multiplication, on which the properties are exercised.
\<close>

section \<open>A concrete host and series\<close>

definition f64_powi :: "f64 \<Rightarrow> int \<Rightarrow> f64" where
  "f64_powi x n =
     (let one = 0x3FF0000000000000; p = (f64_mul x ^^ nat \<bar>n\<bar>) one in if n < 0 then f64_div one p else p)"

definition host_ref :: host where
  "host_ref = \<lparr>host_log10 = log10_ref, host_powi = f64_powi, host_duplicate_policy = KeepLast, host_retention_period = 0,
     host_now = 0, host_strict_compat = False\<rparr>"

interpretation href: series_host host_ref
  by unfold_locales (simp add: host_ref_def log10_ref_ok)

definition series_ref :: "nat \<Rightarrow> timestamp list \<Rightarrow> time_series" where
  "series_ref retention tss =
     (let xs = map (\<lambda>t. sample_new t 0) tss in
      ts_default\<lparr>ts_retention := retention, ts_chunk_encoding := EncUncompressed, ts_chunk_size_bytes := 48,
        ts_chunks := [UncompressedC \<lparr>uc_max_size = 48, uc_samples = xs, uc_max_elements = 3\<rparr>],
        ts_total_samples := length xs, ts_first_timestamp := timestamp (hd xs), ts_last_sample := Some (List.last xs)\<rparr>)"

lemma series_ref_inv:
  assumes "tss \<noteq> []" "sorted_wrt (<) tss" "\<forall>t\<in>set tss. valid_ts t"
  shows "ts_inv h (series_ref r tss)" "ts_samples h (series_ref r tss) = map (\<lambda>t. sample_new t 0) tss"
proof -
  have v: "valid_samples (map (\<lambda>t. sample_new t 0) tss)"
    using assms(2,3) by (auto simp: valid_samples_def ksorted_def sorted_wrt_map)
  show samples: "ts_samples h (series_ref r tss) = map (\<lambda>t. sample_new t 0) tss"
    by (simp add: ts_samples_def series_ref_def Let_def)
  have "ts_chunk_size_bytes (series_ref r tss) = 48" by (simp add: series_ref_def Let_def)
  moreover have "chunks_ok (host_log10 h) (ts_chunks (series_ref r tss))"
    using v assms(1) by (simp add: series_ref_def Let_def chunk_ok_def limits_ok_def uc_limits_def uc_inv_def)
  ultimately show "ts_inv h (series_ref r tss)" unfolding ts_inv_def samples
    using assms(1) by (simp add: series_ref_def Let_def)
qed

lemma series_ref3:
  "ts_inv host_ref (series_ref r [10, 20, 30])"
  "ts_samples host_ref (series_ref r [10, 20, 30]) = [sample_new 10 0, sample_new 20 0, sample_new 30 0]"
  using series_ref_inv [of "[10, 20, 30]" host_ref r] by (simp_all add: valid_ts_def i64_max_def)

lemma series_ref3_visible:
  "ts_visible host_ref (series_ref 0 [10, 20, 30]) = [sample_new 10 0, sample_new 20 0, sample_new 30 0]"
  "ts_visible host_ref (series_ref 15000000 [10, 20, 30]) = [sample_new 20 0, sample_new 30 0]"
proof -
  have "ts_get_min_timestamp (series_ref 0 [10, 20, 30]) = 10" "ts_get_min_timestamp (series_ref 15000000 [10, 20, 30]) = 15"
    by (simp_all add: ts_get_min_timestamp_def series_ref_def Let_def as_millis_def i64_def i64_saturating_sub_def i64_max_def i64_min_def)
  then show "ts_visible host_ref (series_ref 0 [10, 20, 30]) = [sample_new 10 0, sample_new 20 0, sample_new 30 0]"
    "ts_visible host_ref (series_ref 15000000 [10, 20, 30]) = [sample_new 20 0, sample_new 30 0]"
    by (simp_all add: ts_visible_def series_ref3)
qed

section \<open>Runs of a series\<close>

text \<open>
  A series made by \<open>with_options\<close> and changed by the operations. The settings of the host may differ from
  one operation to the next; the platform's \<open>log10\<close> stays.
\<close>

inductive ts_reachable :: "(f64 \<Rightarrow> f64) \<Rightarrow> time_series \<Rightarrow> bool" for lg where
  fresh: "host_log10 h = lg \<Longrightarrow> ts_with_options h opts = Inr s \<Longrightarrow> ts_reachable lg s"
| add: "ts_reachable lg s \<Longrightarrow> host_log10 h = lg \<Longrightarrow> valid_ts ts \<Longrightarrow> ts_reachable lg (snd (ts_add h ts v ov s))"
| increment: "ts_reachable lg s \<Longrightarrow> host_log10 h = lg \<Longrightarrow> valid_ts (host_now h) \<Longrightarrow> (\<forall>t. topt = Some t \<longrightarrow> valid_ts t) \<Longrightarrow>
    ts_reachable lg (snd (ts_increment_sample_value h topt delta s))"
| remove_range: "ts_reachable lg s \<Longrightarrow> host_log10 h = lg \<Longrightarrow> ts_reachable lg (snd (ts_remove_range h a b s))"
| trim: "ts_reachable lg s \<Longrightarrow> host_log10 h = lg \<Longrightarrow> ts_reachable lg (snd (ts_trim h s))"
| split: "ts_reachable lg s \<Longrightarrow> host_log10 h = lg \<Longrightarrow> ts_reachable lg (snd (ts_split_chunks_if_needed h s))"

inductive_cases ts_reachableE: "ts_reachable lg s"

lemma ts_inv_host: "host_log10 h = host_log10 h' \<Longrightarrow> ts_inv h s \<longleftrightarrow> ts_inv h' s"
  by (simp add: ts_inv_def ts_samples_def)

text \<open>
  C2: Every series reached from a fresh one by adds, increments, deletes, trims and splits, under any settings,
  is well formed: its chunks are non-empty, internally consistent and strictly ordered in time with no
  overlap, and its sample count, first timestamp and last sample describe exactly what the chunks hold.
\<close>

theorem series_reachable_inv:
  assumes "log10_ok (host_log10 h)" "ts_reachable (host_log10 h) s"
  shows "ts_inv h s"
  using assms(2)
proof (induction rule: ts_reachable.induct)
  case (fresh h' opts s)
  then show ?case using series_host.new_series [of h' opts s] assms(1) ts_inv_host [of h h' s] by (simp add: series_host_def)
next
  case (add s h' ts v ov)
  then show ?case using series_host.added [of h' s ts v ov] assms(1) ts_inv_host [of h h'] by (metis prod.collapse series_host_def)
next
  case (increment s h' topt delta)
  then show ?case using series_host.incremented [of h' s topt delta] assms(1) ts_inv_host [of h h'] by (metis series_host_def)
next
  case (remove_range s h' a b)
  then have i: "series_host h'" "ts_inv h' s" using assms(1) ts_inv_host [of h h'] by (simp_all add: series_host_def)
  have "ts_inv h' (snd (ts_remove_range h' a b s))"
    using series_host.removed [OF i, of a b] i(2) by (cases "a \<le> b") (auto simp: ts_remove_range_def)
  then show ?case using remove_range(2) ts_inv_host [of h h'] by simp
next
  case (trim s h')
  then have i: "series_host h'" "ts_inv h' s" using assms(1) ts_inv_host [of h h'] by (simp_all add: series_host_def)
  have "ts_inv h' (snd (ts_trim h' s))" using series_host.trimmed [OF i, of True] by (metis snd_conv ts_trim_def)
  then show ?case using trim(2) ts_inv_host [of h h'] by simp
next
  case (split s h')
  then have i: "series_host h'" "ts_inv h' s" using assms(1) ts_inv_host [of h h'] by (simp_all add: series_host_def)
  have "ts_inv h' (snd (ts_split_chunks_if_needed h' s))" using series_host.series_split [OF i] by (metis snd_conv)
  then show ?case using split(2) ts_inv_host [of h h'] by simp
qed

theorem series_reachable_inv_witness:
  "ts_reachable (host_log10 host_ref) (snd (ts_add host_ref 10 0 None ts_default)) \<and>
   ts_inv host_ref (snd (ts_add host_ref 10 0 None ts_default))"
proof -
  have "ts_with_options host_ref options_default = Inr ts_default"
    by (simp add: ts_with_options_def options_default_def ts_default_def host_ref_def validate_chunk_size_def
        MIN_CHUNK_SIZE_def MAX_CHUNK_SIZE_def DEFAULT_CHUNK_SIZE_BYTES_def)
  then have "ts_reachable (host_log10 host_ref) (snd (ts_add host_ref 10 0 None ts_default))"
    by (intro ts_reachable.add [where h = host_ref] ts_reachable.fresh [where h = host_ref]) (simp_all add: valid_ts_def i64_max_def)
  then show ?thesis using series_reachable_inv [of host_ref] href.host_log by simp
qed

section \<open>Writes\<close>

text \<open>
  C1: An add either reports success, and then the series holds the old samples with the new one inserted under the
  effective duplicate policy, less a prefix of samples that fell out of the retention window; or it reports
  anything else and the stored samples are exactly what they were, also when a chunk was split on the way.
  The well-formedness and the settings of the series are kept on every path.
\<close>

theorem series_add:
  assumes "log10_ok (host_log10 h)" "ts_inv h s" "valid_ts ts"
  shows "case ts_add h ts v ov s of (r, s') \<Rightarrow> ts_inv h s' \<and> ts_config s' = ts_config s \<and>
    (if add_result_is_ok r then
       (\<exists>ys. r = AddOk (ts_make_sample h s ts v) \<and>
         list_insert (resolve_policy (host_duplicate_policy h) (ts_sample_duplicates s) ov) (ts_make_sample h s ts v) (ts_samples h s) = Inr ys \<and>
         ts_dropped (ts_retention s) ys (ts_samples h s'))
     else ts_samples h s' = ts_samples h s)"
proof (cases "ts_add h ts v ov s")
  case (Pair r s')
  from series_host.added [OF series_host.intro [OF assms(1)] assms(2,3) this] show ?thesis unfolding Pair prod.case .
qed

theorem series_add_witness:
  "case ts_add host_ref 35 0 None (series_ref 5000000 [10, 20, 30]) of (r, s') \<Rightarrow>
     ts_inv host_ref s' \<and> ts_config s' = ts_config (series_ref 5000000 [10, 20, 30]) \<and>
     (if add_result_is_ok r then
       (\<exists>ys. r = AddOk (ts_make_sample host_ref (series_ref 5000000 [10, 20, 30]) 35 0) \<and>
         list_insert (resolve_policy (host_duplicate_policy host_ref) (ts_sample_duplicates (series_ref 5000000 [10, 20, 30])) None)
           (ts_make_sample host_ref (series_ref 5000000 [10, 20, 30]) 35 0) (ts_samples host_ref (series_ref 5000000 [10, 20, 30])) = Inr ys \<and>
         ts_dropped (ts_retention (series_ref 5000000 [10, 20, 30])) ys (ts_samples host_ref s'))
      else ts_samples host_ref s' = ts_samples host_ref (series_ref 5000000 [10, 20, 30]))"
  by (rule series_add [OF href.host_log series_ref3(1)]) (simp add: valid_ts_def i64_max_def)

text \<open>
  C7: The answer of an add is the one the sorted list dictates: too old below the retention floor, ignored when the
  ignore rule matches the last sample, a duplicate when the policy refuses the existing sample, and otherwise
  success. The one proviso: no uncompressed chunk holds twice the samples it is meant to hold.
\<close>

theorem series_add_answer:
  assumes "log10_ok (host_log10 h)" "ts_inv h s" "valid_ts ts" "\<forall>c\<in>set (ts_chunks s). tsc_roomy c"
  shows "fst (ts_add h ts v ov s) = ts_add_answer h ts v ov s"
  by (rule series_host.added_answer [OF series_host.intro [OF assms(1)] assms(2-4)])

theorem series_add_answer_witness:
  "fst (ts_add host_ref 20 0 (Some Block) (series_ref 0 [10, 20, 30])) = AddDuplicate \<and>
   fst (ts_add host_ref 20 0 (Some KeepFirst) (series_ref 0 [10, 20, 30])) = AddOk (sample_new 20 0)"
proof -
  have r: "\<forall>c\<in>set (ts_chunks (series_ref 0 [10, 20, 30])). tsc_roomy c" by (simp add: series_ref_def Let_def uc_len_def)
  note i = series_ref3 [of 0]
  have d: "ts_rounding (series_ref 0 [10, 20, 30]) = None" "ts_retention (series_ref 0 [10, 20, 30]) = 0"
    "ts_last_sample (series_ref 0 [10, 20, 30]) = Some (sample_new 30 0)" by (simp_all add: series_ref_def ts_default_def Let_def)
  have nan: "\<not> is_nan 0" by (simp add: is_nan_def f64_magnitude_def)
  then have "duplicate_value KeepFirst 20 0 0 = Inr 0" by (simp add: duplicate_value_def)
  moreover obtain e where "duplicate_value Block 20 0 0 = Inl e"
    using nan by (simp add: duplicate_value_def raise_block_error_def raise_error_def)
  ultimately show ?thesis
    using series_add_answer [OF href.host_log i(1) _ r, of 20 0 "Some Block"] series_add_answer [OF href.host_log i(1) _ r, of 20 0 "Some KeepFirst"]
    by (simp add: valid_ts_def i64_max_def ts_add_answer_def Let_def ts_is_older_than_retention_def d i(2) ts_make_sample_def
        ts_adjust_value_def resolve_policy_def sample_new_def)
qed




text \<open>
  C4: A delete of a range removes exactly the live samples in it and reports their number. Samples that retention had
  expired are dropped too, uncounted, so that a shorter series cannot bring them back; no chunk is left empty.
\<close>

theorem series_remove_range:
  assumes "log10_ok (host_log10 h)" "ts_inv h s" "a \<le> b"
  shows "\<exists>s'. ts_remove_range h a b s = (Inr (length (filter (in_range a b) (ts_visible h s))), s') \<and> ts_inv h s' \<and>
    ts_config s' = ts_config s \<and> ts_samples h s' = filter (\<lambda>x. \<not> in_range a b x) (ts_visible h s)"
  by (rule series_host.removed [OF series_host.intro [OF assms(1)] assms(2,3)])

theorem series_remove_range_witness:
  "\<exists>s'. ts_remove_range host_ref 15 25 (series_ref 0 [10, 20, 30]) = (Inr 1, s') \<and> ts_inv host_ref s' \<and>
     ts_samples host_ref s' = [sample_new 10 0, sample_new 30 0]"
  using series_remove_range [OF href.host_log series_ref3(1), of 15 25 0] by (auto simp: in_range_def series_ref3_visible)

text \<open>
  C9: A forced trim leaves exactly the samples inside the retention window and reports how many it dropped; the lazy trim
  of the write path drops a prefix of expired samples, and what a reader sees does not change.
\<close>

theorem series_trim:
  assumes "log10_ok (host_log10 h)" "ts_inv h s"
  shows "(\<exists>n s'. ts_trim h s = (Inr n, s') \<and> ts_inv h s' \<and> ts_config s' = ts_config s \<and> ts_samples h s' = ts_visible h s \<and>
      n + length (ts_visible h s) = length (ts_samples h s)) \<and>
    (\<exists>n s'. ts_trim_lazily h s = (Inr n, s') \<and> ts_inv h s' \<and> ts_config s' = ts_config s \<and> ts_samples h s' = drop n (ts_samples h s) \<and>
      filter (\<lambda>x. ts_get_min_timestamp s \<le> timestamp x) (ts_samples h s') = ts_visible h s)"
proof (rule conjI)
  note sh = series_host.intro [OF assms(1)]
  obtain n s' where t: "ts_trim_expired h True s = (Inr n, s')" "ts_inv h s'" "ts_config s' = ts_config s" "trim_cut h s True n (ts_chunks s')"
    using series_host.trimmed [OF sh assms(2), of True] by blast
  moreover have "ts_samples h s' = ts_visible h s" using series_host.trim_cut_visible [OF sh t(4)] by (simp add: ts_samples_def)
  moreover have "n + length (ts_samples h s') = length (ts_samples h s)" using t(4) by (simp add: trim_cut_def ts_samples_def)
  ultimately show "\<exists>n s'. ts_trim h s = (Inr n, s') \<and> ts_inv h s' \<and> ts_config s' = ts_config s \<and> ts_samples h s' = ts_visible h s \<and>
      n + length (ts_visible h s) = length (ts_samples h s)" by (auto simp: ts_trim_def)
  obtain m t' where l: "ts_trim_expired h False s = (Inr m, t')" "ts_inv h t'" "ts_config t' = ts_config s" "trim_cut h s False m (ts_chunks t')"
    using series_host.trimmed [OF sh assms(2), of False] by blast
  have d: "ts_samples h t' = drop m (ts_samples h s)" using l(4) by (simp add: trim_cut_def ts_samples_def)
  have "filter (\<lambda>x. ts_get_min_timestamp s \<le> timestamp x) (take m (ts_samples h s)) = []"
    using l(4) by (auto simp: trim_cut_def filter_empty_conv)
  then have "filter (\<lambda>x. ts_get_min_timestamp s \<le> timestamp x) (ts_samples h t') = ts_visible h s"
    unfolding ts_visible_def d by (metis append_Nil append_take_drop_id filter_append)
  then show "\<exists>n s'. ts_trim_lazily h s = (Inr n, s') \<and> ts_inv h s' \<and> ts_config s' = ts_config s \<and> ts_samples h s' = drop n (ts_samples h s) \<and>
      filter (\<lambda>x. ts_get_min_timestamp s \<le> timestamp x) (ts_samples h s') = ts_visible h s"
    using l d by (auto simp: ts_trim_lazily_def)
qed

theorem series_trim_witness:
  "\<exists>n s'. ts_trim host_ref (series_ref 15000000 [10, 20, 30]) = (Inr n, s') \<and> n = 1 \<and>
     ts_samples host_ref s' = [sample_new 20 0, sample_new 30 0]"
  using series_trim [OF href.host_log series_ref3(1), of 15000000] by (auto simp: series_ref3 series_ref3_visible)

text \<open>
  C12: After a lazy trim the expired samples that stay are few: they all lie in the first chunk, which is compressed, and take
  less than a quarter of the time that chunk spans.
\<close>

theorem series_lazy_trim_bound:
  assumes "log10_ok (host_log10 h)" "ts_inv h s"
  shows "case ts_chunks (snd (ts_trim_lazily h s)) of
      [] \<Rightarrow> True
    | c # cs \<Rightarrow> (\<forall>x\<in>set (chunks_samples (host_log10 h) cs). ts_get_min_timestamp s \<le> timestamp x) \<and>
        (ts_get_min_timestamp s \<le> tsc_first_timestamp c \<or>
         tsc_is_compressed c \<and> 4 * (ts_get_min_timestamp s - tsc_first_timestamp c) < tsc_last_timestamp c - tsc_first_timestamp c)"
proof -
  obtain n s' where t: "ts_trim_expired h False s = (Inr n, s')" "ts_inv h s'"
    "\<forall>c cs. ts_chunks s' = c # cs \<longrightarrow> ts_get_min_timestamp s \<le> tsc_last_timestamp c \<and>
      (ts_get_min_timestamp s \<le> tsc_first_timestamp c \<or> \<not> head_trim_due c (ts_get_min_timestamp s))"
    using series_host.trimmed [OF series_host.intro [OF assms(1)] assms(2), of False] by blast
  have "\<forall>x\<in>set (chunks_samples (host_log10 h) cs). ts_get_min_timestamp s \<le> timestamp x" if "ts_chunks s' = c # cs" for c cs
  proof -
    have ok: "chunks_ok (host_log10 h) (c # cs)" using ts_invD(1) [OF t(2)] that by simp
    then have "List.last (tsc_samples (host_log10 h) c) \<in> set (tsc_samples (host_log10 h) c)" by (simp add: chunk_ok_def)
    moreover have "ts_get_min_timestamp s \<le> timestamp (List.last (tsc_samples (host_log10 h) c))"
      using t(3) that ok chimp_log.chunk_bounds(2) [OF chimp_log.intro [OF assms(1)], of c] by simp
    ultimately show ?thesis using ok by fastforce
  qed
  then show ?thesis using t(3) unfolding ts_trim_lazily_def t(1)
    by (auto simp: head_trim_due_def Let_def split: list.split if_splits)
qed

theorem series_lazy_trim_bound_witness:
  "case ts_chunks (snd (ts_trim_lazily host_ref (series_ref 15000000 [10, 20, 30]))) of
      [] \<Rightarrow> True
    | c # cs \<Rightarrow> (\<forall>x\<in>set (chunks_samples (host_log10 host_ref) cs). ts_get_min_timestamp (series_ref 15000000 [10, 20, 30]) \<le> timestamp x) \<and>
        (ts_get_min_timestamp (series_ref 15000000 [10, 20, 30]) \<le> tsc_first_timestamp c \<or>
         tsc_is_compressed c \<and> 4 * (ts_get_min_timestamp (series_ref 15000000 [10, 20, 30]) - tsc_first_timestamp c) <
           tsc_last_timestamp c - tsc_first_timestamp c)"
  by (rule series_lazy_trim_bound [OF href.host_log series_ref3(1)])

text \<open>
  C15: Splitting the chunks a merge has overfilled never fails, moves no sample and keeps the series well formed: the upper
  halves are merged back between the chunks in time order.
\<close>

theorem series_split_keeps:
  assumes "log10_ok (host_log10 h)" "ts_inv h s"
  shows "\<exists>s'. ts_split_chunks_if_needed h s = (Inr (), s') \<and> ts_inv h s' \<and> ts_config s' = ts_config s \<and> ts_samples h s' = ts_samples h s"
  by (rule series_host.series_split [OF series_host.intro [OF assms(1)] assms(2)])

theorem series_split_keeps_witness:
  "\<exists>s'. ts_split_chunks_if_needed host_ref (series_ref 0 [10, 20, 30, 40, 50, 60]) = (Inr (), s') \<and>
     ts_samples host_ref s' = map (\<lambda>t. sample_new t 0) [10, 20, 30, 40, 50, 60]"
proof -
  have i: "ts_inv host_ref (series_ref 0 [10, 20, 30, 40, 50, 60])"
    "ts_samples host_ref (series_ref 0 [10, 20, 30, 40, 50, 60]) = map (\<lambda>t. sample_new t 0) [10, 20, 30, 40, 50, 60]"
    by (rule series_ref_inv; simp add: valid_ts_def i64_max_def)+
  then show ?thesis using series_split_keeps [OF href.host_log i(1)] by auto
qed

text \<open>
  C8: A new sample later than everything stored, that the ignore rule does not drop, is accepted whatever state the chunks are
  in, and the very next read of its timestamp returns it.
\<close>

theorem series_append_visible:
  assumes "log10_ok (host_log10 h)" "ts_inv h s" "valid_ts ts" "int (as_millis (ts_retention s)) \<le> i64_max"
    "\<And>l. ts_last_sample s = Some l \<Longrightarrow> timestamp l < ts \<and>
      \<not> is_duplicate (host_duplicate_policy h) (ts_sample_duplicates s) (ts_make_sample h s ts v) l ov"
  shows "\<exists>s'. ts_add h ts v ov s = (AddOk (ts_make_sample h s ts v), s') \<and> ts_get_range h s' ts ts = [ts_make_sample h s ts v]"
  by (rule series_host.append_visible [OF series_host.intro [OF assms(1)] assms(2-4) refl]) (rule assms(5))

theorem series_append_visible_witness:
  "\<exists>s'. ts_add host_ref 40 0 (Some Block) (series_ref 15000000 [10, 20, 30]) = (AddOk (sample_new 40 0), s') \<and>
     ts_get_range host_ref s' 40 40 = [sample_new 40 0]"
proof -
  let ?s = "series_ref 15000000 [10, 20, 30]"
  have s: "ts_rounding ?s = None" "ts_retention ?s = 15000000" "ts_last_sample ?s = Some (sample_new 30 0)"
    by (simp_all add: series_ref_def ts_default_def Let_def)
  then have "ts_make_sample host_ref ?s 40 0 = sample_new 40 0" by (simp add: ts_make_sample_def ts_adjust_value_def sample_new_def)
  then show ?thesis
    using series_append_visible [OF href.host_log series_ref3(1), of 40 15000000 0 "Some Block"]
    by (simp add: s valid_ts_def i64_max_def as_millis_def is_duplicate_def resolve_policy_def)
qed




section \<open>Reads\<close>

text \<open>
  C3: A range read returns, in time order, exactly the samples of the range that are inside the retention window: the search
  for the first and last chunk of the range loses none and the expired samples still stored stay hidden.
\<close>

theorem series_get_range:
  assumes "log10_ok (host_log10 h)" "ts_inv h s"
  shows "ts_get_range h s a b = filter (in_range a b) (ts_visible h s)"
  by (rule series_host.ranged [OF series_host.intro [OF assms(1)] assms(2)])

theorem series_get_range_witness:
  "ts_get_range host_ref (series_ref 15000000 [10, 20, 30]) 0 25 = [sample_new 20 0]"
  using series_get_range [OF href.host_log series_ref3(1), of 15000000 0 25] by (simp add: series_ref3_visible in_range_def)

text \<open>
  C10: The sample iterator agrees with the range read in both directions: forward it yields the same list, in reverse
  the reversed list; a full iteration yields the whole window.
\<close>

theorem series_iterators:
  assumes "log10_ok (host_log10 h)" "ts_inv h s"
  shows "ssi_items (host_log10 h) (ssi_from_range_options h s (a, b) False) = ts_get_range h s a b \<and>
    ssi_items (host_log10 h) (ssi_from_range_options h s (a, b) True) = rev (ts_get_range h s a b) \<and>
    ssi_items (host_log10 h) (ts_iter h s) = ts_visible h s"
  using series_host.iterated_range(3) [OF series_host.intro [OF assms(1)] assms(2)]
    series_host.iterated_all [OF series_host.intro [OF assms(1)] assms(2)]
    series_host.ranged [OF series_host.intro [OF assms(1)] assms(2)] by simp

theorem series_iterators_witness:
  "ssi_items (host_log10 host_ref) (ssi_from_range_options host_ref (series_ref 0 [10, 20, 30]) (15, 35) True) =
     rev (ts_get_range host_ref (series_ref 0 [10, 20, 30]) 15 35)"
  using series_iterators [OF href.host_log series_ref3(1), of 0 15 35] by blast





text \<open>
  C13: Look-ups by timestamp are exact. One timestamp gives the stored sample there or none; a strictly increasing list of
  timestamps gives the stored samples at them in time order, in whatever order the hash map of chunks is walked.
\<close>

theorem series_lookup:
  assumes "log10_ok (host_log10 h)" "ts_inv h s" "sorted_wrt (<) tss" "\<forall>xs. mset (perm xs) = mset xs"
  shows "ts_get_sample h s t = Inr (klookup timestamp (ts_samples h s) t) \<and>
    ts_samples_by_timestamps perm h s tss = Inr (filter (\<lambda>x. timestamp x \<in> set tss) (ts_samples h s))"
  using series_host.looked_up [OF series_host.intro [OF assms(1)] assms(2)]
    series_host.looked_up_many [OF series_host.intro [OF assms(1)] assms(2,3)] assms(4) by blast

theorem series_lookup_witness:
  "ts_samples_by_timestamps rev host_ref (series_ref 0 [10, 20, 30]) [5, 10, 30] = Inr [sample_new 10 0, sample_new 30 0]"
  using series_lookup [OF href.host_log series_ref3(1), of "[5, 10, 30]" rev] by (simp add: series_ref3)

text \<open>
  C14: A filtered read returns exactly the visible samples of the range whose timestamp is listed and whose value lies in the
  filter's interval, whether it goes through the timestamp look-up or the range read.
\<close>

theorem series_filtered_read:
  assumes "log10_ok (host_log10 h)" "ts_inv h s" "\<forall>xs. mset (perm xs) = mset xs"
  shows "ts_get_range_filtered perm h s a b tsf vf = filter (\<lambda>x. in_range a b x \<and>
     (case tsf of None \<Rightarrow> True | Some tss \<Rightarrow> timestamp x \<in> set tss) \<and>
     (case vf of None \<Rightarrow> True | Some f \<Rightarrow> vf_is_match f (val x))) (ts_visible h s)"
  using series_host.ranged_filtered [OF series_host.intro [OF assms(1)] assms(2)] assms(3) by blast

theorem series_filtered_read_witness:
  "ts_get_range_filtered rev host_ref (series_ref 15000000 [10, 20, 30]) 0 40 (Some [30, 10, 30]) None = [sample_new 30 0]"
  using series_filtered_read [OF href.host_log series_ref3(1), of rev 15000000 0 40 "Some [30, 10, 30]" None]
  by (simp add: series_ref3_visible in_range_def)

text \<open>
  C16: The figures reported for a series describe the retention window, not what is stored: the number of visible samples and
  the first visible timestamp, found without a full scan; and the range test agrees with the range read.
\<close>

theorem series_info:
  assumes "log10_ok (host_log10 h)" "ts_inv h s"
  shows "ts_visible_total_samples h s = length (ts_visible h s) \<and>
    ts_visible_first_timestamp h s = (if ts_visible h s = [] then ts_first_timestamp s else timestamp (hd (ts_visible h s))) \<and>
    (ts_has_samples_in_range h s a b \<longleftrightarrow> ts_get_range h s a b \<noteq> [])"
proof -
  note sh = series_host.intro [OF assms(1)]
  have "ts_has_samples_in_range h s a b \<longleftrightarrow> ts_get_range h s a b \<noteq> []"
    unfolding series_host.has_samples_series [OF sh assms(2)] series_host.ranged [OF sh assms(2)] by (auto simp: filter_empty_conv)
  then show ?thesis using series_host.counted_visible [OF sh assms(2)] series_host.first_visible [OF sh assms(2)] by simp
qed

theorem series_info_witness:
  "ts_visible_total_samples host_ref (series_ref 15000000 [10, 20, 30]) = 2 \<and>
   ts_visible_first_timestamp host_ref (series_ref 15000000 [10, 20, 30]) = 20"
  using series_info [OF href.host_log series_ref3(1), of 15000000] by (simp add: series_ref3_visible)

end
