(* ===== verification/Spec2Isabelle.thy ===== *)
theory Spec2Isabelle
  imports Series_Properties
begin

text \<open>
  A model of the storage engine of valkey-timeseries, a time series module for the Valkey server. Paths below are
  relative to \<open>src/src/\<close>.

  \<^bold>\<open>The program.\<close> A series (\<open>series/time_series.rs\<close>) is a list of chunks, ordered in time, with a summary of what
  they hold: the number of samples, the first timestamp and the last sample. A chunk (\<open>series/chunks/\<close>) holds
  samples, pairs of a millisecond timestamp and an \<open>f64\<close>, in one of three encodings: a plain vector, the Gorilla
  XOR code, or the Chimp code over an ELF-style erasure of decimal digits. The compressed chunks write to a bit
  stream. An add appends to the last chunk, opens a new one when it is full, or upserts into the chunk of its
  timestamp under a duplicate policy, splitting a chunk that has outgrown its limit. Retention drops what is older
  than a window behind the last sample. Reads go through an index search over the chunks and through iterators in
  both directions.

  \<^bold>\<open>Machine types.\<close> A timestamp is an \<open>int\<close> in the range of \<open>i64\<close>, and arithmetic on it wraps as in release builds
  (\<open>i64\<close>) or saturates where the code says so. A \<open>u64\<close> is a 64-bit word, a \<open>usize\<close> a natural number. An \<open>f64\<close> is
  its 64-bit pattern; its operations are computed exactly and rounded to nearest, ties to even. \<open>Result\<close> is a sum
  with the error on the left, \<open>bindR\<close> the question mark operator.

  \<^bold>\<open>Parameters.\<close> What runs on the host is the record \<open>host\<close>: the libm \<open>log10\<close>, \<open>f64::powi\<close>, the clock and the
  settings of the module. Chimp relies on \<open>log10\<close>: the hypothesis \<open>log10_ok\<close> says that the floor of its result at a
  positive value is the decimal exponent of the value, up to a quarter of the value at the ends of the decade, and
  \<open>Log10_Ref\<close> gives a function that meets it. The locale \<open>series_host\<close> is a host with such a \<open>log10\<close>. The order in which a hash map hands
  back its entries is a permutation passed as an argument.

  \<^bold>\<open>Theories and sources.\<close>
  \<^item> \<open>TS_Prelude\<close>, \<open>Bit_Lists\<close>: results, wrapping arithmetic, ordered lists, lists of bits.
  \<^item> \<open>F64\<close>, \<open>F64_Real\<close>: the \<open>f64\<close> operations on patterns, and the error of rounding as real numbers.
  \<^item> \<open>Encoding\<close>: \<open>common/encoding.rs\<close>, varints, zig-zag and byte slices, with their round trips.
  \<^item> \<open>BitIO\<close>: \<open>series/chunks/stream/bitstream.rs\<close> and \<open>bitstream_reader.rs\<close>. The writer refines a list of bits, and the
    reader with its 64-bit window reads back any list that was written. The traits are the locales \<open>bit_write\<close> and
    \<open>bit_read\<close>; \<open>Varbit\<close> proves the integer and XOR codes of \<open>stream/varbit.rs\<close> and \<open>gorilla/varbit_xor.rs\<close> over them.
  \<^item> \<open>Types\<close>, \<open>Sample_Merge\<close>: samples, duplicate policies, errors (\<open>common/types.rs\<close>, \<open>series/types.rs\<close>, \<open>error.rs\<close>) and
    the merge of two sorted sample streams (\<open>iterators/sample_merge_iterator.rs\<close>, \<open>series/chunks/merge.rs\<close>).
  \<^item> \<open>Chunk_Spec\<close>: \<open>series/chunks/chunk.rs\<close>. The trait of the chunks is the locale \<open>chunk_contract\<close>, whose laws say what
    each operation does to a strictly ordered list of samples. It is interpreted for the three encodings in
    \<open>Uncompressed\<close>, \<open>Gorilla_Chunk\<close>, \<open>Chimp_Chunk\<close> and for their sum in \<open>Timeseries_Chunk\<close>.
  \<^item> \<open>Codec_Chunk\<close>: the code that \<open>gorilla_chunk.rs\<close> and \<open>chimp_chunk.rs\<close> share, over the locale \<open>seq_codec\<close>, a codec that
    appends samples and decodes what it appended.
  \<^item> \<open>Gorilla\<close>; \<open>Elf64\<close>, \<open>Elf64_Bounds\<close>, \<open>Log10_Ref\<close>, \<open>Chimp_Codec\<close>, \<open>Chimp\<close>: the two codecs, bit for bit, and that
    decoding is the inverse of encoding for every value, NaNs and infinities included.
  \<^item> \<open>Chunk_Index\<close>: the linear and binary searches of \<open>time_series.rs\<close> over the chunks.
  \<^item> \<open>Series_Iterator\<close>: \<open>series/series_sample_iterator.rs\<close>.
  \<^item> \<open>Rounding\<close>: \<open>common/rounding.rs\<close>. \<open>Time_Series\<close>: \<open>series/time_series.rs\<close>, every operation on the samples of a series.

  \<^bold>\<open>What is shown.\<close> The invariant \<open>ts_inv\<close> says that every chunk is well formed and not empty, that the chunks do not
  overlap and are in order, and that the summary describes them. \<open>Series_Laws\<close> proves that adds, upserts, splits,
  trims and deletes keep it and states what each of them does to the list of all samples; \<open>Series_Reads\<close> that range
  reads, iterators, look-ups and the figures of \<open>TS.INFO\<close> return what that list says, and \<open>Series_Runs\<close> puts them
  together over runs of operations. \<open>Series_Properties\<close> states the properties for every accurate host, with the
  reachable series as an inductive predicate. The properties of the chunks, codecs and searches are stated in their
  own theories. Where the code refuses a sample it could hold, the refusal is a theorem as well.

  \<^bold>\<open>Bounds and termination.\<close> All loops of the model are total functions; the iterators and the searches terminate by
  a measure and no fuel is used. Timestamps are non-negative, as every command parser makes sure. Chunk sizes are at
  least 48 bytes, and below \<open>2 ^ 53\<close> so that the conversions of sizes to \<open>f64\<close> are exact; the limit that
  \<open>validate_chunk_size\<close> sets is one megabyte.

  \<^bold>\<open>Not modelled.\<close> Code that runs on the host server: commands and their replies, persistence callbacks, key space
  events, access control, cluster fan-out, threads and background tasks (a parallel loop over disjoint chunks is the
  loop). Code over third-party packages: the label index (bitmaps and tries), the selector language and its regular
  expressions, interned strings, the JSON reader of bulk ingest and the protobuf messages. Aggregation, joins,
  outlier analysis and the multi-series iterators work on samples that have been read, and compaction writes to other
  series through the host; they take no part in the storage engine. Memory accounting and shrinking change no
  sample.
\<close>

end
